(* ===== verification/Prelude.thy ===== *)
theory Prelude
  imports Main "HOL-Library.Word"
begin

text \<open>
  Shared vocabulary of the development: the machine integers and byte strings of the
  Rust code, the error values of \<open>std::io\<close>, little-endian encoding
  (\<open>to_le_bytes\<close> / \<open>from_le_bytes\<close>), slices, buffered reading and the list
  facts (stable sort, \<open>dedup_by_key\<close>, sorted lists) the component theories share.
\<close>

unbundle bit_operations_syntax

section \<open>Types\<close>

type_synonym byte = "8 word"
type_synonym u16 = "16 word"
type_synonym u32 = "32 word"
type_synonym u64 = "64 word"
type_synonym bytes = "byte list"

text \<open>The \<open>io::ErrorKind\<close>s the code constructs, and a panic as an error value.\<close>

datatype io_kind = InvalidInput | InvalidData | UnexpectedEof | NotFound | OtherError

datatype fault = IoErr io_kind | Panic

type_synonym 'a res = "fault + 'a"

text \<open>
  \<open>named_theorems\<close>: \<open>codec\<close> rewrites an encoder or a decoder to its closed form,
  \<open>wf_intros\<close> are the introduction rules of the invariants.
\<close>

named_theorems codec \<open>closed forms of encoders and decoders\<close>
named_theorems wf_intros \<open>introduction rules for well-formedness invariants\<close>

definition rbind :: "'a res \<Rightarrow> ('a \<Rightarrow> 'b res) \<Rightarrow> 'b res" where
  "rbind m f = (case m of Inl e \<Rightarrow> Inl e | Inr x \<Rightarrow> f x)"

lemma rbind_simps [simp]:
  "rbind (Inl e) f = Inl e"
  "rbind (Inr x) f = f x"
  by (simp_all add: rbind_def)

lemma rbind_eq_Inr_iff: "rbind m f = Inr y \<longleftrightarrow> (\<exists>x. m = Inr x \<and> f x = Inr y)"
  by (cases m) auto

lemma rbind_eq_Inl_iff:
  "rbind m f = Inl e \<longleftrightarrow> m = Inl e \<or> (\<exists>x. m = Inr x \<and> f x = Inl e)"
  by (cases m) auto

lemma rbind_assoc: "rbind (rbind m f) g = rbind m (\<lambda>x. rbind (f x) g)"
  by (cases m) auto

lemma rbind_cong [fundef_cong]:
  "m = m' \<Longrightarrow> (\<And>x. m' = Inr x \<Longrightarrow> f x = f' x) \<Longrightarrow> rbind m f = rbind m' f'"
  by (cases m') auto

lemma length_concat_map_le:
  "(\<And>x. length (f x) \<le> 1) \<Longrightarrow> length (concat (map f xs)) \<le> length xs"
  by (induction xs) (auto intro: add_le_mono [of _ 1, simplified])

text \<open>\<open>Option::ok_or\<close>: a missing value becomes an error.\<close>

definition ok_or :: "'a option \<Rightarrow> fault \<Rightarrow> 'a res" where
  "ok_or x e = (case x of None \<Rightarrow> Inl e | Some y \<Rightarrow> Inr y)"

lemma ok_or_simps [simp]: "ok_or None e = Inl e" "ok_or (Some y) e = Inr y"
  by (simp_all add: ok_or_def)

section \<open>Slices and buffers\<close>

definition rslice :: "nat \<Rightarrow> nat \<Rightarrow> 'a list \<Rightarrow> 'a list" where
  "rslice a b xs = take (b - a) (drop a xs)"

text \<open>\<open>xs.get(a..b)\<close>: \<open>None\<close> unless \<open>a \<le> b \<le> len\<close>.\<close>

definition get_range :: "'a list \<Rightarrow> nat \<Rightarrow> nat \<Rightarrow> 'a list option" where
  "get_range xs a b = (if a \<le> b \<and> b \<le> length xs then Some (rslice a b xs) else None)"

text \<open>\<open>buf[a..a+src.len()].copy_from_slice(src)\<close>, for a range inside the buffer.\<close>

definition copy_at :: "nat \<Rightarrow> 'a list \<Rightarrow> 'a list \<Rightarrow> 'a list" where
  "copy_at a src buf = take a buf @ src @ drop (a + length src) buf"

text \<open>\<open>Read::read_exact\<close> on an in-memory stream: the bytes read and the rest.\<close>

definition read_exact :: "nat \<Rightarrow> 'a list \<Rightarrow> ('a list \<times> 'a list) option" where
  "read_exact n s = (if n \<le> length s then Some (take n s, drop n s) else None)"

lemma length_rslice [simp]: "length (rslice a b xs) = min (b - a) (length xs - a)"
  by (simp add: rslice_def min.commute)

lemma rslice_full: "length xs = n \<Longrightarrow> rslice 0 n xs = xs"
  by (simp add: rslice_def)

lemma rslice_append_left: "b \<le> length xs \<Longrightarrow> rslice a b (xs @ ys) = rslice a b xs"
  by (cases "a \<le> b") (auto simp: rslice_def)

lemma rslice_append_right:
  "length xs \<le> a \<Longrightarrow> rslice a b (xs @ ys) = rslice (a - length xs) (b - length xs) ys"
  by (simp add: rslice_def)

lemma rslice_append_exact:
  "a = length xs \<Longrightarrow> b = length xs + length ys \<Longrightarrow> rslice a b (xs @ ys @ zs) = ys"
  by (simp add: rslice_def)

lemma rslice_take: "b \<le> n \<Longrightarrow> rslice a b (take n xs) = rslice a b xs"
  by (simp add: rslice_def drop_take)

lemma rslice_concat: "a \<le> b \<Longrightarrow> b \<le> c \<Longrightarrow> rslice a b xs @ rslice b c xs = rslice a c xs"
proof -
  assume "a \<le> b" "b \<le> c"
  then have "take (c - a) (drop a xs) = take (b - a + (c - b)) (drop a xs)" by simp
  also have "\<dots> = take (b - a) (drop a xs) @ take (c - b) (drop (b - a) (drop a xs))"
    by (rule take_add)
  finally show ?thesis using \<open>a \<le> b\<close> by (simp add: rslice_def)
qed

lemma rslice_drop_append: "a \<le> b \<Longrightarrow> rslice a b xs @ drop b xs = drop a xs"
proof -
  assume "a \<le> b"
  then have "drop b xs = drop (b - a) (drop a xs)" by simp
  then show ?thesis by (simp only: rslice_def append_take_drop_id)
qed

lemma take_rslice_append: "a \<le> b \<Longrightarrow> take a xs @ rslice a b xs = take b xs"
  using rslice_concat [of 0 a b xs] by (simp add: rslice_def)

lemma rslice_nth: "a < length xs \<Longrightarrow> rslice a (Suc a) xs = [xs ! a]"
  by (simp add: rslice_def take_Suc_conv_app_nth hd_drop_conv_nth take_Suc)

lemma get_range_Some_iff:
  "get_range xs a b = Some ys \<longleftrightarrow> a \<le> b \<and> b \<le> length xs \<and> ys = rslice a b xs"
  by (auto simp: get_range_def)

lemma get_range_append:
  "get_range xs a b = Some ys \<Longrightarrow> get_range (xs @ zs) a b = Some ys"
  by (auto simp: get_range_Some_iff rslice_append_left)

lemma get_range_take:
  "get_range xs a b = Some ys \<Longrightarrow> b \<le> n \<Longrightarrow> get_range (take n xs) a b = Some ys"
  by (auto simp: get_range_Some_iff rslice_take)

lemma length_copy_at [simp]:
  "a + length src \<le> length buf \<Longrightarrow> length (copy_at a src buf) = length buf"
  by (simp add: copy_at_def)

lemma read_exact_append [simp]:
  "length xs = n \<Longrightarrow> read_exact n (xs @ ys) = Some (xs, ys)"
  by (simp add: read_exact_def)

lemma read_exact_short [simp]: "length s < n \<Longrightarrow> read_exact n s = None"
  by (simp add: read_exact_def)

section \<open>Little-endian integers\<close>

text \<open>\<open>to_le_bytes\<close> of a \<open>8 * n\<close>-bit integer, and \<open>from_le_bytes\<close>.\<close>

fun to_le :: "nat \<Rightarrow> 'a::len word \<Rightarrow> bytes" where
  "to_le 0 w = []"
| "to_le (Suc n) w = ucast w # to_le n (drop_bit 8 w)"

fun from_le :: "bytes \<Rightarrow> 'a::len word" where
  "from_le [] = 0"
| "from_le (b # bs) = ucast b OR push_bit 8 (from_le bs)"

lemma length_to_le [simp]: "length (to_le n w) = n"
  by (induction n arbitrary: w) auto

lemma from_le_to_le_take: "from_le (to_le n w) = take_bit (8 * n) (w :: 'a::len word)"
proof (induction n arbitrary: w)
  case 0
  then show ?case by simp
next
  case (Suc n)
  have "from_le (to_le (Suc n) w) =
      ucast (ucast w :: byte) OR push_bit 8 (take_bit (8 * n) (drop_bit 8 w))"
    by (simp add: Suc.IH)
  also have "\<dots> = take_bit (8 * Suc n) w"
    by (rule bit_word_eqI)
      (auto simp: bit_simps less_diff_conv2)
  finally show ?case .
qed

lemma from_le_to_le: "LENGTH('a) \<le> 8 * n \<Longrightarrow> from_le (to_le n w) = (w :: 'a::len word)"
  by (simp add: from_le_to_le_take take_bit_word_eq_self)

lemma bit_byte_above [simp]: "8 \<le> n \<Longrightarrow> \<not> bit (b :: byte) n"
  using bit_imp_le_length [of b n] by auto

lemma from_le_bits_above:
  "8 * length bs \<le> n \<Longrightarrow> \<not> bit (from_le bs :: 'a::len word) n"
proof (induction bs arbitrary: n)
  case Nil
  then show ?case by simp
next
  case (Cons b bs)
  then have "\<not> bit (from_le bs :: 'a word) (n - 8)" by (intro Cons.IH) auto
  with Cons.prems show ?case by (auto simp: bit_simps)
qed

lemma to_le_from_le:
  "length bs = n \<Longrightarrow> 8 * n \<le> LENGTH('a) \<Longrightarrow> to_le n (from_le bs :: 'a::len word) = bs"
proof (induction bs arbitrary: n)
  case Nil
  then show ?case by simp
next
  case (Cons b bs)
  then obtain m where n: "n = Suc m" and m: "length bs = m" by auto
  have low: "ucast (ucast b OR push_bit 8 (from_le bs) :: 'a word) = b"
    using Cons.prems n by (intro bit_word_eqI) (auto simp: bit_simps)
  have "drop_bit 8 (ucast b OR push_bit 8 (from_le bs)) = (from_le bs :: 'a word)"
  proof (rule bit_word_eqI)
    fix k assume k: "k < LENGTH('a)"
    show "bit (drop_bit 8 (ucast b OR push_bit 8 (from_le bs)) :: 'a word) k = bit (from_le bs :: 'a word) k"
    proof (cases "8 + k < LENGTH('a)")
      case True
      then show ?thesis by (auto simp: bit_simps)
    next
      case False
      with Cons.prems n m have "\<not> bit (from_le bs :: 'a word) k"
        by (intro from_le_bits_above) auto
      with False show ?thesis by (auto simp: bit_simps)
    qed
  qed
  moreover have "to_le m (from_le bs :: 'a word) = bs"
    using Cons.prems n m by (intro Cons.IH) auto
  ultimately show ?case using low by (simp add: n)
qed

lemma to_le_inject:
  assumes "LENGTH('a) \<le> 8 * n" and "to_le n (v :: 'a::len word) = to_le n w"
  shows "v = w"
  using assms from_le_to_le by metis

lemma word_xor_eq_0_iff: "v XOR w = 0 \<longleftrightarrow> v = (w :: 'a::len word)"
  by (metis xor_self_eq xor.assoc xor.left_neutral xor.right_neutral)

lemma word_take_bit_mult: "take_bit n (take_bit n a * b) = take_bit n (a * b :: 'a::len word)"
  by (transfer, simp add: take_bit_take_bit) (metis take_bit_mult take_bit_take_bit min.idem min.commute)

lemma unat_ucast_widen [simp]: "unat (ucast (w :: u32) :: u64) = unat w"
proof -
  have "unat w < 2 ^ 32" using unsigned_less [of w, where ?'a = nat] by simp
  then have "unat w < 2 ^ 64" by (rule less_trans) simp
  then show ?thesis by (simp add: unsigned_ucast_eq take_bit_nat_eq_self_iff)
qed

section \<open>Sorting by key, deduplication and floor search on lists\<close>

text \<open>
  \<open>sort_by_key\<close> is a stable sort: the library's \<^const>\<open>sort_key\<close>.
  \<open>dedup_by_key\<close> drops every element whose key equals that of the last element kept.
\<close>

fun dedup_by_key :: "('a \<Rightarrow> 'k) \<Rightarrow> 'a list \<Rightarrow> 'a list" where
  "dedup_by_key f [] = []"
| "dedup_by_key f [x] = [x]"
| "dedup_by_key f (x # y # xs) =
     (if f x = f y then dedup_by_key f (x # xs) else x # dedup_by_key f (y # xs))"

lemma set_dedup_by_key: "set (dedup_by_key f xs) \<subseteq> set xs"
  by (induction f xs rule: dedup_by_key.induct) auto

lemma keys_dedup_by_key [simp]: "f ` set (dedup_by_key f xs) = f ` set xs"
  by (induction f xs rule: dedup_by_key.induct) auto

lemma sorted_dedup_by_key:
  "sorted (map f xs) \<Longrightarrow> sorted_wrt (<) (map f (dedup_by_key f xs))"
proof (induction f xs rule: dedup_by_key.induct)
  case (3 f x y xs)
  show ?case
  proof (cases "f x = f y")
    case True
    with 3 show ?thesis by simp
  next
    case False
    with 3 have IH: "sorted_wrt (<) (map f (dedup_by_key f (y # xs)))" by simp
    have "\<forall>z \<in> f ` set (y # xs). f x < z"
      using "3.prems" False by force
    then have "\<forall>z \<in> f ` set (dedup_by_key f (y # xs)). f x < z"
      by (simp only: keys_dedup_by_key)
    with IH False show ?thesis by simp
  qed
qed auto

lemma find_filter: "find P xs = (case filter P xs of [] \<Rightarrow> None | x # _ \<Rightarrow> Some x)"
  by (induction xs) auto

lemma find_eq_Some: "find P xs = Some x \<Longrightarrow> x \<in> set xs \<and> P x"
  by (auto simp: find_Some_iff in_set_conv_nth)

lemma find_key_sort_key: "find (\<lambda>r. f r = k) (sort_key f xs) = find (\<lambda>r. f r = k) xs"
  by (simp add: find_filter sort_key_stable)

lemma find_key_dedup: "find (\<lambda>r. f r = k) (dedup_by_key f xs) = find (\<lambda>r. f r = k) xs"
  by (induction f xs rule: dedup_by_key.induct) auto

definition canon :: "('a \<Rightarrow> 'k::linorder) \<Rightarrow> 'a list \<Rightarrow> 'a list" where
  "canon f xs = dedup_by_key f (sort_key f xs)"

lemma sorted_canon: "sorted_wrt (<) (map f (canon f xs))"
  by (simp add: canon_def sorted_dedup_by_key)

lemma set_canon: "set (canon f xs) \<subseteq> set xs"
  using set_dedup_by_key [of f "sort_key f xs"] by (simp add: canon_def)

lemma keys_canon [simp]: "f ` set (canon f xs) = f ` set xs"
  by (simp add: canon_def)

lemma find_key_canon: "find (\<lambda>r. f r = k) (canon f xs) = find (\<lambda>r. f r = k) xs"
  by (simp add: canon_def find_key_dedup find_key_sort_key)

lemma sorted_wrt_map_distinct:
  "sorted_wrt (<) (map (f :: 'a \<Rightarrow> 'k::linorder) xs) \<Longrightarrow> distinct (map f xs)"
  by (simp add: strict_sorted_iff)

lemma dedup_by_key_id: "distinct (map f xs) \<Longrightarrow> dedup_by_key f xs = xs"
  by (induction f xs rule: dedup_by_key.induct) auto

lemma canon_id: "sorted_wrt (<) (map f xs) \<Longrightarrow> canon f xs = xs"
  by (simp add: canon_def dedup_by_key_id strict_sorted_iff sort_key_id_if_sorted)

lemma find_key_in_distinct:
  "distinct (map f xs) \<Longrightarrow> x \<in> set xs \<Longrightarrow> find (\<lambda>r. f r = f x) xs = Some x"
  by (induction xs) (auto simp: rev_image_eqI)

lemma length_takeWhile_lt: "x \<in> set xs \<Longrightarrow> \<not> P x \<Longrightarrow> length (takeWhile P xs) < length xs"
  by (induction xs) auto

text \<open>The last element whose key is at most \<open>k\<close>, on a list with increasing keys.\<close>

definition floor_by :: "('a \<Rightarrow> 'k::linorder) \<Rightarrow> 'k \<Rightarrow> 'a list \<Rightarrow> 'a option" where
  "floor_by f k xs =
     (let n = length (takeWhile (\<lambda>x. f x \<le> k) xs) in if n = 0 then None else Some (xs ! (n - 1)))"

lemma takeWhile_le_nth:
  assumes "sorted (map f xs)" and "i < length xs"
  shows "i < length (takeWhile (\<lambda>x. f x \<le> k) xs) \<longleftrightarrow> f (xs ! i) \<le> k"
  using assms
proof (induction xs arbitrary: i)
  case (Cons x xs)
  have "f x \<le> f (xs ! j)" if "j < length xs" for j
    using Cons.prems(1) that by simp
  with Cons show ?case
    by (cases i) (auto intro: order_trans)
qed simp

lemma length_takeWhile_unique:
  assumes "sorted (map f xs)" and "n \<le> length xs"
    and "\<And>i. i < length xs \<Longrightarrow> i < n \<longleftrightarrow> f (xs ! i) \<le> k"
  shows "n = length (takeWhile (\<lambda>x. f x \<le> k) xs)"
proof (rule ccontr)
  let ?m = "length (takeWhile (\<lambda>x. f x \<le> k) xs)"
  assume ne: "n \<noteq> ?m"
  have le: "?m \<le> length xs" by (rule length_takeWhile_le)
  consider "n < ?m" | "?m < n" using ne by linarith
  then show False
  proof cases
    case 1
    with le have "n < length xs" by simp
    with takeWhile_le_nth [OF assms(1) this, of k] assms(3) 1 show ?thesis by auto
  next
    case 2
    with assms(2) have "?m < length xs" by simp
    with takeWhile_le_nth [OF assms(1) this, of k] assms(3) 2 show ?thesis by auto
  qed
qed

lemma floor_by_Some_iff:
  assumes "sorted_wrt (<) (map f xs)"
  shows "floor_by f k xs = Some r \<longleftrightarrow>
    r \<in> set xs \<and> f r \<le> k \<and> (\<forall>r' \<in> set xs. f r' \<le> k \<longrightarrow> f r' \<le> f r)"
proof -
  let ?n = "length (takeWhile (\<lambda>x. f x \<le> k) xs)"
  have srt: "sorted (map f xs)" and dst: "distinct (map f xs)"
    using assms by (simp_all add: strict_sorted_iff)
  have le: "?n \<le> length xs" by (rule length_takeWhile_le)
  have nth: "i < ?n \<longleftrightarrow> f (xs ! i) \<le> k" if "i < length xs" for i
    by (rule takeWhile_le_nth [OF srt that])
  show ?thesis
  proof
    assume "floor_by f k xs = Some r"
    then have n: "0 < ?n" and r: "r = xs ! (?n - 1)"
      by (auto simp: floor_by_def Let_def split: if_splits)
    have "f (xs ! j) \<le> f r" if "j < length xs" "f (xs ! j) \<le> k" for j
      using that nth [of j] srt le n by (auto simp: r sorted_iff_nth_mono)
    moreover have "?n - 1 < length xs" using n le by linarith
    ultimately show "r \<in> set xs \<and> f r \<le> k \<and> (\<forall>r' \<in> set xs. f r' \<le> k \<longrightarrow> f r' \<le> f r)"
      using nth [of "?n - 1"] n unfolding r by (auto simp: in_set_conv_nth [of _ xs] simp del: length_0_conv length_greater_0_conv)
  next
    assume r: "r \<in> set xs \<and> f r \<le> k \<and> (\<forall>r' \<in> set xs. f r' \<le> k \<longrightarrow> f r' \<le> f r)"
    then obtain j where j: "j < length xs" "xs ! j = r" by (auto simp: in_set_conv_nth)
    with nth r have jn: "j < ?n" by simp
    then have "?n - 1 < length xs" and n: "0 < ?n" using le by auto
    then have "f (xs ! (?n - 1)) \<le> f r" using r nth [of "?n - 1"] by simp
    moreover have "f r \<le> f (xs ! (?n - 1))"
      using srt j jn le by (auto simp: sorted_iff_nth_mono)
    ultimately have "f (xs ! (?n - 1)) = f (xs ! j)" using j by simp
    then have "?n - 1 = j" using dst j \<open>?n - 1 < length xs\<close>
      by (metis length_map nth_eq_iff_index_eq nth_map)
    with j n show "floor_by f k xs = Some r" by (simp add: floor_by_def Let_def)
  qed
qed

lemma floor_by_None_iff:
  assumes "sorted_wrt (<) (map f xs)"
  shows "floor_by f k xs = None \<longleftrightarrow> (\<forall>r \<in> set xs. k < f r)"
proof -
  have srt: "sorted (map f xs)" using assms by (simp add: strict_sorted_iff)
  have "length (takeWhile (\<lambda>x. f x \<le> k) xs) = 0 \<longleftrightarrow> (\<forall>r \<in> set xs. k < f r)"
    using srt by (cases xs) (auto simp: not_le intro: less_le_trans)
  then show ?thesis by (auto simp: floor_by_def Let_def)
qed

end
