(* ===== verification/Chunk.thy ===== *)
theory Chunk
  imports Prelude
begin

text \<open>
  The on-disk data model of \<open>bxdb-core/src/chunk.rs\<close>: combined keys, chunk kinds, chunk
  records with their two encodings (the variable-length record of \<open>chunks.log\<close> and the
  32-byte record of \<open>index.bxdb\<close>), and the sparse XOR patches of delta chunks.
\<close>

section \<open>Constants and combined keys\<close>

definition PAGE_SIZE :: nat where "PAGE_SIZE = 4096"
definition PAGE_WORDS :: nat where "PAGE_WORDS = PAGE_SIZE div 8"
definition SNAPSHOT_BITS :: nat where "SNAPSHOT_BITS = 19"
definition SNAPSHOT_MASK :: u64 where "SNAPSHOT_MASK = push_bit SNAPSHOT_BITS 1 - 1"
definition MAX_SNAPSHOT_ID :: u32 where "MAX_SNAPSHOT_ID = push_bit SNAPSHOT_BITS 1 - 1"
definition DEFAULT_DELTA_THRESHOLD :: u16 where "DEFAULT_DELTA_THRESHOLD = 256"

text \<open>\<open>b"BXDBLOG\0"\<close> and \<open>b"BXDBIDX\0"\<close>.\<close>

definition MAGIC_LOG :: bytes where "MAGIC_LOG = [0x42, 0x58, 0x44, 0x42, 0x4C, 0x4F, 0x47, 0]"
definition MAGIC_IDX :: bytes where "MAGIC_IDX = [0x42, 0x58, 0x44, 0x42, 0x49, 0x44, 0x58, 0]"
definition FORMAT_VERSION :: byte where "FORMAT_VERSION = 1"
definition HEADER_SIZE :: nat where "HEADER_SIZE = 16"
definition LOG_RECORD_BASE_SIZE :: nat where "LOG_RECORD_BASE_SIZE = 22"
definition FIXED_RECORD_SIZE :: nat where "FIXED_RECORD_SIZE = 32"

definition CHUNK_FULL :: byte where "CHUNK_FULL = 0"
definition CHUNK_DELTA :: byte where "CHUNK_DELTA = 1"
definition CHUNK_ZERO :: byte where "CHUNK_ZERO = 2"

definition encode_key :: "u64 \<Rightarrow> u32 \<Rightarrow> u64" where
  "encode_key pa snapshot_id = push_bit SNAPSHOT_BITS pa OR (ucast snapshot_id AND SNAPSHOT_MASK)"

definition pa_of :: "u64 \<Rightarrow> u64" where
  "pa_of key = drop_bit SNAPSHOT_BITS key"

definition snapshot_of :: "u64 \<Rightarrow> u32" where
  "snapshot_of key = ucast (key AND SNAPSHOT_MASK)"

lemma SNAPSHOT_MASK_mask: "SNAPSHOT_MASK = mask 19"
  by (simp add: SNAPSHOT_MASK_def SNAPSHOT_BITS_def mask_eq_exp_minus_1)

lemma MAX_SNAPSHOT_ID_mask: "MAX_SNAPSHOT_ID = mask 19"
  by (simp add: MAX_SNAPSHOT_ID_def SNAPSHOT_BITS_def mask_eq_exp_minus_1)

lemma unat_max_snapshot [simp]: "unat MAX_SNAPSHOT_ID = 524287"
  by (simp add: MAX_SNAPSHOT_ID_def SNAPSHOT_BITS_def)

lemma snapshot_le_max_unat: "s \<le> MAX_SNAPSHOT_ID \<longleftrightarrow> unat s < 2 ^ 19"
  by (simp add: word_le_nat_alt) arith

lemma snapshot_le_max_iff: "s \<le> MAX_SNAPSHOT_ID \<longleftrightarrow> take_bit 19 s = s"
proof -
  have "take_bit 19 s = s \<longleftrightarrow> take_bit 19 (unat s) = unat s"
    by (simp add: word_unat_eq_iff unsigned_take_bit_eq)
  then show ?thesis by (simp add: snapshot_le_max_unat take_bit_nat_eq_self_iff)
qed

lemma bit_encode_key:
  "bit (encode_key pa s) n \<longleftrightarrow>
    (if n < 19 then bit s n else n < 64 \<and> bit pa (n - 19))"
  by (auto simp: encode_key_def SNAPSHOT_MASK_mask SNAPSHOT_BITS_def bit_simps
      dest: bit_imp_le_length)

lemma bit_pa_of: "bit (pa_of k) n \<longleftrightarrow> bit k (19 + n)"
  by (simp add: pa_of_def SNAPSHOT_BITS_def bit_simps)

lemma bit_snapshot_of: "bit (snapshot_of k) n \<longleftrightarrow> n < 19 \<and> bit k n"
  by (auto simp: snapshot_of_def SNAPSHOT_MASK_mask bit_simps)

lemma pa_of_encode_key: "pa_of (encode_key pa s) = take_bit 45 pa"
  by (rule bit_word_eqI) (auto simp: bit_pa_of bit_encode_key bit_simps)

lemma snapshot_of_encode_key [simp]: "s \<le> MAX_SNAPSHOT_ID \<Longrightarrow> snapshot_of (encode_key pa s) = s"
proof (rule bit_word_eqI)
  fix n assume "s \<le> MAX_SNAPSHOT_ID"
  then have "bit s n \<longleftrightarrow> n < 19 \<and> bit s n"
    by (metis bit_take_bit_iff snapshot_le_max_iff)
  then show "bit (snapshot_of (encode_key pa s)) n = bit s n"
    by (auto simp: bit_encode_key bit_snapshot_of)
qed

lemma snapshot_of_bound: "snapshot_of k \<le> MAX_SNAPSHOT_ID"
  unfolding snapshot_le_max_iff by (rule bit_word_eqI) (auto simp: bit_snapshot_of bit_simps)

lemma encode_key_parts [simp]: "encode_key (pa_of k) (snapshot_of k) = k"
  by (rule bit_word_eqI) (auto simp: bit_encode_key bit_pa_of bit_snapshot_of)

lemma key_eq_iff: "k = k' \<longleftrightarrow> pa_of k = pa_of k' \<and> snapshot_of k = snapshot_of k'"
  by (metis encode_key_parts)

lemma unat_pa_of: "unat (pa_of k) = unat k div 2 ^ 19"
  by (subst drop_bit_eq_div [symmetric]) (simp add: pa_of_def SNAPSHOT_BITS_def unat_drop_bit_eq)

lemma unat_snapshot_of: "unat (snapshot_of k) = unat k mod 2 ^ 19"
proof -
  have "snapshot_of k = ucast (take_bit 19 k)"
    by (rule bit_word_eqI) (auto simp: bit_snapshot_of bit_simps)
  moreover have "unat (take_bit 19 k) = unat k mod 2 ^ 19"
    by (subst take_bit_eq_mod [symmetric]) (simp add: unsigned_take_bit_eq)
  moreover have "unat k mod 2 ^ 19 < (2 ^ 32 :: nat)"
    by (rule less_trans [OF mod_less_divisor]) simp_all
  ultimately show ?thesis by (simp add: unsigned_ucast_eq take_bit_nat_eq_self_iff)
qed

text \<open>Keys are ordered by page address first, snapshot second.\<close>

lemma nat_le_div_mod_iff:
  "0 < B \<Longrightarrow> m \<le> n \<longleftrightarrow> m div B < n div B \<or> m div B = n div B \<and> m mod B \<le> n mod B" for B m n :: nat
proof (cases "m div B = n div B")
  case True
  then have "m \<le> n \<longleftrightarrow> m mod B \<le> n mod B"
    by (metis add_le_cancel_left mult_div_mod_eq)
  with True show ?thesis by simp
next
  case False
  then show "0 < B \<Longrightarrow> ?thesis"
    by (metis div_le_mono le_neq_implies_less nat_le_linear not_less)
qed

lemma key_le_iff:
  "k \<le> k' \<longleftrightarrow> pa_of k < pa_of k' \<or> pa_of k = pa_of k' \<and> snapshot_of k \<le> snapshot_of k'"
  unfolding word_le_nat_alt [of k] word_le_nat_alt [of "snapshot_of k"] word_less_nat_alt
    word_unat_eq_iff unat_pa_of unat_snapshot_of
  by (rule nat_le_div_mod_iff) simp

lemma pa_of_encode_key_small:
  "unat pa < 2 ^ 45 \<Longrightarrow> pa_of (encode_key pa s) = pa"
  by (simp add: pa_of_encode_key word_unat_eq_iff unsigned_take_bit_eq take_bit_nat_eq_self_iff)

lemma pa_of_bound: "unat (pa_of k) < 2 ^ 45"
  using unsigned_less [of k, where ?'a = nat] by (simp add: unat_pa_of less_mult_imp_div_less)

lemma key_le_encode_iff:
  assumes "pa_of k = pa" and "s \<le> MAX_SNAPSHOT_ID"
  shows "k \<le> encode_key pa s \<longleftrightarrow> snapshot_of k \<le> s"
  using assms pa_of_bound [of k] by (simp add: key_le_iff pa_of_encode_key_small)

section \<open>Chunk kinds and records\<close>

datatype chunk_kind = Full | Delta | Zero

fun as_u8 :: "chunk_kind \<Rightarrow> byte" where
  "as_u8 Full = CHUNK_FULL"
| "as_u8 Delta = CHUNK_DELTA"
| "as_u8 Zero = CHUNK_ZERO"

definition from_u8 :: "byte \<Rightarrow> chunk_kind res" where
  "from_u8 v =
     (if v = CHUNK_FULL then Inr Full
      else if v = CHUNK_DELTA then Inr Delta
      else if v = CHUNK_ZERO then Inr Zero
      else Inl (IoErr InvalidData))"

lemma from_u8_as_u8 [simp]: "from_u8 (as_u8 k) = Inr k"
  by (cases k) (simp_all add: from_u8_def CHUNK_FULL_def CHUNK_DELTA_def CHUNK_ZERO_def)

lemma from_u8_Inr_iff: "from_u8 v = Inr k \<longleftrightarrow> v = as_u8 k"
  by (cases k) (auto simp: from_u8_def CHUNK_FULL_def CHUNK_DELTA_def CHUNK_ZERO_def)

text \<open>Kinds are ordered by their on-disk code, and form a finite type.\<close>

instantiation chunk_kind :: linorder
begin

definition less_eq_chunk_kind :: "chunk_kind \<Rightarrow> chunk_kind \<Rightarrow> bool" where
  "less_eq_chunk_kind a b \<longleftrightarrow> as_u8 a \<le> as_u8 b"

definition less_chunk_kind :: "chunk_kind \<Rightarrow> chunk_kind \<Rightarrow> bool" where
  "less_chunk_kind a b \<longleftrightarrow> as_u8 a < as_u8 b"

instance
proof
  fix a b :: chunk_kind
  show "a \<le> b \<Longrightarrow> b \<le> a \<Longrightarrow> a = b"
    by (metis antisym from_u8_as_u8 less_eq_chunk_kind_def sum.inject(2))
qed (auto simp: less_eq_chunk_kind_def less_chunk_kind_def)

end

record chunk_record =
  r_key :: u64
  r_kind :: chunk_kind
  r_worker_id :: byte
  r_offset :: u64
  r_len :: u32
  r_base_key :: u64

definition new_full :: "u64 \<Rightarrow> byte \<Rightarrow> u64 \<Rightarrow> u32 \<Rightarrow> chunk_record" where
  "new_full k wid off n =
     \<lparr>r_key = k, r_kind = Full, r_worker_id = wid, r_offset = off, r_len = n, r_base_key = 0\<rparr>"

definition new_delta :: "u64 \<Rightarrow> byte \<Rightarrow> u64 \<Rightarrow> u32 \<Rightarrow> u64 \<Rightarrow> chunk_record" where
  "new_delta k wid off n base =
     \<lparr>r_key = k, r_kind = Delta, r_worker_id = wid, r_offset = off, r_len = n, r_base_key = base\<rparr>"

definition new_zero :: "u64 \<Rightarrow> chunk_record" where
  "new_zero k =
     \<lparr>r_key = k, r_kind = Zero, r_worker_id = 0, r_offset = 0, r_len = 0, r_base_key = 0\<rparr>"

lemmas new_record_defs = new_full_def new_delta_def new_zero_def

definition encoded_len :: "chunk_record \<Rightarrow> nat" where
  "encoded_len r =
     (if r_kind r = Delta then LOG_RECORD_BASE_SIZE + 8 else LOG_RECORD_BASE_SIZE)"

section \<open>The two record encodings\<close>

text \<open>
  \<open>ChunkRecord::write_to\<close> fills a 30-byte buffer and writes its first 30 (delta) or 22 bytes.
\<close>

definition write_to :: "chunk_record \<Rightarrow> bytes" where
  "write_to r =
     (let buf = replicate 30 0;
          buf = copy_at 0 (to_le 8 (r_key r)) buf;
          buf = buf[8 := as_u8 (r_kind r)];
          buf = buf[9 := r_worker_id r];
          buf = copy_at 10 (to_le 8 (r_offset r)) buf;
          buf = copy_at 18 (to_le 4 (r_len r)) buf
      in if r_kind r = Delta
         then take 30 (copy_at 22 (to_le 8 (r_base_key r)) buf)
         else take 22 buf)"

text \<open>
  \<open>ChunkRecord::read_from\<close>: a short read of the 22-byte head is the end of the log
  (\<open>Ok(None)\<close>), a short read of a delta's base key is an error. The rest of the stream is
  returned with the record.
\<close>

definition read_from :: "bytes \<Rightarrow> (chunk_record \<times> bytes) option res" where
  "read_from s =
     (case read_exact LOG_RECORD_BASE_SIZE s of
        None \<Rightarrow> Inr None
      | Some (head, s1) \<Rightarrow>
          let key = from_le (rslice 0 8 head) in
          rbind (from_u8 (head ! 8)) (\<lambda>kind.
          let worker_id = head ! 9;
              offset = from_le (rslice 10 18 head);
              len = from_le (rslice 18 22 head)
          in if kind = Delta
             then (case read_exact 8 s1 of
                     None \<Rightarrow> Inl (IoErr UnexpectedEof)
                   | Some (extra, s2) \<Rightarrow>
                       Inr (Some (\<lparr>r_key = key, r_kind = kind, r_worker_id = worker_id,
                         r_offset = offset, r_len = len, r_base_key = from_le extra\<rparr>, s2)))
             else Inr (Some (\<lparr>r_key = key, r_kind = kind, r_worker_id = worker_id,
                         r_offset = offset, r_len = len, r_base_key = 0\<rparr>, s1))))"

definition encode_fixed :: "chunk_record \<Rightarrow> bytes" where
  "encode_fixed r =
     (let buf = replicate FIXED_RECORD_SIZE 0;
          buf = copy_at 0 (to_le 8 (r_key r)) buf;
          buf = copy_at 8 (to_le 8 (r_base_key r)) buf;
          buf = copy_at 16 (to_le 8 (r_offset r)) buf;
          buf = copy_at 24 (to_le 4 (r_len r)) buf;
          buf = buf[28 := as_u8 (r_kind r)]
      in buf[29 := r_worker_id r])"

definition decode_fixed :: "bytes \<Rightarrow> chunk_record res" where
  "decode_fixed buf =
     (let key = from_le (rslice 0 8 buf);
          base_key = from_le (rslice 8 16 buf);
          offset = from_le (rslice 16 24 buf);
          len = from_le (rslice 24 28 buf)
      in rbind (from_u8 (buf ! 28)) (\<lambda>kind.
           Inr \<lparr>r_key = key, r_kind = kind, r_worker_id = buf ! 29,
                r_offset = offset, r_len = len, r_base_key = base_key\<rparr>))"

lemma write_to_eq [codec]:
  "write_to r = to_le 8 (r_key r) @ [as_u8 (r_kind r), r_worker_id r] @ to_le 8 (r_offset r) @
     to_le 4 (r_len r) @ (if r_kind r = Delta then to_le 8 (r_base_key r) else [])"
  by (simp add: write_to_def copy_at_def Let_def list_update_append)
    (simp add: numeral_eq_Suc)

lemma encode_fixed_eq [codec]:
  "encode_fixed r = to_le 8 (r_key r) @ to_le 8 (r_base_key r) @ to_le 8 (r_offset r) @
     to_le 4 (r_len r) @ [as_u8 (r_kind r), r_worker_id r, 0, 0]"
  by (simp add: encode_fixed_def copy_at_def Let_def list_update_append FIXED_RECORD_SIZE_def)
    (simp add: numeral_eq_Suc)

lemma length_write_to [simp]: "length (write_to r) = encoded_len r"
  by (simp add: codec encoded_len_def LOG_RECORD_BASE_SIZE_def)

lemma length_encode_fixed [simp]: "length (encode_fixed r) = FIXED_RECORD_SIZE"
  by (simp add: codec FIXED_RECORD_SIZE_def)

lemma decode_encode_fixed [simp]: "decode_fixed (encode_fixed r) = Inr r"
  by (simp add: decode_fixed_def codec rslice_def from_le_to_le nth_append)

text \<open>The records the log format can carry: only a delta has a base key.\<close>

definition log_record_ok :: "chunk_record \<Rightarrow> bool" where
  "log_record_ok r \<longleftrightarrow> (r_kind r \<noteq> Delta \<longrightarrow> r_base_key r = 0)"

lemma read_from_write_to:
  "log_record_ok r \<Longrightarrow> read_from (write_to r @ rest) = Inr (Some (r, rest))"
  by (auto simp: read_from_def codec rslice_def from_le_to_le nth_append read_exact_def
      LOG_RECORD_BASE_SIZE_def log_record_ok_def Let_def)

lemma read_from_consumes:
  "read_from s = Inr (Some (r, rest)) \<Longrightarrow> length rest < length s"
  by (auto simp: read_from_def read_exact_def Let_def LOG_RECORD_BASE_SIZE_def rbind_eq_Inr_iff
      split: if_splits)

lemma read_from_ok: "read_from s = Inr (Some (r, rest)) \<Longrightarrow> log_record_ok r"
  by (auto simp: read_from_def read_exact_def Let_def rbind_eq_Inr_iff log_record_ok_def
      split: if_splits)

lemma read_from_eof: "length s < LOG_RECORD_BASE_SIZE \<Longrightarrow> read_from s = Inr None"
  by (simp add: read_from_def)

lemma read_from_None_iff: "read_from s = Inr None \<longleftrightarrow> length s < LOG_RECORD_BASE_SIZE"
  by (auto simp: read_from_def read_exact_def Let_def rbind_eq_Inr_iff split: if_splits)

text \<open>Conversely a record that was read is exactly the bytes that were consumed.\<close>

lemma split_log_head:
  assumes "length head = 22"
  shows "head = rslice 0 8 head @ [head ! 8, head ! 9] @ rslice 10 18 head @ rslice 18 22 head"
proof -
  have "[head ! 8, head ! 9] = rslice 8 9 head @ rslice 9 10 head"
    using assms rslice_nth [of 8 head] rslice_nth [of 9 head] by simp
  then show ?thesis
    using assms by (simp add: rslice_concat rslice_full del: append_assoc append_Cons)
qed

lemma read_exact_Some_iff:
  "read_exact n s = Some (xs, ys) \<longleftrightarrow> n \<le> length s \<and> xs = take n s \<and> ys = drop n s"
  by (auto simp: read_exact_def)

lemma read_from_tail:
  assumes "read_from s = Inr (Some (r, rest))"
  shows "22 \<le> length s"
    and "drop 22 s = (if r_kind r = Delta then to_le 8 (r_base_key r) else []) @ rest"
proof -
  from assms show le: "22 \<le> length s"
    by (auto simp: read_from_def read_exact_def LOG_RECORD_BASE_SIZE_def split: if_splits)
  from assms le obtain kind where kind: "from_u8 (take 22 s ! 8) = Inr kind"
    by (auto simp: read_from_def read_exact_def LOG_RECORD_BASE_SIZE_def Let_def rbind_eq_Inr_iff)
  show "drop 22 s = (if r_kind r = Delta then to_le 8 (r_base_key r) else []) @ rest"
  proof (cases "kind = Delta")
    case False
    with assms le kind show ?thesis
      by (auto simp: read_from_def read_exact_def LOG_RECORD_BASE_SIZE_def Let_def)
  next
    case True
    with assms le kind obtain extra where "read_exact 8 (drop 22 s) = Some (extra, rest)"
      and "r_kind r = Delta" "r_base_key r = from_le extra"
      by (auto simp: read_from_def read_exact_Some_iff LOG_RECORD_BASE_SIZE_def Let_def read_exact_def [of 22]
          split: option.splits)
    moreover from this have "drop 22 s = extra @ rest" and "length extra = 8"
      by (auto simp: read_exact_Some_iff simp del: drop_drop)
    ultimately show ?thesis by (simp add: to_le_from_le)
  qed
qed

lemma read_from_head:
  assumes "read_from s = Inr (Some (r, rest))"
  shows "take 22 s = to_le 8 (r_key r) @ [as_u8 (r_kind r), r_worker_id r] @
    to_le 8 (r_offset r) @ to_le 4 (r_len r)"
proof -
  have le: "length (take 22 s) = 22" using read_from_tail(1) [OF assms] by simp
  have "r_key r = from_le (rslice 0 8 (take 22 s)) \<and> from_u8 (take 22 s ! 8) = Inr (r_kind r) \<and>
    r_worker_id r = take 22 s ! 9 \<and> r_offset r = from_le (rslice 10 18 (take 22 s)) \<and>
    r_len r = from_le (rslice 18 22 (take 22 s))"
    using assms
    by (auto simp: read_from_def read_exact_def LOG_RECORD_BASE_SIZE_def Let_def rbind_eq_Inr_iff
        split: if_splits)
  with le show ?thesis
    by (subst split_log_head) (simp_all add: from_u8_Inr_iff to_le_from_le)
qed

lemma read_from_exact:
  assumes "read_from s = Inr (Some (r, rest))"
  shows "s = write_to r @ rest"
proof -
  have "s = take 22 s @ drop 22 s" by simp
  also have "drop 22 s = (if r_kind r = Delta then to_le 8 (r_base_key r) else []) @ rest"
    by (rule read_from_tail(2) [OF assms])
  finally show ?thesis
    unfolding read_from_head [OF assms] by (simp add: codec)
qed

section \<open>Reading a file of records\<close>

text \<open>
  The loops \<open>while let Some(rec) = ChunkRecord::read_from(&mut r)? { records.push(rec); }\<close>
  (lazy index, scan, conversion, purge, check) and
  \<open>loop { match r.read_exact(&mut buf) { Ok => push(decode_fixed(&buf)?), Eof => break } }\<close>.
\<close>

function read_records :: "bytes \<Rightarrow> chunk_record list res" where
  "read_records s =
     (case read_from s of
        Inl e \<Rightarrow> Inl e
      | Inr None \<Rightarrow> Inr []
      | Inr (Some (r, rest)) \<Rightarrow> rbind (read_records rest) (\<lambda>rs. Inr (r # rs)))"
  by pat_completeness auto
termination
  by (relation "measure length") (auto dest: read_from_consumes)

definition read_fixed :: "bytes \<Rightarrow> (chunk_record \<times> bytes) option res" where
  "read_fixed s =
     (case read_exact FIXED_RECORD_SIZE s of
        None \<Rightarrow> Inr None
      | Some (buf, rest) \<Rightarrow> rbind (decode_fixed buf) (\<lambda>r. Inr (Some (r, rest))))"

lemma read_fixed_consumes:
  "read_fixed s = Inr (Some (r, rest)) \<Longrightarrow> length rest < length s"
  by (auto simp: read_fixed_def read_exact_def FIXED_RECORD_SIZE_def rbind_eq_Inr_iff split: if_splits)

function read_fixed_records :: "bytes \<Rightarrow> chunk_record list res" where
  "read_fixed_records s =
     (case read_fixed s of
        Inl e \<Rightarrow> Inl e
      | Inr None \<Rightarrow> Inr []
      | Inr (Some (r, rest)) \<Rightarrow> rbind (read_fixed_records rest) (\<lambda>rs. Inr (r # rs)))"
  by pat_completeness auto
termination
  by (relation "measure length") (auto dest: read_fixed_consumes)

declare read_records.simps [simp del] read_fixed_records.simps [simp del]

text \<open>
  The interface both encodings share: a decoder inverse to an encoder on the records it can
  carry, and a loop that decodes until the end of the stream.
\<close>

locale record_stream =
  fixes enc :: "'r \<Rightarrow> bytes"
    and dec :: "bytes \<Rightarrow> ('r \<times> bytes) option res"
    and loop :: "bytes \<Rightarrow> 'r list res"
    and ok :: "'r \<Rightarrow> bool"
  assumes dec_enc: "ok r \<Longrightarrow> dec (enc r @ rest) = Inr (Some (r, rest))"
    and dec_nil: "dec [] = Inr None"
    and loop_unfold: "loop s = (case dec s of
        Inl e \<Rightarrow> Inl e
      | Inr None \<Rightarrow> Inr []
      | Inr (Some (r, rest)) \<Rightarrow> rbind (loop rest) (\<lambda>rs. Inr (r # rs)))"
begin

lemma loop_encoded_tail:
  assumes "\<forall>r \<in> set rs. ok r" and "dec tail = Inr None"
  shows "loop (concat (map enc rs) @ tail) = Inr rs"
  using assms
proof (induction rs)
  case Nil
  then show ?case by (simp add: loop_unfold [of tail])
next
  case (Cons r rs)
  then show ?case by (subst loop_unfold) (simp add: dec_enc)
qed

lemma loop_encoded: "\<forall>r \<in> set rs. ok r \<Longrightarrow> loop (concat (map enc rs)) = Inr rs"
  using loop_encoded_tail [of rs "[]"] by (simp add: dec_nil)

end

definition encode_log :: "chunk_record list \<Rightarrow> bytes" where
  "encode_log rs = concat (map write_to rs)"

definition encode_index :: "chunk_record list \<Rightarrow> bytes" where
  "encode_index rs = concat (map encode_fixed rs)"

interpretation log_stream: record_stream write_to read_from read_records log_record_ok
proof unfold_locales
  show "log_record_ok r \<Longrightarrow> read_from (write_to r @ rest) = Inr (Some (r, rest))" for r rest
    by (rule read_from_write_to)
  show "read_from [] = Inr None"
    by (simp add: read_from_eof LOG_RECORD_BASE_SIZE_def)
qed (rule read_records.simps)

interpretation index_stream: record_stream encode_fixed read_fixed read_fixed_records "\<lambda>_. True"
proof unfold_locales
  show "read_fixed (encode_fixed r @ rest) = Inr (Some (r, rest))" for r rest
    by (simp add: read_fixed_def)
  show "read_fixed [] = Inr None"
    by (simp add: read_fixed_def FIXED_RECORD_SIZE_def)
qed (rule read_fixed_records.simps)

lemma read_records_encode_log:
  "\<forall>r \<in> set rs. log_record_ok r \<Longrightarrow> read_records (encode_log rs) = Inr rs"
  unfolding encode_log_def by (rule log_stream.loop_encoded)

lemma read_fixed_records_encode_index: "read_fixed_records (encode_index rs) = Inr rs"
  unfolding encode_index_def by (rule index_stream.loop_encoded) simp

lemma length_encode_index [simp]: "length (encode_index rs) = FIXED_RECORD_SIZE * length rs"
  by (induction rs) (simp_all add: encode_index_def)

lemma encode_log_append [simp]: "encode_log (xs @ ys) = encode_log xs @ encode_log ys"
  by (simp add: encode_log_def)

lemma encode_log_Nil [simp]: "encode_log [] = []"
  by (simp add: encode_log_def)

lemma read_records_cases:
  assumes "read_records s = Inr rs"
  obtains (eof) "read_from s = Inr None" "rs = []"
  | (rec) r rest rs' where "read_from s = Inr (Some (r, rest))" "read_records rest = Inr rs'" "rs = r # rs'"
  using assms
  by (subst (asm) read_records.simps)
    (auto split: sum.splits option.splits simp: rbind_eq_Inr_iff)

lemma read_records_ok:
  "read_records s = Inr rs \<Longrightarrow> \<forall>r \<in> set rs. log_record_ok r"
proof (induction s arbitrary: rs rule: read_records.induct)
  case (1 s)
  from "1.prems" show ?case
  proof (cases rule: read_records_cases)
    case (rec r rest rs')
    with "1.IH" [OF rec(1) refl refl rec(2)] read_from_ok [OF rec(1)] show ?thesis by simp
  qed simp
qed

text \<open>
  A log that can be read is the encoding of its records followed by fewer than 22 bytes of
  an incomplete record.
\<close>

lemma read_records_exact:
  "read_records s = Inr rs \<Longrightarrow> \<exists>tail. s = encode_log rs @ tail \<and> length tail < LOG_RECORD_BASE_SIZE"
proof (induction s arbitrary: rs rule: read_records.induct)
  case (1 s)
  from "1.prems" show ?case
  proof (cases rule: read_records_cases)
    case eof
    then show ?thesis by (simp add: read_from_None_iff)
  next
    case (rec r rest rs')
    from "1.IH" [OF rec(1) refl refl rec(2)] obtain tail
      where "rest = encode_log rs' @ tail" "length tail < LOG_RECORD_BASE_SIZE" by blast
    with rec read_from_exact [OF rec(1)] show ?thesis by (auto simp: encode_log_def)
  qed
qed

section \<open>Delta patches\<close>

definition encode_delta_patch :: "(u16 \<times> u64) list \<Rightarrow> bytes" where
  "encode_delta_patch patch = concat (map (\<lambda>(idx, val). to_le 2 idx @ to_le 8 val) patch)"

text \<open>
  \<open>apply_delta_xor\<close>: the loop over \<open>blob.chunks_exact(10)\<close>, which leaves out an incomplete
  last chunk. The page is returned only on success: after an error the caller of the Rust
  code does not use the buffer either.
\<close>

function apply_delta_xor :: "bytes \<Rightarrow> bytes \<Rightarrow> bytes res" where
  "apply_delta_xor blob out =
     (if length blob < 10 then Inr out
      else
        let chunk = take 10 blob;
            idx = unat (from_le (rslice 0 2 chunk) :: u16);
            xor = from_le (rslice 2 10 chunk) :: u64
        in if idx \<ge> PAGE_WORDS then Inl (IoErr InvalidData)
           else
             let cur = from_le (rslice (idx * 8) ((idx + 1) * 8) out) :: u64
             in apply_delta_xor (drop 10 blob) (copy_at (idx * 8) (to_le 8 (cur XOR xor)) out))"
  by pat_completeness auto
termination
  by (relation "measure (\<lambda>(blob, out). length blob)") auto

declare apply_delta_xor.simps [simp del]

definition apply_delta_patch_in_place :: "bytes \<Rightarrow> bytes \<Rightarrow> bytes res" where
  "apply_delta_patch_in_place blob out =
     (if length blob mod 10 \<noteq> 0 then Inl (IoErr InvalidData) else apply_delta_xor blob out)"

definition apply_delta_patch :: "bytes \<Rightarrow> bytes \<Rightarrow> bytes \<Rightarrow> bytes res" where
  "apply_delta_patch base blob out =
     (if length blob mod 10 \<noteq> 0 then Inl (IoErr InvalidData)
      else apply_delta_xor blob (copy_at 0 base out))"

definition page_word :: "nat \<Rightarrow> bytes \<Rightarrow> u64" where
  "page_word i page = from_le (rslice (i * 8) ((i + 1) * 8) page)"

definition compute_xor_patch :: "bytes \<Rightarrow> bytes \<Rightarrow> (u16 \<times> u64) list" where
  "compute_xor_patch page base =
     concat (map (\<lambda>i.
       let x = page_word i page XOR page_word i base
       in if x \<noteq> 0 then [(of_nat i, x)] else []) [0..<PAGE_WORDS])"

definition is_all_zero :: "bytes \<Rightarrow> bool" where
  "is_all_zero page \<longleftrightarrow> list_all (\<lambda>b. b = 0) page"

lemma is_all_zero_iff: "is_all_zero page \<longleftrightarrow> page = replicate (length page) 0"
  by (induction page) (auto simp: is_all_zero_def)

lemma length_encode_delta_patch: "length (encode_delta_patch patch) = 10 * length patch"
  by (induction patch) (auto simp: encode_delta_patch_def)

lemma encode_delta_patch_mod [simp]: "length (encode_delta_patch patch) mod 10 = 0"
  by (simp add: length_encode_delta_patch)

lemma length_compute_xor_patch: "length (compute_xor_patch page base) \<le> PAGE_WORDS"
  using length_concat_map_le [of "\<lambda>i. let x = page_word i page XOR page_word i base
      in if x \<noteq> 0 then [(of_nat i :: u16, x)] else []" "[0..<PAGE_WORDS]"]
  by (simp add: compute_xor_patch_def Let_def)

lemma PAGE_WORDS_val: "PAGE_WORDS = 512"
  by (simp add: PAGE_WORDS_def PAGE_SIZE_def)

lemma PAGE_SIZE_words: "PAGE_SIZE = 8 * PAGE_WORDS"
  by (simp add: PAGE_WORDS_def PAGE_SIZE_def)

lemma apply_delta_xor_Nil [simp]: "apply_delta_xor [] out = Inr out"
  by (simp add: apply_delta_xor.simps)

lemma apply_delta_xor_entry:
  fixes idx :: u16 and val :: u64
  shows "apply_delta_xor (to_le 2 idx @ to_le 8 val @ rest) out =
     (if unat idx \<ge> PAGE_WORDS then Inl (IoErr InvalidData)
      else apply_delta_xor rest
        (copy_at (unat idx * 8) (to_le 8 (page_word (unat idx) out XOR val)) out))"
  by (subst apply_delta_xor.simps)
    (simp add: rslice_def page_word_def Let_def from_le_to_le)

text \<open>Applying a patch in the order of its entries.\<close>

lemma apply_delta_xor_Cons:
  "apply_delta_xor (encode_delta_patch ((idx, val) # patch)) out =
     (if unat idx \<ge> PAGE_WORDS then Inl (IoErr InvalidData)
      else apply_delta_xor (encode_delta_patch patch)
        (copy_at (unat idx * 8) (to_le 8 (page_word (unat idx) out XOR val)) out))"
  by (simp add: encode_delta_patch_def apply_delta_xor_entry)

lemma apply_delta_xor_append:
  "apply_delta_xor (encode_delta_patch (p @ q)) out =
     rbind (apply_delta_xor (encode_delta_patch p) out) (apply_delta_xor (encode_delta_patch q))"
proof (induction p arbitrary: out)
  case Nil
  then show ?case by (simp add: encode_delta_patch_def)
next
  case (Cons a p)
  then show ?case by (cases a) (simp add: apply_delta_xor_Cons)
qed

text \<open>
  The state of the loop after the words below \<open>n\<close>: the page up to word \<open>n\<close>, the base
  from there on.
\<close>

definition patched_upto :: "nat \<Rightarrow> bytes \<Rightarrow> bytes \<Rightarrow> bytes" where
  "patched_upto n page base = take (n * 8) page @ drop (n * 8) base"

lemma page_word_patched:
  assumes "length base = length page" "(n + 1) * 8 \<le> length page"
  shows "page_word n (patched_upto n page base) = page_word n base"
  using assms by (simp add: page_word_def patched_upto_def rslice_append_right min_def)
    (simp add: rslice_def add.commute)

lemma to_le_page_word:
  "(n + 1) * 8 \<le> length page \<Longrightarrow> to_le 8 (page_word n page) = rslice (n * 8) ((n + 1) * 8) page"
  by (simp add: page_word_def to_le_from_le)

lemma patched_upto_Suc:
  assumes "length base = length page" "(n + 1) * 8 \<le> length page"
  shows "copy_at (n * 8) (to_le 8 (page_word n page)) (patched_upto n page base) = patched_upto (Suc n) page base"
proof -
  have "take (n * 8) page @ rslice (n * 8) ((n + 1) * 8) page = take ((n + 1) * 8) page"
    by (rule take_rslice_append) simp
  then show ?thesis
    using assms by (simp add: to_le_page_word copy_at_def patched_upto_def add.commute)
qed

lemma patched_upto_same_word:
  assumes "length base = length page" "(n + 1) * 8 \<le> length page" "page_word n page = page_word n base"
  shows "patched_upto (Suc n) page base = patched_upto n page base"
proof -
  have eq: "rslice (n * 8) ((n + 1) * 8) page = rslice (n * 8) ((n + 1) * 8) base"
    using assms to_le_page_word [of n page] to_le_page_word [of n base] by simp
  have "patched_upto (Suc n) page base =
      take (n * 8) page @ rslice (n * 8) ((n + 1) * 8) page @ drop ((n + 1) * 8) base"
    by (simp add: patched_upto_def take_rslice_append add.commute flip: append_assoc)
  also have "\<dots> = patched_upto n page base"
    unfolding eq patched_upto_def by (simp add: rslice_drop_append)
  finally show ?thesis .
qed

lemma apply_compute_upto:
  assumes "length base = length page" "n * 8 \<le> length page" "n \<le> PAGE_WORDS"
  shows "apply_delta_xor (encode_delta_patch (concat (map (\<lambda>i.
       let x = page_word i page XOR page_word i base
       in if x \<noteq> 0 then [(of_nat i, x)] else []) [0..<n]))) base = Inr (patched_upto n page base)"
  using assms
proof (induction n)
  case 0
  then show ?case by (simp add: encode_delta_patch_def patched_upto_def)
next
  case (Suc n)
  let ?x = "page_word n page XOR page_word n base"
  have n16: "unat (of_nat n :: u16) = n"
    using Suc.prems by (simp add: unat_of_nat PAGE_WORDS_val take_bit_nat_eq_self_iff)
  have IH: "apply_delta_xor (encode_delta_patch (concat (map (\<lambda>i.
       let x = page_word i page XOR page_word i base
       in if x \<noteq> 0 then [(of_nat i, x)] else []) [0..<n]))) base = Inr (patched_upto n page base)"
    by (rule Suc.IH) (use Suc.prems in auto)
  have step: "apply_delta_xor (encode_delta_patch (if ?x \<noteq> 0 then [(of_nat n, ?x)] else []))
      (patched_upto n page base) = Inr (patched_upto (Suc n) page base)"
  proof (cases "?x = 0")
    case True
    then have "page_word n page = page_word n base"
      by (simp add: word_xor_eq_0_iff)
    with Suc.prems True show ?thesis
      by (simp add: encode_delta_patch_def patched_upto_same_word)
  next
    case False
    have "page_word n base XOR ?x = page_word n page"
      by (metis xor.left_commute xor_self_eq xor.right_neutral)
    moreover have "encode_delta_patch [] = []" by (simp add: encode_delta_patch_def)
    ultimately show ?thesis
      using Suc.prems False
      by (simp add: apply_delta_xor_Cons n16 page_word_patched patched_upto_Suc)
  qed
  then show ?case
    using IH by (simp add: apply_delta_xor_append Let_def)
qed

theorem apply_compute_patch:
  assumes "length page = PAGE_SIZE" "length base = PAGE_SIZE"
  shows "apply_delta_patch_in_place (encode_delta_patch (compute_xor_patch page base)) base = Inr page"
proof -
  have "apply_delta_xor (encode_delta_patch (compute_xor_patch page base)) base =
      Inr (patched_upto PAGE_WORDS page base)"
    unfolding compute_xor_patch_def by (rule apply_compute_upto) (simp_all add: assms PAGE_SIZE_words)
  moreover have "patched_upto PAGE_WORDS page base = page"
    using assms by (simp add: patched_upto_def PAGE_SIZE_words mult.commute)
  ultimately show ?thesis by (simp add: apply_delta_patch_in_place_def)
qed

section \<open>Properties\<close>

text \<open>C19: the log is its records: decoding an encoded log, followed by any torn tail shorter
  than a record head, gives back the records; and a log that decodes is byte for byte the
  encoding of what was read and such a tail.\<close>

theorem log_codec_roundtrip:
  "(read_records s = Inr rs) =
     ((\<forall>r \<in> set rs. log_record_ok r) \<and> (\<exists>tail. s = encode_log rs @ tail \<and> length tail < LOG_RECORD_BASE_SIZE))"
proof
  assume "read_records s = Inr rs"
  then show "(\<forall>r \<in> set rs. log_record_ok r) \<and> (\<exists>tail. s = encode_log rs @ tail \<and> length tail < LOG_RECORD_BASE_SIZE)"
    using read_records_ok read_records_exact by blast
next
  assume "(\<forall>r \<in> set rs. log_record_ok r) \<and> (\<exists>tail. s = encode_log rs @ tail \<and> length tail < LOG_RECORD_BASE_SIZE)"
  then show "read_records s = Inr rs"
    using log_stream.loop_encoded_tail read_from_eof by (auto simp: encode_log_def)
qed

theorem log_codec_roundtrip_witness:
  "read_records (write_to (new_delta 7 1 2 3 4) @ write_to (new_zero 9) @ [1, 2, 3]) =
     Inr [new_delta 7 1 2 3 4, new_zero 9]"
  by (subst log_codec_roundtrip)
    (auto simp: encode_log_def log_record_ok_def new_record_defs LOG_RECORD_BASE_SIZE_def)

text \<open>C20: a page is restored from its delta: applying the encoded XOR patch between any page
  and any base to the base gives the page, and the patch is at most 5120 bytes of 10-byte
  entries.\<close>

theorem delta_patch_restores:
  assumes "length page = PAGE_SIZE" "length base = PAGE_SIZE" "length out = PAGE_SIZE"
  shows "apply_delta_patch base (encode_delta_patch (compute_xor_patch page base)) out = Inr page \<and>
    apply_delta_patch_in_place (encode_delta_patch (compute_xor_patch page base)) base = Inr page \<and>
    length (encode_delta_patch (compute_xor_patch page base)) \<le> 10 * PAGE_WORDS"
proof -
  have "copy_at 0 base out = base" using assms by (simp add: copy_at_def)
  then show ?thesis
    using apply_compute_patch [OF assms(1,2)] length_compute_xor_patch [of page base]
    by (simp add: apply_delta_patch_def apply_delta_patch_in_place_def length_encode_delta_patch)
qed

theorem delta_patch_restores_witness:
  "apply_delta_patch (replicate PAGE_SIZE 7) (encode_delta_patch (compute_xor_patch (replicate PAGE_SIZE 9) (replicate PAGE_SIZE 7)))
     (replicate PAGE_SIZE 0) = Inr (replicate PAGE_SIZE 9)"
proof -
  have len: "length (replicate PAGE_SIZE b) = PAGE_SIZE" for b :: byte by simp
  show ?thesis by (rule conjunct1 [OF delta_patch_restores [OF len len len]])
qed

text \<open>Combined keys order first by page, then by snapshot, and determine both, as long as
  the page number has at most 45 and the snapshot at most 19 bits; a key is never more than
  its two parts.\<close>

theorem key_order:
  assumes "unat pa < 2 ^ 45" "unat pa' < 2 ^ 45" "s \<le> MAX_SNAPSHOT_ID" "s' \<le> MAX_SNAPSHOT_ID"
  shows "(encode_key pa s \<le> encode_key pa' s') = (pa < pa' \<or> pa = pa' \<and> s \<le> s') \<and>
    (encode_key pa s = encode_key pa' s') = (pa = pa' \<and> s = s') \<and>
    pa_of (encode_key pa s) = pa \<and> snapshot_of (encode_key pa s) = s \<and>
    encode_key (pa_of k) (snapshot_of k) = k"
  using assms by (simp add: key_le_iff [of "encode_key pa s"] key_eq_iff [of "encode_key pa s"] pa_of_encode_key_small)

theorem key_order_witness:
  "encode_key 3 524287 \<le> encode_key 4 0 \<and> encode_key 3 524287 \<noteq> encode_key 4 0"
proof -
  have "unat (3 :: u64) < 2 ^ 45" "unat (4 :: u64) < 2 ^ 45" "524287 \<le> MAX_SNAPSHOT_ID" "0 \<le> MAX_SNAPSHOT_ID"
    by (simp_all add: snapshot_le_max_unat)
  from key_order [OF this] show ?thesis by simp
qed

end
