(* ===== verification/Format.thy ===== *)
theory Format
  imports Chunk
begin

text \<open>
  The 16-byte file header shared by \<open>chunks.log\<close> and \<open>index.bxdb\<close>
  (\<open>bxdb-core/src/format.rs\<close>), and whole files as byte strings: a header followed by the
  encoded records.
\<close>

definition write_header :: "bytes \<Rightarrow> u32 \<Rightarrow> bytes" where
  "write_header magic max_snapshot_id =
     (let buf = replicate HEADER_SIZE 0;
          buf = copy_at 0 magic buf;
          buf = buf[8 := FORMAT_VERSION]
      in copy_at 9 (to_le 4 max_snapshot_id) buf)"

definition write_log_header :: "u32 \<Rightarrow> bytes" where
  "write_log_header max_snapshot_id = write_header MAGIC_LOG max_snapshot_id"

definition write_index_header :: "u32 \<Rightarrow> bytes" where
  "write_index_header max_snapshot_id = write_header MAGIC_IDX max_snapshot_id"

text \<open>
  \<open>read_and_verify_header\<close> returns the stored maximum snapshot; the rest of the stream is
  returned with it.
\<close>

definition read_and_verify_header :: "bytes \<Rightarrow> bytes \<Rightarrow> (u32 \<times> bytes) res" where
  "read_and_verify_header s expected_magic =
     (case read_exact HEADER_SIZE s of
        None \<Rightarrow> Inl (IoErr UnexpectedEof)
      | Some (buf, rest) \<Rightarrow>
          if rslice 0 8 buf \<noteq> expected_magic then Inl (IoErr InvalidData)
          else if buf ! 8 \<noteq> FORMAT_VERSION then Inl (IoErr InvalidData)
          else Inr (from_le (rslice 9 13 buf), rest))"

text \<open>\<open>peek_magic\<close> reads 8 bytes and seeks back, so the stream is unchanged.\<close>

definition peek_magic :: "bytes \<Rightarrow> bytes res" where
  "peek_magic s = (case read_exact 8 s of None \<Rightarrow> Inl (IoErr UnexpectedEof) | Some (buf, _) \<Rightarrow> Inr buf)"

lemma length_magic [simp]: "length MAGIC_LOG = 8" "length MAGIC_IDX = 8"
  by (simp_all add: MAGIC_LOG_def MAGIC_IDX_def)

lemma magic_distinct [simp]: "MAGIC_LOG \<noteq> MAGIC_IDX" "MAGIC_IDX \<noteq> MAGIC_LOG"
  by (simp_all add: MAGIC_LOG_def MAGIC_IDX_def)

lemma write_header_eq [codec]:
  "length magic = 8 \<Longrightarrow>
     write_header magic m = magic @ [FORMAT_VERSION] @ to_le 4 m @ [0, 0, 0]"
  by (simp add: write_header_def copy_at_def Let_def list_update_append HEADER_SIZE_def)
    (simp add: numeral_eq_Suc)

lemma length_write_header [simp]: "length magic = 8 \<Longrightarrow> length (write_header magic m) = HEADER_SIZE"
  by (simp add: write_header_eq HEADER_SIZE_def)

lemma length_headers [simp]:
  "length (write_log_header m) = HEADER_SIZE" "length (write_index_header m) = HEADER_SIZE"
  by (simp_all add: write_log_header_def write_index_header_def)

lemma read_write_header:
  assumes "length magic = 8" "length magic' = 8"
  shows "read_and_verify_header (write_header magic m @ rest) magic' =
    (if magic = magic' then Inr (m, rest) else Inl (IoErr InvalidData))"
  using assms
  by (auto simp: read_and_verify_header_def write_header_eq read_exact_def HEADER_SIZE_def
      rslice_def nth_append from_le_to_le)

lemma verified_header:
  "read_and_verify_header s magic = Inr (m, rest) \<Longrightarrow>
     HEADER_SIZE \<le> length s \<and> rslice 0 8 (take HEADER_SIZE s) = magic \<and> rest = drop HEADER_SIZE s"
  by (auto simp: read_and_verify_header_def read_exact_def Let_def split: if_splits)

lemma read_log_header [simp]:
  "read_and_verify_header (write_log_header m @ rest) MAGIC_LOG = Inr (m, rest)"
  by (simp add: write_log_header_def read_write_header)

lemma read_index_header [simp]:
  "read_and_verify_header (write_index_header m @ rest) MAGIC_IDX = Inr (m, rest)"
  by (simp add: write_index_header_def read_write_header)

text \<open>The log and index files of a list of records.\<close>

definition log_file :: "u32 \<Rightarrow> chunk_record list \<Rightarrow> bytes" where
  "log_file m rs = write_log_header m @ encode_log rs"

definition index_file :: "u32 \<Rightarrow> chunk_record list \<Rightarrow> bytes" where
  "index_file m rs = write_index_header m @ encode_index rs"

text \<open>Reading a whole log: verify the header, then read the records.\<close>

definition read_log_records :: "bytes \<Rightarrow> chunk_record list res" where
  "read_log_records s = rbind (read_and_verify_header s MAGIC_LOG) (\<lambda>(_, rest). read_records rest)"

lemma read_log_file [simp]:
  "\<forall>r \<in> set rs. log_record_ok r \<Longrightarrow> read_log_records (log_file m rs) = Inr rs"
  by (simp add: read_log_records_def log_file_def read_records_encode_log)

text \<open>
  \<open>seek(Start(9)); write_all(snapshot_id.to_le_bytes())\<close>: the in-place update of the
  maximum snapshot in the header of a log.
\<close>

definition patch_max_snapshot :: "u32 \<Rightarrow> bytes \<Rightarrow> bytes" where
  "patch_max_snapshot snapshot_id file = copy_at 9 (to_le 4 snapshot_id) file"

lemma patch_max_snapshot_log_file:
  "patch_max_snapshot m (log_file m' rs) = log_file m rs"
  by (simp add: patch_max_snapshot_def log_file_def write_log_header_def write_header_eq copy_at_def)

section \<open>Properties\<close>

text \<open>Opening checks the header completely: a file is accepted exactly when it starts with
  the magic it should have and version 1, and the maximum snapshot written is the one read;
  a file shorter than a header is reported as truncated, anything else as invalid data.\<close>

theorem header_accepts_exactly:
  assumes "length magic = 8"
  shows "read_and_verify_header s magic =
    (if length s < HEADER_SIZE then Inl (IoErr UnexpectedEof)
     else if take 9 s = magic @ [FORMAT_VERSION] then Inr (from_le (rslice 9 13 s), drop HEADER_SIZE s)
     else Inl (IoErr InvalidData)) \<and>
    read_and_verify_header (write_header magic m @ rest) magic = Inr (m, rest)"
proof
  show "read_and_verify_header (write_header magic m @ rest) magic = Inr (m, rest)"
    using assms by (simp add: read_write_header)
  show "read_and_verify_header s magic =
    (if length s < HEADER_SIZE then Inl (IoErr UnexpectedEof)
     else if take 9 s = magic @ [FORMAT_VERSION] then Inr (from_le (rslice 9 13 s), drop HEADER_SIZE s)
     else Inl (IoErr InvalidData))"
  proof (cases "length s < HEADER_SIZE")
    case False
    then have len: "16 \<le> length s" by (simp add: HEADER_SIZE_def)
    have "take 9 s = take 8 s @ [s ! 8]"
      using len take_Suc_conv_app_nth [of 8 s] by simp
    moreover have "length (take 8 s) = length magic" using len assms by simp
    ultimately have "take 9 s = magic @ [FORMAT_VERSION] \<longleftrightarrow> take 8 s = magic \<and> s ! 8 = FORMAT_VERSION"
      by simp
    with len show ?thesis
      by (simp add: read_and_verify_header_def read_exact_def HEADER_SIZE_def rslice_def min_def)
        (simp add: drop_take)
  qed (simp add: read_and_verify_header_def)
qed

theorem header_accepts_exactly_witness:
  "read_and_verify_header (write_log_header 77 @ [5]) MAGIC_LOG = Inr (77, [5])"
  using header_accepts_exactly [of MAGIC_LOG "[]" 77 "[5]"] by (simp add: write_log_header_def)

end
