(* ===== verification/Index.thy ===== *)
theory Index
  imports Format
begin

text \<open>
  The two indexes of \<open>bxdb-core/src/btree.rs\<close>: the sorted fixed-size records of
  \<open>index.bxdb\<close>, searched in the mapped file (\<open>floor_mmap\<close>, \<open>exact_mmap\<close>), and the
  lazily built in-memory index of \<open>chunks.log\<close> (\<open>floor_sorted\<close>, \<open>exact_sorted\<close>).
  Both implement the interface \<open>key_index\<close>.
\<close>

section \<open>Binary search in the mapped index\<close>

text \<open>Slicing out of range panics; the record decoder can reject the kind byte.\<close>

definition read_key_at :: "bytes \<Rightarrow> nat \<Rightarrow> u64 res" where
  "read_key_at body idx =
     (let off = idx * FIXED_RECORD_SIZE
      in rbind (ok_or (get_range body off (off + 8)) Panic) (\<lambda>b. Inr (from_le b)))"

definition read_record_at :: "bytes \<Rightarrow> nat \<Rightarrow> chunk_record res" where
  "read_record_at body idx =
     (let off = idx * FIXED_RECORD_SIZE
      in rbind (ok_or (get_range body off (off + FIXED_RECORD_SIZE)) Panic) decode_fixed)"

text \<open>The loop of \<open>floor_mmap\<close>: the smallest index whose key is above \<open>key\<close>.\<close>

function floor_loop :: "bytes \<Rightarrow> u64 \<Rightarrow> nat \<Rightarrow> nat \<Rightarrow> nat res" where
  "floor_loop body key lo hi =
     (if lo < hi then
        let mid = lo + (hi - lo) div 2
        in rbind (read_key_at body mid) (\<lambda>k.
             if k \<le> key then floor_loop body key (mid + 1) hi else floor_loop body key lo mid)
      else Inr lo)"
  by pat_completeness auto
termination
  by (relation "measure (\<lambda>(body, key, lo, hi). hi - lo)") auto

declare floor_loop.simps [simp del]

text \<open>\<open>.ok()?\<close>: a decoding error becomes \<open>None\<close>, a panic stays a panic.\<close>

definition res_ok :: "'a res \<Rightarrow> 'a option res" where
  "res_ok m = (case m of Inl Panic \<Rightarrow> Inl Panic | Inl (IoErr _) \<Rightarrow> Inr None | Inr x \<Rightarrow> Inr (Some x))"

definition index_body :: "bytes \<Rightarrow> bytes res" where
  "index_body file = (if HEADER_SIZE \<le> length file then Inr (drop HEADER_SIZE file) else Inl Panic)"

definition floor_mmap :: "bytes \<Rightarrow> nat \<Rightarrow> u64 \<Rightarrow> u64 \<Rightarrow> chunk_record option res" where
  "floor_mmap file n key pa =
     rbind (index_body file) (\<lambda>body.
     rbind (floor_loop body key 0 n) (\<lambda>lo.
       if lo = 0 then Inr None
       else rbind (res_ok (read_record_at body (lo - 1))) (\<lambda>r.
         case r of
           None \<Rightarrow> Inr None
         | Some rec \<Rightarrow> Inr (if pa_of (r_key rec) = pa then Some rec else None))))"

function exact_loop :: "bytes \<Rightarrow> u64 \<Rightarrow> nat \<Rightarrow> nat \<Rightarrow> chunk_record option res" where
  "exact_loop body key lo hi =
     (if lo < hi then
        let mid = lo + (hi - lo) div 2
        in rbind (read_key_at body mid) (\<lambda>k.
             if k = key then res_ok (read_record_at body mid)
             else if k < key then exact_loop body key (mid + 1) hi
             else exact_loop body key lo mid)
      else Inr None)"
  by pat_completeness auto
termination
  by (relation "measure (\<lambda>(body, key, lo, hi). hi - lo)") auto

declare exact_loop.simps [simp del]

definition exact_mmap :: "bytes \<Rightarrow> nat \<Rightarrow> u64 \<Rightarrow> chunk_record option res" where
  "exact_mmap file n key = rbind (index_body file) (\<lambda>body. exact_loop body key 0 n)"

section \<open>The lazy index of a log\<close>

record lazy_index =
  li_keys :: "u64 list"
  li_records :: "chunk_record list"

definition build_lazy_index :: "bytes \<Rightarrow> lazy_index res" where
  "build_lazy_index log =
     rbind (read_log_records log) (\<lambda>records.
       let records = dedup_by_key r_key (sort_key r_key records)
       in Inr \<lparr>li_keys = map r_key records, li_records = records\<rparr>)"

text \<open>
  \<open>[T]::partition_point\<close> and \<open>[T]::binary_search\<close> of the standard library, by their
  documented results on a sorted slice without duplicates: the number of leading elements
  that satisfy the predicate, and the position of the key if it occurs.
\<close>

definition partition_point :: "('a \<Rightarrow> bool) \<Rightarrow> 'a list \<Rightarrow> nat" where
  "partition_point p xs = length (takeWhile p xs)"

definition binary_search :: "u64 list \<Rightarrow> u64 \<Rightarrow> nat option" where
  "binary_search xs k =
     (let i = partition_point (\<lambda>x. x < k) xs
      in if i < length xs \<and> xs ! i = k then Some i else None)"

definition partition_point_le :: "u64 list \<Rightarrow> u64 \<Rightarrow> nat" where
  "partition_point_le keys key = partition_point (\<lambda>k. k \<le> key) keys"

definition floor_sorted :: "u64 list \<Rightarrow> chunk_record list \<Rightarrow> u64 \<Rightarrow> u64 \<Rightarrow> chunk_record option" where
  "floor_sorted keys records key pa =
     (let idx = partition_point_le keys key
      in if idx = 0 then None
         else let rec = records ! (idx - 1)
              in if pa_of (r_key rec) = pa then Some rec else None)"

definition exact_sorted :: "u64 list \<Rightarrow> chunk_record list \<Rightarrow> u64 \<Rightarrow> chunk_record option" where
  "exact_sorted keys records key =
     (case binary_search keys key of Some i \<Rightarrow> Some (records ! i) | None \<Rightarrow> None)"

section \<open>Correctness of the binary searches\<close>

lemma drop_encode_index:
  "i < length rs \<Longrightarrow>
     drop (i * FIXED_RECORD_SIZE) (encode_index rs) = encode_fixed (rs ! i) @ encode_index (drop (Suc i) rs)"
proof (induction rs arbitrary: i)
  case (Cons r rs)
  show ?case
  proof (cases i)
    case 0
    then show ?thesis by (simp add: encode_index_def)
  next
    case (Suc j)
    with Cons show ?thesis by (simp add: encode_index_def drop_append)
  qed
qed simp

lemma read_record_at_encode_index [simp]:
  assumes "i < length rs"
  shows "read_record_at (encode_index rs) i = Inr (rs ! i)"
proof -
  have "i * FIXED_RECORD_SIZE + FIXED_RECORD_SIZE \<le> FIXED_RECORD_SIZE * length rs"
    using assms by (metis Suc_leI mult.commute mult_Suc add.commute mult_le_mono2)
  with assms show ?thesis
    by (simp add: read_record_at_def get_range_def rslice_def drop_encode_index)
qed

lemma read_key_at_encode_index [simp]:
  assumes "i < length rs"
  shows "read_key_at (encode_index rs) i = Inr (r_key (rs ! i))"
proof -
  have "i * FIXED_RECORD_SIZE + FIXED_RECORD_SIZE \<le> FIXED_RECORD_SIZE * length rs"
    using assms by (metis Suc_leI mult.commute mult_Suc add.commute mult_le_mono2)
  then have "i * FIXED_RECORD_SIZE + 8 \<le> FIXED_RECORD_SIZE * length rs"
    by (simp add: FIXED_RECORD_SIZE_def)
  with assms show ?thesis
    by (simp add: read_key_at_def get_range_def rslice_def drop_encode_index)
      (simp add: encode_fixed_eq from_le_to_le FIXED_RECORD_SIZE_def)
qed

lemma floor_loop_correct:
  assumes "sorted (map r_key rs)" and "lo \<le> hi" and "hi \<le> length rs"
    and "\<And>i. i < lo \<Longrightarrow> r_key (rs ! i) \<le> key"
    and "\<And>i. hi \<le> i \<Longrightarrow> i < length rs \<Longrightarrow> key < r_key (rs ! i)"
  shows "floor_loop (encode_index rs) key lo hi = Inr (length (takeWhile (\<lambda>r. r_key r \<le> key) rs))"
  using assms
proof (induction "encode_index rs" key lo hi rule: floor_loop.induct)
  case (1 key lo hi)
  show ?case
  proof (cases "lo < hi")
    case False
    with "1.prems" have "lo = hi" by simp
    have "lo = length (takeWhile (\<lambda>r. r_key r \<le> key) rs)"
    proof (rule length_takeWhile_unique)
      show "i < lo \<longleftrightarrow> r_key (rs ! i) \<le> key" if "i < length rs" for i
        using "1.prems"(4) [of i] "1.prems"(5) [OF _ that] \<open>lo = hi\<close> by (meson leD not_le)
    qed (use "1.prems" in auto)
    with False show ?thesis by (simp add: floor_loop.simps)
  next
    case True
    define mid where "mid = lo + (hi - lo) div 2"
    have mid: "lo \<le> mid" "mid < hi" using True by (auto simp: mid_def)
    with "1.prems" have rd: "read_key_at (encode_index rs) mid = Inr (r_key (rs ! mid))" by simp
    have mono: "r_key (rs ! i) \<le> r_key (rs ! j)" if "i \<le> j" "j < length rs" for i j
      using "1.prems"(1) that by (auto simp: sorted_iff_nth_mono)
    show ?thesis
    proof (cases "r_key (rs ! mid) \<le> key")
      case le: True
      have "floor_loop (encode_index rs) key (mid + 1) hi = Inr (length (takeWhile (\<lambda>r. r_key r \<le> key) rs))"
      proof (rule "1.hyps"(1) [OF True mid_def rd le])
        show "r_key (rs ! i) \<le> key" if "i < mid + 1" for i
          using mono [of i mid] that mid "1.prems"(3) le by auto
      qed (use "1.prems" mid in auto)
      with True le rd show ?thesis by (subst floor_loop.simps) (simp add: mid_def Let_def)
    next
      case gt: False
      have "floor_loop (encode_index rs) key lo mid = Inr (length (takeWhile (\<lambda>r. r_key r \<le> key) rs))"
      proof (rule "1.hyps"(2) [OF True mid_def rd gt])
        show "key < r_key (rs ! i)" if "mid \<le> i" "i < length rs" for i
          using mono [OF that] gt by auto
      qed (use "1.prems" mid in auto)
      with True gt rd show ?thesis by (subst floor_loop.simps) (simp add: mid_def Let_def)
    qed
  qed
qed

lemma exact_loop_correct:
  assumes "sorted_wrt (<) (map r_key rs)" and "lo \<le> hi" and "hi \<le> length rs"
    and "\<And>i. i < lo \<Longrightarrow> r_key (rs ! i) < key"
    and "\<And>i. hi \<le> i \<Longrightarrow> i < length rs \<Longrightarrow> key < r_key (rs ! i)"
  shows "exact_loop (encode_index rs) key lo hi = Inr (find (\<lambda>r. r_key r = key) rs)"
  using assms
proof (induction "encode_index rs" key lo hi rule: exact_loop.induct)
  case (1 key lo hi)
  have mono: "r_key (rs ! i) < r_key (rs ! j)" if "i < j" "j < length rs" for i j
    using "1.prems"(1) that by (auto simp: sorted_wrt_iff_nth_less)
  show ?case
  proof (cases "lo < hi")
    case False
    have "r_key (rs ! i) \<noteq> key" if "i < length rs" for i
      using "1.prems"(2) "1.prems"(4) [of i] "1.prems"(5) [of i] False that by (cases "i < lo") auto
    then have "find (\<lambda>r. r_key r = key) rs = None"
      by (auto simp: find_None_iff in_set_conv_nth)
    with False show ?thesis by (simp add: exact_loop.simps)
  next
    case True
    define mid where "mid = lo + (hi - lo) div 2"
    have mid: "lo \<le> mid" "mid < hi" using True by (auto simp: mid_def)
    with "1.prems" have len: "mid < length rs" by simp
    then have rd: "read_key_at (encode_index rs) mid = Inr (r_key (rs ! mid))" by simp
    consider (eq) "r_key (rs ! mid) = key" | (lt) "r_key (rs ! mid) < key" | (gt) "key < r_key (rs ! mid)"
      by (rule linorder_cases)
    then show ?thesis
    proof cases
      case eq
      have "find (\<lambda>r. r_key r = r_key (rs ! mid)) rs = Some (rs ! mid)"
        using "1.prems"(1) len by (intro find_key_in_distinct) (auto simp: strict_sorted_iff)
      with True eq rd len show ?thesis
        by (subst exact_loop.simps) (simp add: mid_def [symmetric] Let_def res_ok_def)
    next
      case lt
      then have ne: "r_key (rs ! mid) \<noteq> key" by simp
      have "exact_loop (encode_index rs) key (mid + 1) hi = Inr (find (\<lambda>r. r_key r = key) rs)"
      proof (rule "1.hyps"(1) [OF True mid_def rd ne lt])
        show "r_key (rs ! i) < key" if "i < mid + 1" for i
          using mono [of i mid] that len lt by (cases "i = mid") auto
      qed (use "1.prems" mid in auto)
      with True lt ne rd show ?thesis by (subst exact_loop.simps) (simp add: mid_def Let_def)
    next
      case gt
      then have ne: "r_key (rs ! mid) \<noteq> key" and nlt: "\<not> r_key (rs ! mid) < key" by auto
      have "exact_loop (encode_index rs) key lo mid = Inr (find (\<lambda>r. r_key r = key) rs)"
      proof (rule "1.hyps"(2) [OF True mid_def rd ne nlt])
        show "key < r_key (rs ! i)" if "mid \<le> i" "i < length rs" for i
          using mono [of mid i] that gt by (cases "i = mid") auto
      qed (use "1.prems" mid in auto)
      with True nlt ne rd show ?thesis by (subst exact_loop.simps) (simp add: mid_def Let_def)
    qed
  qed
qed

lemma index_body_file [simp]: "index_body (index_file m rs) = Inr (encode_index rs)"
  by (simp add: index_body_def index_file_def)

text \<open>What a floor query at \<open>key\<close> for page \<open>pa\<close> answers on a list of records.\<close>

definition floor_answer :: "chunk_record list \<Rightarrow> u64 \<Rightarrow> u64 \<Rightarrow> chunk_record option" where
  "floor_answer rs key pa =
     (case floor_by r_key key rs of
        None \<Rightarrow> None
      | Some r \<Rightarrow> if pa_of (r_key r) = pa then Some r else None)"

lemma floor_mmap_index_file:
  assumes "sorted_wrt (<) (map r_key rs)"
  shows "floor_mmap (index_file m rs) (length rs) key pa = Inr (floor_answer rs key pa)"
proof -
  let ?n = "length (takeWhile (\<lambda>r. r_key r \<le> key) rs)"
  have loop: "floor_loop (encode_index rs) key 0 (length rs) = Inr ?n"
    using assms by (intro floor_loop_correct) (auto simp: strict_sorted_iff)
  have "?n \<le> length rs" by (rule length_takeWhile_le)
  then have "?n \<noteq> 0 \<Longrightarrow> read_record_at (encode_index rs) (?n - 1) = Inr (rs ! (?n - 1))"
    by (intro read_record_at_encode_index) linarith
  with loop show ?thesis
    by (simp add: floor_mmap_def floor_answer_def floor_by_def Let_def res_ok_def)
qed

lemma exact_mmap_index_file:
  assumes "sorted_wrt (<) (map r_key rs)"
  shows "exact_mmap (index_file m rs) (length rs) key = Inr (find (\<lambda>r. r_key r = key) rs)"
  unfolding exact_mmap_def using exact_loop_correct [OF assms, of 0 "length rs" key] by simp

lemma floor_sorted_correct:
  "floor_sorted (map r_key rs) rs key pa = floor_answer rs key pa"
  by (simp add: floor_sorted_def floor_answer_def floor_by_def partition_point_le_def
      partition_point_def takeWhile_map comp_def Let_def)

lemma exact_sorted_correct:
  assumes "sorted_wrt (<) (map r_key rs)"
  shows "exact_sorted (map r_key rs) rs key = find (\<lambda>r. r_key r = key) rs"
proof -
  let ?i = "length (takeWhile (\<lambda>r. r_key r < key) rs)"
  have pp: "partition_point (\<lambda>x. x < key) (map r_key rs) = ?i"
    by (simp add: partition_point_def takeWhile_map comp_def)
  show ?thesis
  proof (cases "?i < length rs \<and> r_key (rs ! ?i) = key")
    case True
    then have "find (\<lambda>r. r_key r = key) rs = Some (rs ! ?i)"
      using find_key_in_distinct [of r_key rs "rs ! ?i"] assms by (simp add: strict_sorted_iff)
    with True pp show ?thesis by (simp add: exact_sorted_def binary_search_def Let_def)
  next
    case False
    have "r_key r \<noteq> key" if "r \<in> set rs" for r
    proof
      assume eq: "r_key r = key"
      with that have "\<not> (\<forall>r \<in> set rs. r_key r < key)" by auto
      then have "takeWhile (\<lambda>r. r_key r < key) rs \<noteq> rs" by (simp add: takeWhile_eq_all_conv)
      then have lt: "?i < length rs"
        by (metis length_takeWhile_le le_neq_implies_less takeWhile_eq_take take_all order.refl)
      then have "key < r_key (rs ! ?i)"
        using False nth_length_takeWhile [OF lt] by auto
      obtain j where j: "j < length rs" "rs ! j = r" using \<open>r \<in> set rs\<close> by (auto simp: in_set_conv_nth)
      show False
      proof (cases "?i \<le> j")
        case True
        then have "r_key (rs ! ?i) \<le> r_key (rs ! j)"
          using assms j by (auto simp: strict_sorted_iff sorted_iff_nth_mono)
        with \<open>key < r_key (rs ! ?i)\<close> j eq show False by simp
      next
        case False
        then have "r_key (takeWhile (\<lambda>r. r_key r < key) rs ! j) < key"
          by (metis not_le nth_mem set_takeWhileD)
        with False j eq show False by (simp add: takeWhile_nth)
      qed
    qed
    then have "find (\<lambda>r. r_key r = key) rs = None" by (auto simp: find_None_iff)
    with False pp show ?thesis by (auto simp: exact_sorted_def binary_search_def Let_def)
  qed
qed

section \<open>No search panics\<close>

text \<open>
  Whatever bytes an index file holds, the record count computed when it is opened keeps
  every access inside the mapping.
\<close>

lemma read_key_at_in_range:
  assumes "i < n" and "n * FIXED_RECORD_SIZE \<le> length body"
  shows "\<exists>k. read_key_at body i = Inr k"
proof -
  have "(i + 1) * FIXED_RECORD_SIZE \<le> n * FIXED_RECORD_SIZE"
    using assms(1) by (intro mult_le_mono1) simp
  with assms(2) show ?thesis
    by (simp add: read_key_at_def get_range_def FIXED_RECORD_SIZE_def Let_def)
qed

lemma read_record_at_in_range:
  assumes "i < n" and "n * FIXED_RECORD_SIZE \<le> length body"
  shows "read_record_at body i \<noteq> Inl Panic"
proof -
  have "(i + 1) * FIXED_RECORD_SIZE \<le> n * FIXED_RECORD_SIZE"
    using assms(1) by (intro mult_le_mono1) simp
  with assms(2) show ?thesis
    by (auto simp: read_record_at_def get_range_def decode_fixed_def Let_def rbind_eq_Inl_iff from_u8_def)
qed

lemma floor_loop_in_range:
  assumes "n * FIXED_RECORD_SIZE \<le> length body" and "lo \<le> hi" "hi \<le> n"
  shows "\<exists>m. floor_loop body key lo hi = Inr m \<and> m \<le> n"
  using assms
proof (induction body key lo hi rule: floor_loop.induct)
  case (1 body key lo hi)
  show ?case
  proof (cases "lo < hi")
    case True
    let ?mid = "lo + (hi - lo) div 2"
    have "?mid < n" using True "1.prems" by linarith
    then obtain k where k: "read_key_at body ?mid = Inr k"
      using read_key_at_in_range "1.prems"(1) by blast
    show ?thesis
    proof (cases "k \<le> key")
      case le: True
      then show ?thesis
        using "1.IH"(1) [OF True refl k le] True k "1.prems"
        by (subst floor_loop.simps) (simp add: Let_def)
    next
      case gt: False
      then show ?thesis
        using "1.IH"(2) [OF True refl k gt] True k "1.prems"
        by (subst floor_loop.simps) (simp add: Let_def)
    qed
  qed (use "1.prems" in \<open>simp add: floor_loop.simps\<close>)
qed

lemma exact_loop_no_panic:
  assumes "n * FIXED_RECORD_SIZE \<le> length body" and "lo \<le> hi" "hi \<le> n"
  shows "\<exists>r. exact_loop body key lo hi = Inr r"
  using assms
proof (induction body key lo hi rule: exact_loop.induct)
  case (1 body key lo hi)
  show ?case
  proof (cases "lo < hi")
    case True
    let ?mid = "lo + (hi - lo) div 2"
    have mid: "?mid < n" using True "1.prems" by linarith
    then obtain k where k: "read_key_at body ?mid = Inr k"
      using read_key_at_in_range "1.prems"(1) by blast
    have ok: "\<exists>r. res_ok (read_record_at body ?mid) = Inr r"
      using read_record_at_in_range [OF mid "1.prems"(1)]
      by (auto simp: res_ok_def split: sum.splits fault.splits)
    consider "k = key" | "k \<noteq> key" "k < key" | "k \<noteq> key" "\<not> k < key" by blast
    then show ?thesis
    proof cases
      case 1
      with True k ok show ?thesis by (subst exact_loop.simps) (simp add: Let_def)
    next
      case 2
      then show ?thesis
        using "1.IH"(1) [OF True refl k 2] True k "1.prems"
        by (subst exact_loop.simps) (simp add: Let_def)
    next
      case 3
      then show ?thesis
        using "1.IH"(2) [OF True refl k 3] True k "1.prems"
        by (subst exact_loop.simps) (simp add: Let_def)
    qed
  qed (simp add: exact_loop.simps)
qed

lemma floor_mmap_no_panic:
  assumes "HEADER_SIZE + n * FIXED_RECORD_SIZE \<le> length file"
  shows "\<exists>r. floor_mmap file n key pa = Inr r"
proof -
  let ?body = "drop HEADER_SIZE file"
  have len: "n * FIXED_RECORD_SIZE \<le> length ?body" using assms by simp
  from floor_loop_in_range [OF len, of 0 n] obtain m
    where m: "floor_loop ?body key 0 n = Inr m" "m \<le> n" by auto
  show ?thesis
  proof (cases m)
    case 0
    with m assms show ?thesis by (simp add: floor_mmap_def index_body_def)
  next
    case (Suc i)
    with m have "i < n" by simp
    with len have "read_record_at ?body i \<noteq> Inl Panic" by (rule read_record_at_in_range [rotated])
    with m Suc assms show ?thesis
      by (auto simp: floor_mmap_def index_body_def res_ok_def split: sum.splits fault.splits)
  qed
qed

lemma exact_mmap_no_panic:
  assumes "HEADER_SIZE + n * FIXED_RECORD_SIZE \<le> length file"
  shows "\<exists>r. exact_mmap file n key = Inr r"
  using exact_loop_no_panic [of n "drop HEADER_SIZE file" 0 n key] assms
  by (simp add: exact_mmap_def index_body_def)

section \<open>The index interface\<close>

text \<open>
  What the readers of either index rely on: the index stands for a list of records with
  strictly increasing keys, a floor query answers with the last record at or below the key
  (if it is of the page asked for), an exact query with the record of the key.
\<close>

text \<open>The version of a page a snapshot sees: the newest record at or below the snapshot.\<close>

definition newest_version :: "chunk_record list \<Rightarrow> u64 \<Rightarrow> u32 \<Rightarrow> chunk_record \<Rightarrow> bool" where
  "newest_version rs pa s r \<longleftrightarrow>
     r \<in> set rs \<and> pa_of (r_key r) = pa \<and> snapshot_of (r_key r) \<le> s \<and>
     (\<forall>r' \<in> set rs. pa_of (r_key r') = pa \<and> snapshot_of (r_key r') \<le> s \<longrightarrow>
        snapshot_of (r_key r') \<le> snapshot_of (r_key r))"

lemma floor_answer_newest:
  assumes srt: "sorted_wrt (<) (map r_key rs)" and s: "s \<le> MAX_SNAPSHOT_ID"
  shows "floor_answer rs (encode_key pa s) pa = Some r \<longleftrightarrow> newest_version rs pa s r"
proof -
  have key: "r_key r' \<le> encode_key pa s \<longleftrightarrow> snapshot_of (r_key r') \<le> s"
    if "pa_of (r_key r') = pa" for r'
    using that s by (rule key_le_encode_iff)
  have "floor_answer rs (encode_key pa s) pa = Some r \<longleftrightarrow>
      floor_by r_key (encode_key pa s) rs = Some r \<and> pa_of (r_key r) = pa"
    by (auto simp: floor_answer_def split: option.splits if_splits)
  also have "\<dots> \<longleftrightarrow> newest_version rs pa s r"
  proof
    assume fl: "floor_by r_key (encode_key pa s) rs = Some r \<and> pa_of (r_key r) = pa"
    then have r: "r \<in> set rs" "r_key r \<le> encode_key pa s" and pa: "pa_of (r_key r) = pa"
      and max: "\<And>r'. r' \<in> set rs \<Longrightarrow> r_key r' \<le> encode_key pa s \<Longrightarrow> r_key r' \<le> r_key r"
      by (simp_all add: floor_by_Some_iff [OF srt])
    have "snapshot_of (r_key r') \<le> snapshot_of (r_key r)"
      if "r' \<in> set rs" "pa_of (r_key r') = pa" "snapshot_of (r_key r') \<le> s" for r'
      using max [OF that(1)] key [OF that(2)] that pa by (simp add: key_le_iff [of "r_key r'" "r_key r"])
    with r pa key [OF pa] show "newest_version rs pa s r"
      by (auto simp: newest_version_def)
  next
    assume nv: "newest_version rs pa s r"
    have "r_key r' \<le> r_key r" if "r' \<in> set rs" "r_key r' \<le> encode_key pa s" for r'
    proof (cases "pa_of (r_key r') = pa")
      case True
      with nv that key show ?thesis by (auto simp: newest_version_def key_le_iff)
    next
      case False
      have "pa_of (encode_key pa s) = pa"
        using nv pa_of_bound [of "r_key r"] by (auto simp: newest_version_def pa_of_encode_key_small)
      with that False have "pa_of (r_key r') < pa" by (simp add: key_le_iff [of "r_key r'"])
      with nv show ?thesis by (simp add: newest_version_def key_le_iff [of "r_key r'"])
    qed
    with nv key show "floor_by r_key (encode_key pa s) rs = Some r \<and> pa_of (r_key r) = pa"
      by (auto simp: newest_version_def floor_by_Some_iff [OF srt])
  qed
  finally show ?thesis .
qed

lemma floor_answer_None:
  assumes srt: "sorted_wrt (<) (map r_key rs)" and s: "s \<le> MAX_SNAPSHOT_ID"
  shows "floor_answer rs (encode_key pa s) pa = None \<longleftrightarrow>
    (\<forall>r \<in> set rs. pa_of (r_key r) = pa \<longrightarrow> s < snapshot_of (r_key r))"
proof
  assume none: "floor_answer rs (encode_key pa s) pa = None"
  show "\<forall>r \<in> set rs. pa_of (r_key r) = pa \<longrightarrow> s < snapshot_of (r_key r)"
  proof (rule ccontr)
    let ?c = "filter (\<lambda>r. pa_of (r_key r) = pa \<and> snapshot_of (r_key r) \<le> s) rs"
    assume "\<not> ?thesis"
    then obtain r0 where "r0 \<in> set ?c" by (auto simp: not_less)
    then have ne: "set ?c \<noteq> {}" by (metis empty_iff)
    let ?S = "(\<lambda>r. snapshot_of (r_key r)) ` set ?c"
    have fin: "finite ?S" by simp
    have "Max ?S \<in> ?S" using fin ne by (intro Max_in) auto
    then obtain r where r: "r \<in> set ?c" "snapshot_of (r_key r) = Max ?S" by force
    have "snapshot_of (r_key r') \<le> snapshot_of (r_key r)" if "r' \<in> set ?c" for r'
      unfolding r(2) by (rule Max_ge [OF fin imageI [OF that]])
    with r(1) have "newest_version rs pa s r" by (auto simp: newest_version_def)
    with none show False using floor_answer_newest [OF assms] by (metis option.distinct(1))
  qed
next
  assume "\<forall>r \<in> set rs. pa_of (r_key r) = pa \<longrightarrow> s < snapshot_of (r_key r)"
  then have "\<not> newest_version rs pa s r" for r by (auto simp: newest_version_def)
  then show "floor_answer rs (encode_key pa s) pa = None"
    using floor_answer_newest [OF assms] by (metis not_None_eq)
qed

locale key_index =
  fixes floor_q :: "'i \<Rightarrow> u64 \<Rightarrow> u64 \<Rightarrow> chunk_record option res"
    and exact_q :: "'i \<Rightarrow> u64 \<Rightarrow> chunk_record option res"
    and recs :: "'i \<Rightarrow> chunk_record list"
    and inv :: "'i \<Rightarrow> bool"
  assumes recs_sorted: "inv i \<Longrightarrow> sorted_wrt (<) (map r_key (recs i))"
    and floor_q: "inv i \<Longrightarrow> floor_q i key pa = Inr (floor_answer (recs i) key pa)"
    and exact_q: "inv i \<Longrightarrow> exact_q i key = Inr (find (\<lambda>r. r_key r = key) (recs i))"
begin

lemma exact_hit: "inv i \<Longrightarrow> r \<in> set (recs i) \<Longrightarrow> exact_q i (r_key r) = Inr (Some r)"
  using recs_sorted [of i] by (simp add: exact_q find_key_in_distinct strict_sorted_iff)

lemma exact_miss: "inv i \<Longrightarrow> key \<notin> r_key ` set (recs i) \<Longrightarrow> exact_q i key = Inr None"
  by (auto simp: exact_q find_None_iff)

lemma floor_newest:
  "inv i \<Longrightarrow> s \<le> MAX_SNAPSHOT_ID \<Longrightarrow>
     floor_q i (encode_key pa s) pa = Inr (Some r) \<longleftrightarrow> newest_version (recs i) pa s r"
  by (simp add: floor_q floor_answer_newest recs_sorted)

lemma floor_missing:
  "inv i \<Longrightarrow> s \<le> MAX_SNAPSHOT_ID \<Longrightarrow>
     floor_q i (encode_key pa s) pa = Inr None \<longleftrightarrow>
     (\<forall>r \<in> set (recs i). pa_of (r_key r) = pa \<longrightarrow> s < snapshot_of (r_key r))"
  by (simp add: floor_q floor_answer_None recs_sorted)

text \<open>Queries beyond the 45-bit page range never answer with another page's record.\<close>

lemma floor_out_of_range:
  assumes "inv i" and "s \<le> MAX_SNAPSHOT_ID" and "2 ^ 45 \<le> unat pa"
  shows "floor_q i (encode_key pa s) pa = Inr None"
proof -
  have "pa_of (r_key r) \<noteq> pa" for r using pa_of_bound [of "r_key r"] assms(3) by auto
  with floor_missing [OF assms(1,2)] show ?thesis by blast
qed

end

text \<open>The record list of a mapped index and of a log.\<close>

definition index_records :: "bytes \<Rightarrow> chunk_record list" where
  "index_records file = (case read_fixed_records (drop HEADER_SIZE file) of Inr rs \<Rightarrow> rs | Inl _ \<Rightarrow> [])"

definition index_ok :: "bytes \<Rightarrow> nat \<Rightarrow> bool" where
  "index_ok file n \<longleftrightarrow> (\<exists>m rs. file = index_file m rs \<and> n = length rs \<and> sorted_wrt (<) (map r_key rs))"

lemma index_records_file [simp]: "index_records (index_file m rs) = rs"
  by (simp add: index_records_def index_file_def read_fixed_records_encode_index)

interpretation mapped_index: key_index
  "\<lambda>(file, n). floor_mmap file n" "\<lambda>(file, n). exact_mmap file n"
  "\<lambda>(file, n). index_records file" "\<lambda>(file, n). index_ok file n"
  by unfold_locales
    (auto simp: index_ok_def floor_mmap_index_file exact_mmap_index_file)

definition lazy_ok :: "lazy_index \<Rightarrow> bool" where
  "lazy_ok idx \<longleftrightarrow> li_keys idx = map r_key (li_records idx) \<and> sorted_wrt (<) (li_keys idx)"

interpretation lazy: key_index
  "\<lambda>idx key pa. Inr (floor_sorted (li_keys idx) (li_records idx) key pa)"
  "\<lambda>idx key. Inr (exact_sorted (li_keys idx) (li_records idx) key)"
  li_records lazy_ok
  by unfold_locales (auto simp: lazy_ok_def floor_sorted_correct exact_sorted_correct)

lemma build_lazy_index_ok:
  assumes "read_log_records log = Inr rs"
  shows "\<exists>idx. build_lazy_index log = Inr idx \<and> lazy_ok idx \<and> li_records idx = canon r_key rs"
  using assms sorted_canon [of r_key rs]
  by (simp add: build_lazy_index_def lazy_ok_def canon_def Let_def)

section \<open>Properties\<close>

text \<open>C15: a query of the mapped index file answers with the newest record of the page at or
  below the snapshot, with nothing exactly when every record of the page is newer, and an
  exact query finds the record of a key exactly when there is one.\<close>

theorem index_file_queries:
  assumes "sorted_wrt (<) (map r_key rs)" "s \<le> MAX_SNAPSHOT_ID"
  shows "(floor_mmap (index_file m rs) (length rs) (encode_key pa s) pa = Inr (Some r)) = newest_version rs pa s r \<and>
    (floor_mmap (index_file m rs) (length rs) (encode_key pa s) pa = Inr None) =
      (\<forall>r \<in> set rs. pa_of (r_key r) = pa \<longrightarrow> s < snapshot_of (r_key r)) \<and>
    (exact_mmap (index_file m rs) (length rs) (r_key r) = Inr (Some r)) = (r \<in> set rs)"
proof -
  have ok: "(\<lambda>(f, n). index_ok f n) (index_file m rs, length rs)" using assms(1) by (auto simp: index_ok_def)
  have "(exact_mmap (index_file m rs) (length rs) (r_key r) = Inr (Some r)) = (r \<in> set rs)"
    using mapped_index.exact_hit [OF ok, of r] mapped_index.exact_q [OF ok, of "r_key r"]
      find_eq_Some [of "\<lambda>r'. r_key r' = r_key r" rs r] by auto
  then show ?thesis
    using mapped_index.floor_newest [OF ok assms(2), of pa r] mapped_index.floor_missing [OF ok assms(2), of pa]
    by simp
qed

theorem index_file_queries_witness:
  "floor_mmap (index_file 9 [new_zero (encode_key 1 2), new_zero (encode_key 1 5)]) 2 (encode_key 1 4) 1 =
     Inr (Some (new_zero (encode_key 1 2)))"
proof -
  let ?rs = "[new_zero (encode_key 1 2), new_zero (encode_key 1 5)]"
  have small: "unat (1 :: u64) < 2 ^ 45" "2 \<le> MAX_SNAPSHOT_ID" "5 \<le> MAX_SNAPSHOT_ID" "4 \<le> MAX_SNAPSHOT_ID"
    by (simp_all add: snapshot_le_max_unat)
  have "sorted_wrt (<) (map r_key ?rs)"
    by (simp add: new_zero_def encode_key_def SNAPSHOT_BITS_def SNAPSHOT_MASK_def)
  note query = index_file_queries [OF this small(4), of 9 1 "new_zero (encode_key 1 2)"]
  have two: "length ?rs = 2" by simp
  have "newest_version ?rs 1 4 (new_zero (encode_key 1 2))"
    using small by (simp add: newest_version_def new_zero_def pa_of_encode_key_small)
  with query show ?thesis unfolding two by blast
qed

text \<open>The lazy index answers like the index file for any log that decodes, sorted or not: a
  floor query gives the newest record of the page, and of several records with one key the
  one logged first.\<close>

theorem lazy_index_queries:
  assumes "read_log_records log = Inr rs" "s \<le> MAX_SNAPSHOT_ID"
  shows "\<exists>idx. build_lazy_index log = Inr idx \<and>
    exact_sorted (li_keys idx) (li_records idx) k = find (\<lambda>r. r_key r = k) rs \<and>
    (case floor_sorted (li_keys idx) (li_records idx) (encode_key pa s) pa of
       None \<Rightarrow> \<forall>r \<in> set rs. pa_of (r_key r) = pa \<longrightarrow> s < snapshot_of (r_key r)
     | Some r \<Rightarrow> newest_version rs pa s r \<and> find (\<lambda>r'. r_key r' = r_key r) rs = Some r)"
proof -
  obtain idx where idx: "build_lazy_index log = Inr idx" "lazy_ok idx" "li_records idx = canon r_key rs"
    using build_lazy_index_ok [OF assms(1)] by blast
  have exact: "exact_sorted (li_keys idx) (li_records idx) k = find (\<lambda>r. r_key r = k) rs" for k
    using lazy.exact_q [OF idx(2), of k] by (simp add: idx(3) find_key_canon)
  have all: "(\<forall>r \<in> set (canon r_key rs). P (r_key r)) = (\<forall>r \<in> set rs. P (r_key r))" for P
  proof -
    have "(\<forall>k \<in> r_key ` set (canon r_key rs). P k) = (\<forall>k \<in> r_key ` set rs. P k)" by (simp only: keys_canon)
    then show ?thesis by (simp only: ball_simps)
  qed
  show ?thesis
  proof (cases "floor_sorted (li_keys idx) (li_records idx) (encode_key pa s) pa")
    case None
    then have "\<forall>r \<in> set (canon r_key rs). pa_of (r_key r) = pa \<longrightarrow> s < snapshot_of (r_key r)"
      using lazy.floor_missing [OF idx(2) assms(2), of pa] by (simp add: idx(3))
    with None idx(1) exact all [of "\<lambda>k. pa_of k = pa \<longrightarrow> s < snapshot_of k"] show ?thesis by simp
  next
    case (Some r)
    with lazy.floor_newest [OF idx(2) assms(2), of pa r] have nv: "newest_version (canon r_key rs) pa s r"
      by (simp add: idx(3))
    have "r \<in> set rs" using nv set_canon [of r_key rs] by (auto simp: newest_version_def)
    with nv all [of "\<lambda>k. pa_of k = pa \<and> snapshot_of k \<le> s \<longrightarrow> snapshot_of k \<le> snapshot_of (r_key r)"]
    have "newest_version rs pa s r" by (simp add: newest_version_def)
    moreover have "exact_sorted (li_keys idx) (li_records idx) (r_key r) = Some r"
      using lazy.exact_hit [OF idx(2), of r] nv by (simp add: idx(3) newest_version_def)
    ultimately show ?thesis using Some idx(1) exact by simp
  qed
qed

theorem lazy_index_queries_witness:
  "\<exists>idx. build_lazy_index (log_file 3 [new_zero 5, new_full 5 1 0 9]) = Inr idx \<and>
     exact_sorted (li_keys idx) (li_records idx) 5 = Some (new_zero 5)"
proof -
  have "read_log_records (log_file 3 [new_zero 5, new_full 5 1 0 9]) = Inr [new_zero 5, new_full 5 1 0 9]"
    by (simp add: log_record_ok_def new_record_defs)
  from lazy_index_queries [OF this, of 0 5] show ?thesis by (auto simp: new_record_defs)
qed

text \<open>Queries of a mapped index never read outside the file, whatever its bytes are: on a
  file of at least the size that \<open>open\<close> checked both searches return.\<close>

theorem index_search_no_panic:
  assumes "HEADER_SIZE + n * FIXED_RECORD_SIZE \<le> length file"
  shows "(\<exists>r. floor_mmap file n key pa = Inr r) \<and> (\<exists>r. exact_mmap file n key = Inr r)"
  using floor_mmap_no_panic [OF assms] exact_mmap_no_panic [OF assms] by simp

theorem index_search_no_panic_witness:
  "\<exists>r. floor_mmap (replicate 80 255) 2 17 0 = Inr r"
proof -
  have "HEADER_SIZE + 2 * FIXED_RECORD_SIZE \<le> length (replicate 80 (255 :: byte))"
    by (simp add: HEADER_SIZE_def FIXED_RECORD_SIZE_def)
  from index_search_no_panic [OF this, of 17 0] show ?thesis by blast
qed

end
