(* ===== verification/Cache.thy ===== *)
theory Cache
  imports Chunk
begin

text \<open>
  The set-associative page cache in shared memory (\<open>bxdb-core/src/cache.rs\<close>): address
  arithmetic, the identity block, lookup over 16 ways (scalar and SIMD), pseudo-LRU
  eviction, \<open>get\<close> and \<open>put\<close>. One operation is one critical section of the mutex of
  its metadata page, so operations are atomic transitions of the shared state.
\<close>

section \<open>Layout\<close>

definition CACHE_PAGE_SIZE :: nat where "CACHE_PAGE_SIZE = 4096"
definition METADATA_PAGES :: nat where "METADATA_PAGES = 512"
definition SETS_PER_META :: nat where "SETS_PER_META = 16"
definition WAYS_PER_SET :: nat where "WAYS_PER_SET = 16"
definition TOTAL_SLOTS :: nat where "TOTAL_SLOTS = METADATA_PAGES * SETS_PER_META * WAYS_PER_SET"
definition METADATA_BYTES :: nat where "METADATA_BYTES = METADATA_PAGES * CACHE_PAGE_SIZE"
definition DATA_BYTES :: nat where "DATA_BYTES = TOTAL_SLOTS * CACHE_PAGE_SIZE"
definition TOTAL_BYTES :: nat where "TOTAL_BYTES = METADATA_BYTES + DATA_BYTES"
definition EMPTY_KEY :: u64 where "EMPTY_KEY = - 1"
definition FIB_MUL :: u64 where "FIB_MUL = 0x9e3779b97f4a7c15"
definition SETS_OFFSET :: nat where "SETS_OFFSET = 64"
definition SET_STRIDE :: nat where "SET_STRIDE = 192"
definition CACHE_MAGIC :: u64 where "CACHE_MAGIC = 0x4D48535F58444242"
definition ID_OFFSET :: nat where "ID_OFFSET = SETS_OFFSET + SETS_PER_META * SET_STRIDE"
definition PATH_MAX :: nat where "PATH_MAX = CACHE_PAGE_SIZE - ID_OFFSET - 8"

lemmas layout_defs = CACHE_PAGE_SIZE_def METADATA_PAGES_def SETS_PER_META_def WAYS_PER_SET_def
  TOTAL_SLOTS_def METADATA_BYTES_def DATA_BYTES_def TOTAL_BYTES_def SETS_OFFSET_def SET_STRIDE_def
  ID_OFFSET_def PATH_MAX_def

record set_metadata =
  page_ids :: "u64 list"
  timestamps :: "byte list"

text \<open>
  The mapped region: the set metadata by metadata page and set index, the page data by slot,
  and the identity block of the first metadata page (its magic word and its path bytes).
\<close>

record shared_cache =
  sc_sets :: "nat \<Rightarrow> nat \<Rightarrow> set_metadata"
  sc_data :: "nat \<Rightarrow> bytes"
  sc_magic :: u64
  sc_ident :: bytes

text \<open>Byte offsets used by \<open>set_ptr\<close> and for slot data.\<close>

definition set_ptr :: "nat \<Rightarrow> nat \<Rightarrow> nat" where
  "set_ptr meta_idx set_idx = meta_idx * CACHE_PAGE_SIZE + SETS_OFFSET + set_idx * SET_STRIDE"

definition data_ptr :: "nat \<Rightarrow> nat" where
  "data_ptr slot = METADATA_BYTES + slot * CACHE_PAGE_SIZE"

definition global_slot :: "nat \<Rightarrow> nat \<Rightarrow> nat \<Rightarrow> nat" where
  "global_slot meta_idx set_idx way =
     meta_idx * (SETS_PER_META * WAYS_PER_SET) + set_idx * WAYS_PER_SET + way"

text \<open>The decomposition of a slot number in \<open>slot_key\<close> and \<open>slot_timestamp\<close>.\<close>

definition slot_coords :: "nat \<Rightarrow> nat \<times> nat \<times> nat" where
  "slot_coords slot =
     (let meta_idx = slot div (SETS_PER_META * WAYS_PER_SET);
          slot_in_page = slot mod (SETS_PER_META * WAYS_PER_SET)
      in (meta_idx, slot_in_page div WAYS_PER_SET, slot_in_page mod WAYS_PER_SET))"

definition slot_key :: "shared_cache \<Rightarrow> nat \<Rightarrow> u64 option" where
  "slot_key c slot =
     (case slot_coords slot of (meta_idx, set_idx, way) \<Rightarrow>
        let key = page_ids (sc_sets c meta_idx set_idx) ! way
        in if key = EMPTY_KEY then None else Some key)"

definition slot_timestamp :: "shared_cache \<Rightarrow> nat \<Rightarrow> byte" where
  "slot_timestamp c slot =
     (case slot_coords slot of (meta_idx, set_idx, way) \<Rightarrow>
        timestamps (sc_sets c meta_idx set_idx) ! way)"

definition read_slot_page :: "shared_cache \<Rightarrow> nat \<Rightarrow> bytes" where
  "read_slot_page c slot = sc_data c slot"

section \<open>Finding a way\<close>

text \<open>\<open>page_ids.iter().position(|&k| k == key)\<close>.\<close>

fun position :: "'a \<Rightarrow> 'a list \<Rightarrow> nat option" where
  "position k [] = None"
| "position k (x # xs) = (if x = k then Some 0 else map_option Suc (position k xs))"

definition trailing_zeros :: "'a::len word \<Rightarrow> nat" where
  "trailing_zeros w = length (takeWhile (\<lambda>i. \<not> bit w i) [0..<LENGTH('a)])"

text \<open>
  \<open>find_way_sse41\<close>: eight 128-bit compares, two lane bits each (\<open>movemask_pd\<close>), collected
  into one mask whose lowest set bit is the way.
\<close>

definition sse_lanes :: "u64 list \<Rightarrow> u64 \<Rightarrow> nat \<Rightarrow> u32" where
  "sse_lanes ids key i =
     (if ids ! (2 * i) = key then 1 else 0) OR (if ids ! (2 * i + 1) = key then 2 else 0)"

definition mask_to_way :: "u32 \<Rightarrow> nat option" where
  "mask_to_way lanes = (if lanes = 0 then None else Some (trailing_zeros lanes))"

definition find_way_sse41 :: "u64 list \<Rightarrow> u64 \<Rightarrow> nat option" where
  "find_way_sse41 ids key =
     mask_to_way (foldl (\<lambda>lanes i. lanes OR push_bit (i * 2) (sse_lanes ids key i)) 0 [0..<8])"

text \<open>\<open>find_way_neon\<close>: the same with one bit extracted per lane.\<close>

definition neon_bit :: "u64 \<Rightarrow> u64 \<Rightarrow> u32" where
  "neon_bit x key = (if x = key then 1 else 0)"

definition find_way_neon :: "u64 list \<Rightarrow> u64 \<Rightarrow> nat option" where
  "find_way_neon ids key =
     mask_to_way (foldl (\<lambda>lanes i. lanes OR
         (push_bit (i * 2) (neon_bit (ids ! (i * 2)) key) OR
          push_bit (i * 2 + 1) (neon_bit (ids ! (i * 2 + 1)) key))) 0 [0..<8])"

lemma position_Some_iff:
  "position k xs = Some i \<longleftrightarrow> i < length xs \<and> xs ! i = k \<and> (\<forall>j < i. xs ! j \<noteq> k)"
proof (induction xs arbitrary: i)
  case (Cons x xs)
  show ?case
  proof (cases i)
    case (Suc j)
    then show ?thesis
      using Cons.IH [of j] by (auto simp: less_Suc_eq_0_disj)
  qed auto
qed simp

lemma position_None_iff: "position k xs = None \<longleftrightarrow> k \<notin> set xs"
  by (induction xs) auto

lemma mask_to_way_position:
  assumes len: "length ids = 16"
    and lanes: "\<And>n. bit lanes n \<longleftrightarrow> n < 16 \<and> ids ! n = key"
  shows "mask_to_way lanes = position key ids"
proof (cases "position key ids")
  case None
  then have "\<not> bit lanes n" for n
    using len lanes [of n] by (auto simp: position_None_iff in_set_conv_nth)
  then have "lanes = 0" by (intro bit_word_eqI) simp
  with None show ?thesis by (simp add: mask_to_way_def)
next
  case (Some i)
  then have i: "i < 16" "bit lanes i" "\<forall>j < i. \<not> bit lanes j"
    using len lanes by (auto simp: position_Some_iff)
  have "[0..<32] = [0..<i] @ [i..<32]"
    using i(1) upt_add_eq_append [of 0 i "32 - i"] by simp
  then have "[0..<32] = [0..<i] @ i # [Suc i..<32]"
    using i(1) by (simp add: upt_conv_Cons [of i 32])
  then have "trailing_zeros lanes = i"
    using i by (simp add: trailing_zeros_def takeWhile_tail takeWhile_eq_all_conv [THEN iffD2])
  moreover have "lanes \<noteq> 0" using i(2) by auto
  ultimately show ?thesis using Some by (simp add: mask_to_way_def)
qed

text \<open>Both vector searches compute a mask whose bit \<open>n\<close> says that way \<open>n\<close> matches.\<close>

lemma upt_8: "[0..<8] = [0, 1, 2, 3, 4, 5, 6, 7 :: nat]"
  by (simp add: upt_rec)

lemma lane_bits:
  "bit ((if a then 1 else 0) :: u32) n \<longleftrightarrow> n = 0 \<and> a"
  "bit ((if b then 2 else 0) :: u32) n \<longleftrightarrow> n = 1 \<and> b"
proof -
  show "bit ((if a then 1 else 0) :: u32) n \<longleftrightarrow> n = 0 \<and> a" by (simp add: bit_1_iff)
  have "((if b then 2 else 0) :: u32) = push_bit 1 (of_bool b)" by simp
  then show "bit ((if b then 2 else 0) :: u32) n \<longleftrightarrow> n = 1 \<and> b"
    by (auto simp: bit_simps)
qed

lemma or_fold_bit:
  "bit (foldl (\<lambda>m i. m OR f i) (acc :: u32) is) n \<longleftrightarrow> bit acc n \<or> (\<exists>i \<in> set is. bit (f i) n)"
  by (induction "is" arbitrary: acc) (auto simp: bit_or_iff)

lemma pair_lane_iff:
  "(\<exists>i \<in> set [0..<8]. n < 32 \<and> (n = i * 2 \<and> P (i * 2) \<or> n = i * 2 + 1 \<and> P (i * 2 + 1))) \<longleftrightarrow> n < (16 :: nat) \<and> P n"
proof
  assume "n < 16 \<and> P n"
  then have "n div 2 \<in> set [0..<8]" "n = n div 2 * 2 \<or> n = n div 2 * 2 + 1" by auto
  with \<open>n < 16 \<and> P n\<close>
  show "\<exists>i \<in> set [0..<8]. n < 32 \<and> (n = i * 2 \<and> P (i * 2) \<or> n = i * 2 + 1 \<and> P (i * 2 + 1))"
    by (intro bexI [of _ "n div 2"]) auto
qed auto

lemma bit_sse_lanes:
  "bit (sse_lanes ids key i) n \<longleftrightarrow> n = 0 \<and> ids ! (2 * i) = key \<or> n = 1 \<and> ids ! (2 * i + 1) = key"
  unfolding sse_lanes_def bit_or_iff lane_bits by (rule refl)

lemma find_way_sse41_eq: "length ids = 16 \<Longrightarrow> find_way_sse41 ids key = position key ids"
  unfolding find_way_sse41_def
proof (rule mask_to_way_position)
  fix n
  have "bit (push_bit (i * 2) (sse_lanes ids key i)) n \<longleftrightarrow>
      n < 32 \<and> (n = i * 2 \<and> ids ! (i * 2) = key \<or> n = i * 2 + 1 \<and> ids ! (i * 2 + 1) = key)" for i
    by (auto simp: bit_push_bit_iff bit_sse_lanes mult.commute)
  then show "bit (foldl (\<lambda>lanes i. lanes OR push_bit (i * 2) (sse_lanes ids key i)) 0 [0..<8]) n \<longleftrightarrow>
      n < 16 \<and> ids ! n = key"
    using pair_lane_iff [of n "\<lambda>j. ids ! j = key"] by (simp only: or_fold_bit) simp
qed

lemma bit_neon_bit: "bit (neon_bit x key) n \<longleftrightarrow> n = 0 \<and> x = key"
  by (auto simp: neon_bit_def bit_1_iff)

lemma find_way_neon_eq: "length ids = 16 \<Longrightarrow> find_way_neon ids key = position key ids"
  unfolding find_way_neon_def
proof (rule mask_to_way_position)
  fix n
  have "bit (push_bit (i * 2) (neon_bit (ids ! (i * 2)) key) OR
          push_bit (i * 2 + 1) (neon_bit (ids ! (i * 2 + 1)) key)) n \<longleftrightarrow>
      n < 32 \<and> (n = i * 2 \<and> ids ! (i * 2) = key \<or> n = i * 2 + 1 \<and> ids ! (i * 2 + 1) = key)" for i
    unfolding bit_or_iff bit_push_bit_iff bit_neon_bit by auto
  then show "bit (foldl (\<lambda>lanes i. lanes OR
         (push_bit (i * 2) (neon_bit (ids ! (i * 2)) key) OR
          push_bit (i * 2 + 1) (neon_bit (ids ! (i * 2 + 1)) key))) 0 [0..<8]) n \<longleftrightarrow>
      n < 16 \<and> ids ! n = key"
    using pair_lane_iff [of n "\<lambda>j. ids ! j = key"] by (simp only: or_fold_bit) simp
qed

text \<open>The three compilations of \<open>find_way\<close>: x86-64 with SSE4.1, AArch64, anything else.\<close>

datatype cpu = X86_sse41 | AArch64 | Portable

definition find_way :: "cpu \<Rightarrow> u64 list \<Rightarrow> u64 \<Rightarrow> nat option" where
  "find_way cpu ids key =
     (case cpu of
        X86_sse41 \<Rightarrow> find_way_sse41 ids key
      | AArch64 \<Rightarrow> find_way_neon ids key
      | Portable \<Rightarrow> position key ids)"

lemma find_way_eq: "length ids = WAYS_PER_SET \<Longrightarrow> find_way cpu ids key = position key ids"
  by (cases cpu) (simp_all add: find_way_def find_way_sse41_eq find_way_neon_eq WAYS_PER_SET_def)

section \<open>Set index and pseudo-LRU\<close>

definition locate :: "u64 \<Rightarrow> nat \<times> nat" where
  "locate key =
     (let hash = key * FIB_MUL;
          meta_idx = unat (drop_bit 4 hash AND (of_nat METADATA_PAGES - 1));
          set_idx = unat (hash AND (of_nat SETS_PER_META - 1))
      in (meta_idx, set_idx))"

definition saturating_dec :: "byte \<Rightarrow> byte" where
  "saturating_dec t = (if t = 0 then 0 else t - 1)"

text \<open>All ages first, the accessed way afterwards; the three compilations agree on this.\<close>

definition update_lru :: "set_metadata \<Rightarrow> nat \<Rightarrow> set_metadata" where
  "update_lru st accessed =
     st\<lparr>timestamps := (map saturating_dec (timestamps st))[accessed := 255]\<rparr>"

text \<open>The loop that picks the victim, from \<open>min_ts = u8::MAX\<close> and \<open>min_w = 0\<close>.\<close>

definition lru_victim :: "byte list \<Rightarrow> nat" where
  "lru_victim ts =
     snd (foldl (\<lambda>(min_ts, min_w) w. if ts ! w < min_ts then (ts ! w, w) else (min_ts, min_w))
            (255, 0) [0..<WAYS_PER_SET])"

section \<open>Operations\<close>

definition upd_set :: "shared_cache \<Rightarrow> nat \<Rightarrow> nat \<Rightarrow> set_metadata \<Rightarrow> shared_cache" where
  "upd_set c m s st =
     c\<lparr>sc_sets := (sc_sets c)(m := (sc_sets c m)(s := st))\<rparr>"

text \<open>\<open>get\<close> returns whether it hit and the caller's buffer.\<close>

definition cache_get :: "cpu \<Rightarrow> shared_cache \<Rightarrow> u64 \<Rightarrow> bytes \<Rightarrow> bool \<times> bytes \<times> shared_cache" where
  "cache_get cpu c key out =
     (if key = EMPTY_KEY then (False, out, c)
      else case locate key of (meta_idx, set_idx) \<Rightarrow>
        let st = sc_sets c meta_idx set_idx
        in case find_way cpu (page_ids st) key of
             None \<Rightarrow> (False, out, c)
           | Some w \<Rightarrow>
               (True, sc_data c (global_slot meta_idx set_idx w),
                upd_set c meta_idx set_idx (update_lru st w)))"

text \<open>The way \<open>put\<close> uses: the key's own, else an empty one, else the victim.\<close>

definition put_way :: "cpu \<Rightarrow> set_metadata \<Rightarrow> u64 \<Rightarrow> nat" where
  "put_way cpu st key =
     (case find_way cpu (page_ids st) key of
        Some w \<Rightarrow> w
      | None \<Rightarrow> (case find_way cpu (page_ids st) EMPTY_KEY of
          Some w \<Rightarrow> w
        | None \<Rightarrow> lru_victim (timestamps st)))"

text \<open>
  The writes of \<open>put\<close>, in the order of the code: the page is copied over the one in the way,
  the way gets its new key, the ages are brought up to date.
\<close>

datatype cache_write =
    CopyPage nat nat nat bytes
  | SetId nat nat nat u64
  | TouchWay nat nat nat

fun exec_write :: "shared_cache \<Rightarrow> cache_write \<Rightarrow> shared_cache" where
  "exec_write c (CopyPage m s way page) = c\<lparr>sc_data := (sc_data c)(global_slot m s way := page)\<rparr>"
| "exec_write c (SetId m s way key) =
     upd_set c m s ((sc_sets c m s)\<lparr>page_ids := (page_ids (sc_sets c m s))[way := key]\<rparr>)"
| "exec_write c (TouchWay m s way) = upd_set c m s (update_lru (sc_sets c m s) way)"

definition put_writes :: "cpu \<Rightarrow> shared_cache \<Rightarrow> u64 \<Rightarrow> bytes \<Rightarrow> cache_write list" where
  "put_writes cpu c key page =
     (if key = EMPTY_KEY then []
      else case locate key of (meta_idx, set_idx) \<Rightarrow>
        let way = put_way cpu (sc_sets c meta_idx set_idx) key
        in [CopyPage meta_idx set_idx way page, SetId meta_idx set_idx way key, TouchWay meta_idx set_idx way])"

definition cache_put :: "cpu \<Rightarrow> shared_cache \<Rightarrow> u64 \<Rightarrow> bytes \<Rightarrow> shared_cache" where
  "cache_put cpu c key page = foldl exec_write c (put_writes cpu c key page)"

text \<open>
  What a process that dies inside a write leaves: a page of which each byte is the old or the
  new one; any ages. The key of a way is one aligned word and is written at once.
\<close>

definition mixed :: "bytes \<Rightarrow> bytes \<Rightarrow> bytes \<Rightarrow> bool" where
  "mixed old new b \<longleftrightarrow> length b = length old \<and> (\<forall>i < length b. b ! i = old ! i \<or> b ! i = new ! i)"

inductive cut_short :: "cache_write \<Rightarrow> shared_cache \<Rightarrow> shared_cache \<Rightarrow> bool" where
  copy: "mixed (sc_data c (global_slot m s way)) page b \<Longrightarrow>
    cut_short (CopyPage m s way page) c (exec_write c (CopyPage m s way b))"
| ages: "length ts = WAYS_PER_SET \<Longrightarrow>
    cut_short (TouchWay m s way) c (upd_set c m s ((sc_sets c m s)\<lparr>timestamps := ts\<rparr>))"

inductive_cases cut_shortE: "cut_short w c c'"

text \<open>The states a process can leave when it dies in \<open>put\<close>: between two writes, or inside one.\<close>

inductive put_killed :: "cache_write list \<Rightarrow> shared_cache \<Rightarrow> shared_cache \<Rightarrow> bool" where
  now: "put_killed ws c c"
| inside: "cut_short w c c' \<Longrightarrow> put_killed (w # ws) c c'"
| later: "put_killed ws (exec_write c w) c' \<Longrightarrow> put_killed (w # ws) c c'"

inductive_cases put_killedE: "put_killed ws c c'"
inductive_simps put_killed_Nil: "put_killed [] c c'"
inductive_simps put_killed_Cons: "put_killed (w # ws) c c'"

section \<open>The identity block, creation and attachment\<close>

text \<open>The NUL-terminated path, read up to \<open>PATH_MAX\<close> bytes.\<close>

definition stored_identity :: "shared_cache \<Rightarrow> bytes" where
  "stored_identity c = takeWhile (\<lambda>b. b \<noteq> 0) (sc_ident c)"

definition write_identity :: "shared_cache \<Rightarrow> bytes \<Rightarrow> shared_cache" where
  "write_identity c path_bytes =
     (let len = min (length path_bytes) PATH_MAX;
          ident = copy_at 0 (take len path_bytes) (sc_ident c)
      in c\<lparr>sc_magic := CACHE_MAGIC, sc_ident := (if len < PATH_MAX then ident[len := 0] else ident)\<rparr>)"

definition verify_identity :: "shared_cache \<Rightarrow> bytes \<Rightarrow> unit res" where
  "verify_identity c expected =
     (if sc_magic c \<noteq> CACHE_MAGIC then Inl (IoErr OtherError)
      else if stored_identity c \<noteq> expected then Inl (IoErr OtherError)
      else Inr ())"

text \<open>\<open>init_metadata\<close> clears the metadata pages, empties every set and writes the identity.\<close>

definition empty_set :: set_metadata where
  "empty_set = \<lparr>page_ids = replicate WAYS_PER_SET EMPTY_KEY, timestamps = replicate WAYS_PER_SET 0\<rparr>"

definition init_metadata :: "shared_cache \<Rightarrow> bytes \<Rightarrow> shared_cache" where
  "init_metadata c identity =
     write_identity
       (c\<lparr>sc_magic := 0, sc_ident := replicate PATH_MAX 0,
          sc_sets := (\<lambda>m s. if m < METADATA_PAGES \<and> s < SETS_PER_META then empty_set else sc_sets c m s)\<rparr>)
       identity"

text \<open>A file that \<open>ftruncate\<close> has extended reads as zeros beyond its old end.\<close>

definition zero_set :: set_metadata where
  "zero_set = \<lparr>page_ids = replicate WAYS_PER_SET 0, timestamps = replicate WAYS_PER_SET 0\<rparr>"

definition zero_cache :: shared_cache where
  "zero_cache = \<lparr>sc_sets = (\<lambda>_ _. zero_set), sc_data = (\<lambda>_. replicate CACHE_PAGE_SIZE 0),
     sc_magic = 0, sc_ident = replicate PATH_MAX 0\<rparr>"

text \<open>A cache file: its length and the region it maps to (zeros where the file is shorter).\<close>

record cache_file =
  cf_size :: nat
  cf_region :: shared_cache

definition cache_create :: "cache_file option \<Rightarrow> bytes \<Rightarrow> cache_file" where
  "cache_create file identity =
     (let (size, region) = (case file of None \<Rightarrow> (0, zero_cache) | Some f \<Rightarrow> (cf_size f, cf_region f));
          needs_init = size < TOTAL_BYTES;
          doit = needs_init \<or> (case verify_identity region identity of Inl _ \<Rightarrow> True | Inr _ \<Rightarrow> False)
      in \<lparr>cf_size = max size TOTAL_BYTES,
          cf_region = (if doit then init_metadata region identity else region)\<rparr>)"

definition cache_open :: "cache_file option \<Rightarrow> bytes \<Rightarrow> shared_cache res" where
  "cache_open file identity =
     (case file of
        None \<Rightarrow> Inl (IoErr OtherError)
      | Some f \<Rightarrow>
          if cf_size f < TOTAL_BYTES then Inl (IoErr OtherError)
          else rbind (verify_identity (cf_region f) identity) (\<lambda>_. Inr (cf_region f)))"

section \<open>The hash selects a set inside the region\<close>

lemma locate_bounds:
  assumes "locate key = (m, s)"
  shows "m < METADATA_PAGES" "s < SETS_PER_META"
proof -
  have "unat (drop_bit 4 (key * FIB_MUL) AND mask 9) < 512" for key
    using and_mask_less_size [of 9 "drop_bit 4 (key * FIB_MUL)"] by (simp add: word_less_nat_alt word_size)
  moreover have "unat (key * FIB_MUL AND mask 4) < 16" for key
    using and_mask_less_size [of 4 "key * FIB_MUL"] by (simp add: word_less_nat_alt word_size)
  moreover have "(of_nat METADATA_PAGES - 1 :: u64) = mask 9" "(of_nat SETS_PER_META - 1 :: u64) = mask 4"
    by (simp_all add: layout_defs mask_eq_exp_minus_1)
  ultimately show "m < METADATA_PAGES" "s < SETS_PER_META"
    using assms by (auto simp: locate_def layout_defs Let_def)
qed

lemma global_slot_inject:
  assumes "s < SETS_PER_META" "w < WAYS_PER_SET" "s' < SETS_PER_META" "w' < WAYS_PER_SET"
  shows "global_slot m s w = global_slot m' s' w' \<longleftrightarrow> m = m' \<and> s = s' \<and> w = w'"
proof -
  have eq: "global_slot m s w = (m * 16 + s) * 16 + w" for m s w
    by (simp add: global_slot_def layout_defs algebra_simps)
  have "a * 16 + w = b * 16 + w' \<longleftrightarrow> a = b \<and> w = w'" if "w < 16" "w' < 16" for a b w w' :: nat
    using that by presburger
  then show ?thesis
    using assms by (simp only: eq SETS_PER_META_def WAYS_PER_SET_def) blast
qed

lemma global_slot_bound:
  assumes "m < METADATA_PAGES" "s < SETS_PER_META" "w < WAYS_PER_SET"
  shows "global_slot m s w < TOTAL_SLOTS"
  using assms by (auto simp: global_slot_def layout_defs)

lemma slot_coords_global_slot:
  assumes "s < SETS_PER_META" "w < WAYS_PER_SET"
  shows "slot_coords (global_slot m s w) = (m, s, w)"
proof -
  have "(m * 256 + s * 16 + w) mod 256 = s * 16 + w"
    using assms by (simp add: layout_defs add.assoc mod_mult_self4)
  with assms show ?thesis
    by (simp add: slot_coords_def global_slot_def layout_defs Let_def)
qed

text \<open>The hash keeps 13 low bits of a product, so it sees 13 low bits of the key only.\<close>

lemma locate_take_bit: "locate key = locate (take_bit 13 key)"
proof -
  define h where "h = key * FIB_MUL"
  define h' where "h' = take_bit 13 key * FIB_MUL"
  have "take_bit 13 h = take_bit 13 h'"
    unfolding h_def h'_def by (rule word_take_bit_mult [symmetric])
  then have bits: "bit h n = bit h' n" if "n < 13" for n
    using that by (metis bit_take_bit_iff)
  have "drop_bit 4 h AND mask 9 = drop_bit 4 h' AND mask 9"
    by (rule bit_word_eqI) (auto simp: bit_simps bits)
  moreover have "h AND mask 4 = h' AND mask 4"
    by (rule bit_word_eqI) (auto simp: bit_simps bits)
  moreover have "(of_nat METADATA_PAGES - 1 :: u64) = mask 9" "(of_nat SETS_PER_META - 1 :: u64) = mask 4"
    by (simp_all add: layout_defs mask_eq_exp_minus_1)
  ultimately show ?thesis
    by (simp add: locate_def Let_def flip: h_def h'_def)
qed

lemma take_bit_encode_key: "take_bit 13 (encode_key pa s) = ucast (take_bit 13 s)"
  by (rule bit_word_eqI) (auto simp: bit_encode_key bit_simps)

lemma locate_same_snapshot: "locate (encode_key pa s) = locate (encode_key pa' s)"
  by (subst (1 2) locate_take_bit) (simp only: take_bit_encode_key)

section \<open>The age of a way\<close>

lemma length_update_lru [simp]:
  "length (timestamps (update_lru st w)) = length (timestamps st)"
  "page_ids (update_lru st w) = page_ids st"
  by (simp_all add: update_lru_def)

lemma unat_saturating_dec: "unat (saturating_dec t) = unat t - 1"
  by (simp add: saturating_dec_def unat_minus_one)

text \<open>
  After the accesses \<open>ws\<close> to a cleared set, the timestamp of a way is 255 less the number
  of accesses since its last one, stopping at 0.
\<close>

definition age_after :: "nat list \<Rightarrow> nat \<Rightarrow> nat" where
  "age_after ws w = (if w \<in> set ws then 255 - length (takeWhile (\<lambda>v. v \<noteq> w) (rev ws)) else 0)"

lemma age_after_snoc:
  "age_after (ws @ [v]) w = (if v = w then 255 else age_after ws w - 1)"
  by (auto simp: age_after_def)

lemma timestamps_after:
  assumes "\<forall>w \<in> set ws. w < WAYS_PER_SET" and "w < WAYS_PER_SET"
  shows "unat (timestamps (foldl update_lru empty_set ws) ! w) = age_after ws w"
proof -
  have "length (timestamps (foldl update_lru empty_set ws)) = WAYS_PER_SET \<and>
      (\<forall>w < WAYS_PER_SET. unat (timestamps (foldl update_lru empty_set ws) ! w) = age_after ws w)"
    using assms(1)
  proof (induction ws rule: rev_induct)
    case Nil
    then show ?case by (simp add: empty_set_def age_after_def)
  next
    case (snoc v ws)
    then show ?case
      by (auto simp: age_after_snoc update_lru_def nth_list_update unat_saturating_dec)
  qed
  with assms(2) show ?thesis by blast
qed

text \<open>The victim has the least timestamp, and the lowest index among those.\<close>

lemma victim_fold:
  fixes ts :: "byte list"
  assumes "foldl (\<lambda>(min_ts, min_w) w. if ts ! w < min_ts then (ts ! w, w) else (min_ts, min_w))
      (255, 0) [0..<n] = (t, w)"
  shows "(\<forall>v < n. t \<le> ts ! v) \<and> (w = 0 \<and> t = 255 \<or> w < n \<and> t = ts ! w) \<and> (\<forall>v < w. t < ts ! v)"
  using assms
proof (induction n arbitrary: t w)
  case (Suc n)
  obtain t' w' where prev: "foldl (\<lambda>(min_ts, min_w) w. if ts ! w < min_ts then (ts ! w, w) else (min_ts, min_w))
      (255, 0) [0..<n] = (t', w')" by fastforce
  note IH = Suc.IH [OF prev]
  show ?case
  proof (cases "ts ! n < t'")
    case True
    with Suc.prems prev have "t = ts ! n" "w = n" by auto
    with IH True show ?thesis by (auto simp: less_Suc_eq intro: less_imp_le less_le_trans)
  next
    case False
    with Suc.prems prev have "t = t'" "w = w'" by auto
    with IH False show ?thesis by (auto simp: less_Suc_eq not_less)
  qed
qed auto

lemma byte_max [simp]: "(b :: byte) \<le> 255"
proof -
  have "unat b < 256" using unsigned_less [of b, where ?'a = nat] by simp
  then show ?thesis by (simp add: word_le_nat_alt)
qed

lemma lru_victim_least:
  shows "lru_victim ts < WAYS_PER_SET"
    and "\<And>v. v < WAYS_PER_SET \<Longrightarrow> ts ! lru_victim ts \<le> ts ! v"
    and "\<And>v. v < lru_victim ts \<Longrightarrow> ts ! lru_victim ts < ts ! v"
proof -
  obtain t w where tw: "foldl (\<lambda>(min_ts, min_w) w. if ts ! w < min_ts then (ts ! w, w) else (min_ts, min_w))
      (255, 0) [0..<WAYS_PER_SET] = (t, w)" by fastforce
  then have w: "lru_victim ts = w" by (simp add: lru_victim_def)
  note inv = victim_fold [OF tw]
  then show "lru_victim ts < WAYS_PER_SET"
    unfolding w by (auto simp: WAYS_PER_SET_def)
  show "ts ! lru_victim ts \<le> ts ! v" if "v < WAYS_PER_SET" for v
  proof (cases "t = ts ! w")
    case True
    with inv that show ?thesis unfolding w by auto
  next
    case False
    with inv that have "255 \<le> ts ! v" by auto
    then show ?thesis by (rule order_trans [OF byte_max])
  qed
  show "ts ! lru_victim ts < ts ! v" if "v < lru_victim ts" for v
    using inv that unfolding w by auto
qed

section \<open>The invariant and what a cache holds\<close>

text \<open>
  A set is well formed when it has 16 ways and no key twice; a cache is well formed when
  each of its sets is, every key sits in the set it hashes to and every slot holds a page.
\<close>

definition set_ok :: "set_metadata \<Rightarrow> bool" where
  "set_ok st \<longleftrightarrow> length (page_ids st) = WAYS_PER_SET \<and> length (timestamps st) = WAYS_PER_SET \<and>
     distinct (filter (\<lambda>k. k \<noteq> EMPTY_KEY) (page_ids st))"

definition cache_ok :: "shared_cache \<Rightarrow> bool" where
  "cache_ok c \<longleftrightarrow>
     (\<forall>m < METADATA_PAGES. \<forall>s < SETS_PER_META. set_ok (sc_sets c m s) \<and>
        (\<forall>k \<in> set (page_ids (sc_sets c m s)). k \<noteq> EMPTY_KEY \<longrightarrow> locate k = (m, s))) \<and>
     (\<forall>slot < TOTAL_SLOTS. length (sc_data c slot) = CACHE_PAGE_SIZE)"

text \<open>The abstract content: the finite map from keys to pages.\<close>

definition cache_lookup :: "shared_cache \<Rightarrow> u64 \<Rightarrow> bytes option" where
  "cache_lookup c key =
     (if key = EMPTY_KEY then None
      else case locate key of (m, s) \<Rightarrow>
        map_option (\<lambda>w. sc_data c (global_slot m s w)) (position key (page_ids (sc_sets c m s))))"

lemma distinct_filter_nth:
  "distinct (filter P xs) \<Longrightarrow> i < length xs \<Longrightarrow> j < length xs \<Longrightarrow> xs ! i = xs ! j \<Longrightarrow> P (xs ! i) \<Longrightarrow> i = j"
proof (induction xs arbitrary: i j)
  case (Cons x xs)
  show ?case
  proof (cases i)
    case 0
    then show ?thesis
    proof (cases j)
      case (Suc j')
      with Cons.prems 0 show ?thesis by (auto split: if_splits)
    qed simp
  next
    case (Suc i')
    then show ?thesis
    proof (cases j)
      case 0
      with Cons.prems Suc show ?thesis by (auto split: if_splits dest!: nth_mem)
    next
      case Suc': (Suc j')
      with Suc Cons.prems Cons.IH [of i' j'] show ?thesis by (auto split: if_splits)
    qed
  qed
qed simp

lemma position_unique:
  assumes "distinct (filter (\<lambda>k. k \<noteq> e) xs)" "w < length xs" "xs ! w = k" "k \<noteq> e"
  shows "position k xs = Some w"
  using assms distinct_filter_nth [OF assms(1) _ assms(2)]
  unfolding position_Some_iff by (metis order.strict_trans order.irrefl)

lemma distinct_filter_update:
  assumes "distinct (filter (\<lambda>x. x \<noteq> e) xs)" "w < length xs" "k \<notin> set xs \<or> xs ! w = k"
  shows "distinct (filter (\<lambda>x. x \<noteq> e) (xs[w := k]))"
  using assms
proof (induction xs arbitrary: w)
  case (Cons x xs)
  have sub: "set (xs[v := k]) \<subseteq> insert k (set xs)" for v by (rule set_update_subset_insert)
  show ?case
  proof (cases w)
    case 0
    with Cons.prems show ?thesis by (auto split: if_splits)
  next
    case (Suc v)
    with Cons have IH: "distinct (filter (\<lambda>x. x \<noteq> e) (xs[v := k]))" by (auto split: if_splits)
    have "x \<noteq> k \<or> x = e" if "k \<in> set xs" "xs ! v = k"
      using Cons.prems(1) that by (auto split: if_splits)
    moreover have "x \<noteq> k \<or> k \<in> set xs" using Cons.prems(2,3) Suc by auto
    ultimately have "x = e \<or> x \<notin> set (xs[v := k])"
      using sub Cons.prems Suc by (auto split: if_splits)
    with IH Suc show ?thesis by auto
  qed
qed simp

lemma cache_okD:
  assumes "cache_ok c" "locate key = (m, s)"
  shows "set_ok (sc_sets c m s)"
    and "k \<in> set (page_ids (sc_sets c m s)) \<Longrightarrow> k \<noteq> EMPTY_KEY \<Longrightarrow> locate k = (m, s)"
  using assms locate_bounds [OF assms(2)] by (auto simp: cache_ok_def)

lemma put_way_bound:
  assumes "set_ok st"
  shows "put_way cpu st key < WAYS_PER_SET"
  using assms lru_victim_least(1)
  by (auto simp: put_way_def find_way_eq set_ok_def position_Some_iff split: option.splits)

text \<open>A key that is in the set is written in place, so no key ever occurs twice.\<close>

lemma put_way_place:
  assumes "set_ok st"
  shows "key \<notin> set (page_ids st) \<or> page_ids st ! put_way cpu st key = key"
  using assms
  by (auto simp: put_way_def find_way_eq set_ok_def position_Some_iff position_None_iff split: option.splits)

lemma set_ok_update_lru: "set_ok st \<Longrightarrow> set_ok (update_lru st w)"
  by (simp add: set_ok_def)

lemma set_ok_write:
  assumes "set_ok st" "w = put_way cpu st key"
  shows "set_ok (st\<lparr>page_ids := (page_ids st)[w := key]\<rparr>)"
  using assms put_way_bound [OF assms(1)] put_way_place [OF assms(1)]
  by (simp add: set_ok_def distinct_filter_update)

lemma upd_set_simps [simp]:
  "sc_data (upd_set c m s st) = sc_data c"
  "sc_sets (upd_set c m s st) m' s' = (if m' = m \<and> s' = s then st else sc_sets c m' s')"
  by (simp_all add: upd_set_def)

lemma lookup_touch:
  "cache_lookup (upd_set c m s (update_lru (sc_sets c m s) w)) k = cache_lookup c k"
  by (auto simp: cache_lookup_def split: prod.splits)

lemma cache_get_eq:
  assumes "cache_ok c"
  shows "cache_get cpu c key out =
    (case cache_lookup c key of
       None \<Rightarrow> (False, out, c)
     | Some page \<Rightarrow> (True, page, snd (snd (cache_get cpu c key out))))"
proof (cases "locate key")
  case (Pair m s)
  with cache_okD(1) [OF assms Pair] show ?thesis
    by (auto simp: cache_get_def cache_lookup_def find_way_eq set_ok_def Let_def split: option.splits)
qed

lemma cache_get_state:
  "snd (snd (cache_get cpu c key out)) = c \<or>
   (\<exists>m s w. locate key = (m, s) \<and>
      snd (snd (cache_get cpu c key out)) = upd_set c m s (update_lru (sc_sets c m s) w))"
proof (cases "locate key")
  case (Pair m s)
  then show ?thesis
    by (cases "find_way cpu (page_ids (sc_sets c m s)) key")
      (auto simp: cache_get_def Let_def)
qed

lemma cache_get_lookup: "cache_lookup (snd (snd (cache_get cpu c key out))) k = cache_lookup c k"
  using cache_get_state [of cpu c key out] by (auto simp: lookup_touch)

lemma cache_ok_touch:
  "cache_ok c \<Longrightarrow> cache_ok (upd_set c m s (update_lru (sc_sets c m s) w))"
  by (auto simp: cache_ok_def set_ok_update_lru)

lemma cache_get_ok: "cache_ok c \<Longrightarrow> cache_ok (snd (snd (cache_get cpu c key out)))"
  using cache_get_state [of cpu c key out] by (auto simp: cache_ok_touch)

lemma position_update_other:
  assumes "k \<noteq> k'" "w < length xs" "distinct (filter (\<lambda>x. x \<noteq> e) xs)" "k \<noteq> e"
  shows "position k (xs[w := k']) = (if position k xs = Some w then None else position k xs)"
proof (cases "position k xs")
  case None
  then have "k \<notin> set (xs[w := k'])"
    using assms(1) set_update_subset_insert [of xs w k'] by (auto simp: position_None_iff)
  then have "position k (xs[w := k']) = None" by (simp add: position_None_iff)
  with None show ?thesis by simp
next
  case (Some i)
  show ?thesis
  proof (cases "i = w")
    case True
    have "xs ! j \<noteq> k" if "j < length xs" "j \<noteq> w" for j
      using position_unique [OF assms(3) that(1) refl] that Some True assms(4) by auto
    then have "k \<notin> set (xs[w := k'])"
      using assms(1) by (auto simp: in_set_conv_nth) (metis nth_list_update_eq nth_list_update_neq)
    then have "position k (xs[w := k']) = None" by (simp add: position_None_iff)
    with Some True show ?thesis by simp
  next
    case False
    with Some assms(1,2) have "position k (xs[w := k']) = Some i"
      by (auto simp: position_Some_iff nth_list_update)
    with Some False show ?thesis by simp
  qed
qed

text \<open>What each write of a \<open>put\<close> does to the content.\<close>

lemma write_page:
  assumes "cache_ok c" "m < METADATA_PAGES" "s < SETS_PER_META" "w < WAYS_PER_SET" "length page = CACHE_PAGE_SIZE"
  shows "cache_ok (exec_write c (CopyPage m s w page))"
  using assms by (auto simp: cache_ok_def)

lemma write_page_lookup:
  assumes "cache_ok c" "s < SETS_PER_META" "w < WAYS_PER_SET"
  shows "cache_lookup (exec_write c (CopyPage m s w page)) k =
    (if k \<noteq> EMPTY_KEY \<and> locate k = (m, s) \<and> position k (page_ids (sc_sets c m s)) = Some w then Some page else cache_lookup c k)"
proof (cases "k = EMPTY_KEY")
  case False
  obtain m' s' where ms': "locate k = (m', s')" by fastforce
  have pos: "i < WAYS_PER_SET" if "position k (page_ids (sc_sets c m' s')) = Some i" for i
    using that cache_okD(1) [OF assms(1) ms'] by (simp add: position_Some_iff set_ok_def)
  have slots: "global_slot m' s' i = global_slot m s w \<longleftrightarrow> m' = m \<and> s' = s \<and> i = w" if "i < WAYS_PER_SET" for i
    using that assms(2,3) locate_bounds(2) [OF ms'] by (intro global_slot_inject)
  show ?thesis
  proof (cases "position k (page_ids (sc_sets c m' s'))")
    case None
    with ms' False show ?thesis by (auto simp: cache_lookup_def)
  next
    case (Some i)
    with ms' False slots [OF pos [OF Some]] show ?thesis by (auto simp: cache_lookup_def)
  qed
qed (simp add: cache_lookup_def)

lemma write_id:
  assumes ok: "cache_ok c" and ms: "locate key = (m, s)" and w: "w < WAYS_PER_SET"
    and place: "key \<notin> set (page_ids (sc_sets c m s)) \<or> page_ids (sc_sets c m s) ! w = key"
  shows "cache_ok (exec_write c (SetId m s w key))"
proof -
  let ?st = "sc_sets c m s"
  have st: "set_ok ?st" by (rule cache_okD(1) [OF ok ms])
  then have "set_ok (?st\<lparr>page_ids := (page_ids ?st)[w := key]\<rparr>)"
    using w place by (simp add: set_ok_def distinct_filter_update)
  moreover have "k \<in> set ((page_ids ?st)[w := key]) \<Longrightarrow> k \<noteq> EMPTY_KEY \<Longrightarrow> locate k = (m, s)" for k
    using set_update_subset_insert [of "page_ids ?st" w key] cache_okD(2) [OF ok ms, of k] ms by auto
  ultimately show ?thesis using cache_ok_def [THEN iffD1, OF ok] by (simp add: cache_ok_def)
qed

lemma write_id_lookup:
  assumes ok: "set_ok (sc_sets c m s)" and ms: "locate key = (m, s)" and w: "w < WAYS_PER_SET" and key: "key \<noteq> EMPTY_KEY"
    and place: "key \<notin> set (page_ids (sc_sets c m s)) \<or> page_ids (sc_sets c m s) ! w = key"
  shows "cache_lookup (exec_write c (SetId m s w key)) k =
    (if k = key then Some (sc_data c (global_slot m s w))
     else if locate k = (m, s) \<and> position k (page_ids (sc_sets c m s)) = Some w then None
     else cache_lookup c k)"
proof -
  let ?ids = "page_ids (sc_sets c m s)"
  have st: "length ?ids = WAYS_PER_SET" "distinct (filter (\<lambda>k. k \<noteq> EMPTY_KEY) ?ids)"
    using ok by (auto simp: set_ok_def)
  have "distinct (filter (\<lambda>k. k \<noteq> EMPTY_KEY) (?ids[w := key]))"
    using st w place by (intro distinct_filter_update) simp_all
  then have own: "position key (?ids[w := key]) = Some w"
    by (rule position_unique) (use st w key in simp_all)
  show ?thesis
  proof (cases "k = EMPTY_KEY \<or> k = key")
    case True
    with own key ms show ?thesis by (auto simp: cache_lookup_def)
  next
    case False
    have "position k (?ids[w := key]) = (if position k ?ids = Some w then None else position k ?ids)"
      using False w st by (intro position_update_other [where e = EMPTY_KEY]) simp_all
    with False show ?thesis by (auto simp: cache_lookup_def split: prod.split)
  qed
qed

lemma write_ages:
  assumes "length ts = WAYS_PER_SET"
  shows "cache_ok c \<Longrightarrow> cache_ok (upd_set c m s ((sc_sets c m s)\<lparr>timestamps := ts\<rparr>))"
    and "cache_lookup (upd_set c m s ((sc_sets c m s)\<lparr>timestamps := ts\<rparr>)) k = cache_lookup c k"
  using assms by (auto simp: cache_ok_def set_ok_def cache_lookup_def split: prod.splits)

lemma put_way_fits:
  assumes "cache_ok c" "locate key = (m, s)" "w = put_way cpu (sc_sets c m s) key"
  shows "m < METADATA_PAGES" "s < SETS_PER_META" "w < WAYS_PER_SET"
    and "key \<notin> set (page_ids (sc_sets c m s)) \<or> page_ids (sc_sets c m s) ! w = key"
  using locate_bounds [OF assms(2)] put_way_bound put_way_place cache_okD(1) [OF assms(1,2)] assms(3) by blast+

lemma cache_put_writes:
  assumes "key \<noteq> EMPTY_KEY" "locate key = (m, s)" "w = put_way cpu (sc_sets c m s) key"
  shows "cache_put cpu c key page =
    exec_write (exec_write (exec_write c (CopyPage m s w page)) (SetId m s w key)) (TouchWay m s w)"
  using assms by (simp add: cache_put_def put_writes_def Let_def)

lemma cache_put_ok:
  assumes "cache_ok c" "length page = CACHE_PAGE_SIZE"
  shows "cache_ok (cache_put cpu c key page)"
proof (cases "key = EMPTY_KEY")
  case True
  with assms show ?thesis by (simp add: cache_put_def put_writes_def)
next
  case False
  obtain m s where ms: "locate key = (m, s)" by fastforce
  define w where "w = put_way cpu (sc_sets c m s) key"
  note fit = put_way_fits [OF assms(1) ms w_def]
  let ?c = "exec_write c (CopyPage m s w page)"
  have "cache_ok ?c" by (rule write_page [OF assms(1) fit(1-3) assms(2)])
  moreover have "sc_sets ?c m s = sc_sets c m s" by simp
  ultimately have "cache_ok (exec_write ?c (SetId m s w key))" using write_id [of ?c, OF _ ms fit(3)] fit(4) by simp
  then show ?thesis unfolding cache_put_writes [OF False ms w_def] by (simp add: cache_ok_touch del: upd_set_simps)
qed

lemma cache_put_lookup:
  assumes "cache_ok c" "key \<noteq> EMPTY_KEY" "locate key = (m, s)" "w = put_way cpu (sc_sets c m s) key"
  shows "cache_lookup (cache_put cpu c key page) k =
    (if k = key then Some page
     else if locate k = (m, s) \<and> position k (page_ids (sc_sets c m s)) = Some w then None
     else cache_lookup c k)"
proof -
  note fit = put_way_fits [OF assms(1,3,4)]
  let ?c = "exec_write c (CopyPage m s w page)"
  have "set_ok (sc_sets ?c m s)" using cache_okD(1) [OF assms(1,3)] by simp
  note id = write_id_lookup [of ?c, OF this assms(3) fit(3) assms(2), of k]
  show ?thesis
    unfolding cache_put_writes [OF assms(2,3,4)] exec_write.simps(3) lookup_touch
    using id fit(4) write_page_lookup [OF assms(1) fit(2,3), of m page k] by (auto simp: cache_lookup_def)
qed

section \<open>A put that does not end\<close>

lemma mixed_ends: "mixed q p q" "length p = length q \<Longrightarrow> mixed q p p"
  by (simp_all add: mixed_def)

lemma cut_short_same:
  "cut_short (SetId m s w k) c c' \<Longrightarrow> False"
  "cut_short (TouchWay m s w) c c' \<Longrightarrow> cache_lookup c' k = cache_lookup c k"
  "cut_short (TouchWay m s w) c c' \<Longrightarrow> cache_ok c \<Longrightarrow> cache_ok c'"
  by (auto elim!: cut_shortE simp: write_ages)

text \<open>The way still has its old key, over a mixture of the two pages, or the \<open>put\<close> is visible.\<close>

lemma put_killed_states:
  assumes ok: "cache_ok c" and key: "key \<noteq> EMPTY_KEY" "locate key = (m, s)" "w = put_way cpu (sc_sets c m s) key"
    and page: "length page = CACHE_PAGE_SIZE" and kill: "put_killed (put_writes cpu c key page) c c'"
  shows "cache_ok c' \<and> ((\<exists>b. mixed (sc_data c (global_slot m s w)) page b \<and> c' = exec_write c (CopyPage m s w b)) \<or>
    (\<forall>k. cache_lookup c' k = cache_lookup (cache_put cpu c key page) k))"
proof -
  note fit = put_way_fits [OF ok key(2,3)]
  let ?q = "sc_data c (global_slot m s w)"
  let ?c1 = "exec_write c (CopyPage m s w page)"
  let ?c2 = "exec_write ?c1 (SetId m s w key)"
  let ?c3 = "exec_write ?c2 (TouchWay m s w)"
  have q: "length ?q = CACHE_PAGE_SIZE" using ok global_slot_bound [OF fit(1-3)] by (simp add: cache_ok_def)
  have copied: "cache_ok (exec_write c (CopyPage m s w b))" if "mixed ?q page b" for b
    using that q by (intro write_page [OF ok fit(1-3)]) (simp add: mixed_def)
  have ok1: "cache_ok ?c1" by (rule write_page [OF ok fit(1-3) page])
  have ok2: "cache_ok ?c2" using write_id [of ?c1, OF ok1 key(2) fit(3)] fit(4) by simp
  have put: "cache_put cpu c key page = ?c3" by (rule cache_put_writes [OF key])
  have ok3: "cache_ok ?c3" using cache_put_ok [OF ok page, of cpu key] put by simp
  have same: "cache_lookup ?c3 k = cache_lookup ?c2 k" for k unfolding exec_write.simps(3) [of ?c2] by (rule lookup_touch)
  have "put_writes cpu c key page = [CopyPage m s w page, SetId m s w key, TouchWay m s w]"
    using key by (simp add: put_writes_def Let_def)
  with kill consider "c' = c" | "cut_short (CopyPage m s w page) c c'" | "c' = ?c1" | "c' = ?c2"
    | "cut_short (TouchWay m s w) ?c2 c'" | "c' = ?c3"
    by (auto simp del: exec_write.simps simp: put_killed_Cons put_killed_Nil dest: cut_short_same(1))
  then show ?thesis
  proof cases
    case 1
    then have "c' = exec_write c (CopyPage m s w ?q)" by simp
    with ok 1 mixed_ends(1) show ?thesis by blast
  next
    case 2
    then obtain b where "mixed ?q page b" "c' = exec_write c (CopyPage m s w b)" by (auto elim: cut_shortE)
    with copied show ?thesis by blast
  next
    case 3
    with ok1 mixed_ends(2) [of page ?q] page q show ?thesis by auto
  next
    case 4
    with ok2 same put show ?thesis by metis
  next
    case 5
    with cut_short_same(2,3) [OF 5] ok2 same put show ?thesis by metis
  next
    case 6
    with ok3 put show ?thesis by metis
  qed
qed

lemma put_killed_mixture:
  assumes "key \<noteq> EMPTY_KEY" "locate key = (m, s)" "w = put_way cpu (sc_sets c m s) key"
    and "mixed (sc_data c (global_slot m s w)) page b"
  shows "put_killed (put_writes cpu c key page) c (exec_write c (CopyPage m s w b))"
  using assms by (simp add: put_writes_def Let_def put_killed.inside cut_short.copy del: exec_write.simps)

section \<open>The contract of a page cache\<close>

text \<open>
  What a client may rely on: a hit returns the page held for the key, a lookup does not
  change what is held, a write makes the key's page visible and can only forget others.
\<close>

locale page_cache =
  fixes get :: "'c \<Rightarrow> u64 \<Rightarrow> bytes \<Rightarrow> bool \<times> bytes \<times> 'c"
    and put :: "'c \<Rightarrow> u64 \<Rightarrow> bytes \<Rightarrow> 'c"
    and held :: "'c \<Rightarrow> u64 \<Rightarrow> bytes option"
    and inv :: "'c \<Rightarrow> bool"
  assumes get_hit: "inv c \<Longrightarrow> get c k out = (True, p, c') \<Longrightarrow> held c k = Some p"
    and get_miss: "inv c \<Longrightarrow> get c k out = (False, p, c') \<Longrightarrow> p = out \<and> held c k = None"
    and get_state: "inv c \<Longrightarrow> get c k out = (b, p, c') \<Longrightarrow> inv c' \<and> held c' = held c"
    and put_inv: "inv c \<Longrightarrow> length p = PAGE_SIZE \<Longrightarrow> inv (put c k p)"
    and put_held: "inv c \<Longrightarrow> held (put c k p) k' = Some q \<Longrightarrow> k' = k \<and> q = p \<or> held c k' = Some q"
begin

text \<open>Coherence with the content of an immutable store.\<close>

definition coherent :: "(u64 \<Rightarrow> bytes \<Rightarrow> bool) \<Rightarrow> 'c \<Rightarrow> bool" where
  "coherent content c \<longleftrightarrow> inv c \<and> (\<forall>k p. held c k = Some p \<longrightarrow> content k p)"

lemma coherent_hit:
  "coherent content c \<Longrightarrow> get c k out = (True, p, c') \<Longrightarrow> content k p"
  using get_hit unfolding coherent_def by blast

lemma coherent_get:
  "coherent content c \<Longrightarrow> get c k out = (b, p, c') \<Longrightarrow> coherent content c'"
  using get_state unfolding coherent_def by metis

lemma coherent_put:
  "coherent content c \<Longrightarrow> length p = PAGE_SIZE \<Longrightarrow> content k p \<Longrightarrow> coherent content (put c k p)"
  unfolding coherent_def by (metis put_inv put_held)

lemma coherent_mono:
  "coherent content c \<Longrightarrow> (\<And>k p. content k p \<Longrightarrow> content' k p) \<Longrightarrow> coherent content' c"
  unfolding coherent_def by blast

end

lemma CACHE_PAGE_SIZE_eq: "CACHE_PAGE_SIZE = PAGE_SIZE"
  by (simp add: CACHE_PAGE_SIZE_def PAGE_SIZE_def)

lemma cache_put_held:
  assumes "cache_ok c" "cache_lookup (cache_put cpu c k p) k' = Some q"
  shows "k' = k \<and> q = p \<or> cache_lookup c k' = Some q"
proof (cases "k = EMPTY_KEY")
  case True
  with assms(2) show ?thesis by (simp add: cache_put_def put_writes_def)
next
  case False
  obtain m s where ms: "locate k = (m, s)" by fastforce
  from assms(2) show ?thesis
    unfolding cache_put_lookup [OF assms(1) False ms refl] by (auto split: if_splits)
qed

interpretation shm: page_cache "cache_get cpu" "cache_put cpu" cache_lookup cache_ok for cpu
proof unfold_locales
  fix c c' :: shared_cache and k :: u64 and out p :: bytes
  assume ok: "cache_ok c"
  note get = cache_get_eq [OF ok, of cpu k out]
  show "cache_get cpu c k out = (True, p, c') \<Longrightarrow> cache_lookup c k = Some p"
    using get by (cases "cache_lookup c k") auto
  show "cache_get cpu c k out = (False, p, c') \<Longrightarrow> p = out \<and> cache_lookup c k = None"
    using get by (cases "cache_lookup c k") auto
  show "cache_ok c' \<and> cache_lookup c' = cache_lookup c" if "cache_get cpu c k out = (b, p, c')" for b
    using that cache_get_ok [OF ok, of cpu k out] cache_get_lookup [of cpu c k out] by auto
  show "length p = PAGE_SIZE \<Longrightarrow> cache_ok (cache_put cpu c k p)"
    using cache_put_ok [OF ok] by (simp add: CACHE_PAGE_SIZE_eq)
  show "cache_lookup (cache_put cpu c k p) k' = Some q \<Longrightarrow> k' = k \<and> q = p \<or> cache_lookup c k' = Some q" for k' q
    by (rule cache_put_held [OF ok])
qed

section \<open>Sequences of operations\<close>

text \<open>
  Each operation holds the lock of its set, so the operations of all attached processes
  form one sequence of atomic steps.
\<close>

datatype cache_op = GetOp u64 | PutOp u64 bytes

fun cache_step :: "cpu \<Rightarrow> shared_cache \<Rightarrow> cache_op \<Rightarrow> shared_cache" where
  "cache_step cpu c (GetOp k) = snd (snd (cache_get cpu c k []))"
| "cache_step cpu c (PutOp k p) = cache_put cpu c k p"

definition run_cache :: "cpu \<Rightarrow> shared_cache \<Rightarrow> cache_op list \<Rightarrow> shared_cache" where
  "run_cache cpu = foldl (cache_step cpu)"

definition ops_write :: "(u64 \<Rightarrow> bytes \<Rightarrow> bool) \<Rightarrow> cache_op list \<Rightarrow> bool" where
  "ops_write content ops \<longleftrightarrow> (\<forall>k p. PutOp k p \<in> set ops \<longrightarrow> length p = PAGE_SIZE \<and> content k p)"

lemma run_cache_coherent:
  "shm.coherent content c \<Longrightarrow> ops_write content ops \<Longrightarrow> shm.coherent content (run_cache cpu c ops)"
proof (induction ops arbitrary: c)
  case (Cons op ops)
  have "shm.coherent content (cache_step cpu c op)"
  proof (cases op)
    case (GetOp k)
    then show ?thesis
      using shm.coherent_get [OF Cons.prems(1), of cpu k "[]"] by (cases "cache_get cpu c k []") auto
  next
    case (PutOp k p)
    with Cons.prems show ?thesis by (simp add: shm.coherent_put ops_write_def)
  qed
  moreover have "ops_write content ops" using Cons.prems by (simp add: ops_write_def)
  ultimately show ?case using Cons.IH by (simp add: run_cache_def)
qed (simp add: run_cache_def)

section \<open>Creating and attaching\<close>

lemma cache_ok_init:
  assumes "\<forall>slot < TOTAL_SLOTS. length (sc_data c slot) = CACHE_PAGE_SIZE"
  shows "cache_ok (init_metadata c identity)" "cache_lookup (init_metadata c identity) k = None"
proof -
  have sets: "sc_sets (init_metadata c identity) m s = empty_set"
    if "m < METADATA_PAGES" "s < SETS_PER_META" for m s
    using that by (simp add: init_metadata_def write_identity_def Let_def)
  show "cache_ok (init_metadata c identity)"
    using assms sets
    by (auto simp: cache_ok_def set_ok_def empty_set_def init_metadata_def write_identity_def Let_def)
  show "cache_lookup (init_metadata c identity) k = None"
    using locate_bounds sets
    by (auto simp: cache_lookup_def empty_set_def position_None_iff split: prod.splits)
qed

lemma stored_identity_init:
  assumes "0 \<notin> set identity"
  shows "stored_identity (init_metadata c identity) = take PATH_MAX identity"
proof -
  have "stored_identity (init_metadata c identity) =
      takeWhile (\<lambda>b. b \<noteq> 0) (copy_at 0 (take PATH_MAX identity) (replicate PATH_MAX 0))"
    by (auto simp: stored_identity_def init_metadata_def write_identity_def Let_def copy_at_def
        list_update_append min_def
        list_update_same_conv [THEN iffD2])
  also have "\<dots> = take PATH_MAX identity"
    using assms by (auto simp: copy_at_def takeWhile_append dest: in_set_takeD)
  finally show ?thesis .
qed

section \<open>Properties\<close>

text \<open>C16: on every target the vector searches find the same way as the scalar scan:
  the lowest way that holds the key, or none.\<close>

theorem find_way_lowest:
  assumes "length ids = WAYS_PER_SET"
  shows "find_way cpu ids key = find_way Portable ids key \<and>
    (find_way cpu ids key = None \<longleftrightarrow> key \<notin> set ids) \<and>
    (\<forall>w. find_way cpu ids key = Some w \<longrightarrow> w < WAYS_PER_SET \<and> ids ! w = key \<and> (\<forall>v < w. ids ! v \<noteq> key))"
  using assms by (auto simp: find_way_eq position_None_iff position_Some_iff)

theorem find_way_lowest_witness:
  "find_way X86_sse41 [9, 3, 7, 7, 1, 2, 8, 8, 8, 8, 8, 8, 8, 8, 8, 8] 7 = Some 2"
proof -
  have "length [9, 3, 7, 7, 1, 2, 8, 8, 8, 8, 8, 8, 8, 8, 8, 8 :: u64] = WAYS_PER_SET"
    by (simp add: WAYS_PER_SET_def)
  from find_way_lowest [OF this, of X86_sse41 7] show ?thesis
    by (simp add: find_way_def)
qed

text \<open>C39: every set's 192 bytes and every slot's page lie in the mapping, clear of
  each other, of the mutex and of the identity block, and the slot number decodes to its
  coordinates.\<close>

theorem cache_layout_disjoint:
  assumes "m < METADATA_PAGES" "s < SETS_PER_META" "w < WAYS_PER_SET"
    and "m' < METADATA_PAGES" "s' < SETS_PER_META" "w' < WAYS_PER_SET"
  shows "m * CACHE_PAGE_SIZE + SETS_OFFSET \<le> set_ptr m s \<and>
    set_ptr m s + SET_STRIDE \<le> m * CACHE_PAGE_SIZE + ID_OFFSET \<and>
    ID_OFFSET + 8 + PATH_MAX = CACHE_PAGE_SIZE \<and>
    ((m, s) = (m', s') \<or> set_ptr m s + SET_STRIDE \<le> set_ptr m' s' \<or> set_ptr m' s' + SET_STRIDE \<le> set_ptr m s) \<and>
    METADATA_BYTES \<le> data_ptr (global_slot m s w) \<and>
    data_ptr (global_slot m s w) + CACHE_PAGE_SIZE \<le> TOTAL_BYTES \<and>
    ((m, s, w) = (m', s', w') \<or>
      data_ptr (global_slot m s w) + CACHE_PAGE_SIZE \<le> data_ptr (global_slot m' s' w') \<or>
      data_ptr (global_slot m' s' w') + CACHE_PAGE_SIZE \<le> data_ptr (global_slot m s w)) \<and>
    slot_coords (global_slot m s w) = (m, s, w)"
proof (intro conjI)
  show "(m, s) = (m', s') \<or> set_ptr m s + SET_STRIDE \<le> set_ptr m' s' \<or> set_ptr m' s' + SET_STRIDE \<le> set_ptr m s"
  proof (cases "m = m'")
    case True
    then show ?thesis by (cases s s' rule: linorder_cases) (auto simp: set_ptr_def layout_defs)
  next
    case False
    then have "m < m' \<or> m' < m" by arith
    with assms show ?thesis by (auto simp: set_ptr_def layout_defs)
  qed
  show "data_ptr (global_slot m s w) + CACHE_PAGE_SIZE \<le> TOTAL_BYTES"
    using global_slot_bound [OF assms(1-3)] by (simp add: data_ptr_def layout_defs)
  show "(m, s, w) = (m', s', w') \<or>
      data_ptr (global_slot m s w) + CACHE_PAGE_SIZE \<le> data_ptr (global_slot m' s' w') \<or>
      data_ptr (global_slot m' s' w') + CACHE_PAGE_SIZE \<le> data_ptr (global_slot m s w)"
    using global_slot_inject [OF assms(2,3,5,6), of m m']
    by (cases "global_slot m s w < global_slot m' s' w'") (auto simp: data_ptr_def CACHE_PAGE_SIZE_def)
qed (use assms in \<open>auto simp: set_ptr_def data_ptr_def layout_defs slot_coords_global_slot\<close>)

theorem cache_layout_disjoint_witness:
  "data_ptr (global_slot 511 15 15) + CACHE_PAGE_SIZE \<le> TOTAL_BYTES \<and> slot_coords (global_slot 511 15 15) = (511, 15, 15)"
proof -
  have b: "511 < METADATA_PAGES" "15 < SETS_PER_META" "15 < WAYS_PER_SET"
    by (simp_all add: layout_defs)
  from cache_layout_disjoint [OF b b] show ?thesis by blast
qed

text \<open>The hash looks at 13 bits of the key, all of them bits of the snapshot number,
  so every page of a snapshot competes for the 16 ways of one set: a well-formed cache never
  holds more than 16 pages of a snapshot, whatever its 131072 slots.\<close>

theorem snapshot_one_set:
  assumes "cache_ok c"
  shows "finite {pa. unat pa < 2 ^ 45 \<and> cache_lookup c (encode_key pa s) \<noteq> None} \<and>
    card {pa. unat pa < 2 ^ 45 \<and> cache_lookup c (encode_key pa s) \<noteq> None} \<le> WAYS_PER_SET"
proof -
  let ?P = "{pa. unat pa < 2 ^ 45 \<and> cache_lookup c (encode_key pa s) \<noteq> None}"
  obtain m t where mt: "locate (encode_key 0 s) = (m, t)" by fastforce
  let ?ids = "page_ids (sc_sets c m t)"
  have "encode_key pa s \<in> set ?ids" if "pa \<in> ?P" for pa
  proof -
    have "locate (encode_key pa s) = (m, t)" using mt locate_same_snapshot [of pa s 0] by simp
    with that have "position (encode_key pa s) ?ids \<noteq> None"
      by (auto simp: cache_lookup_def split: if_splits)
    then show ?thesis by (simp only: position_None_iff not_not)
  qed
  then have sub: "(\<lambda>pa. encode_key pa s) ` ?P \<subseteq> set ?ids" by blast
  have inj: "inj_on (\<lambda>pa. encode_key pa s) ?P"
    by (rule inj_onI) (metis (mono_tags, lifting) mem_Collect_eq pa_of_encode_key_small)
  have "card (set ?ids) \<le> WAYS_PER_SET"
    using cache_okD(1) [OF assms mt] card_length [of ?ids] by (simp add: set_ok_def)
  then show ?thesis
    using card_inj_on_le [OF inj sub] inj_on_finite [OF inj sub] by simp
qed

theorem snapshot_one_set_witness:
  "card {pa. unat pa < 2 ^ 45 \<and> cache_lookup (init_metadata zero_cache []) (encode_key pa 3) \<noteq> None} \<le> WAYS_PER_SET"
proof -
  have "cache_ok (init_metadata zero_cache [])"
    by (rule cache_ok_init) (simp add: zero_cache_def)
  from snapshot_one_set [OF this, of 3] show ?thesis by blast
qed

text \<open>The page last written for a key in a sequence of operations.\<close>

fun last_write :: "cache_op list \<Rightarrow> u64 \<Rightarrow> bytes option" where
  "last_write [] k = None"
| "last_write (GetOp k' # ops) k = last_write ops k"
| "last_write (PutOp k' p # ops) k =
     (case last_write ops k of Some q \<Rightarrow> Some q | None \<Rightarrow> if k' = k then Some p else None)"

lemma last_write_append:
  "last_write (xs @ ys) k = (case last_write ys k of Some q \<Rightarrow> Some q | None \<Rightarrow> last_write xs k)"
  by (induction xs k rule: last_write.induct) (auto split: option.splits)

lemma run_cache_last:
  assumes "cache_ok c" and "\<And>k. cache_lookup c k = None"
    and "\<forall>k p. PutOp k p \<in> set ops \<longrightarrow> length p = PAGE_SIZE"
  shows "cache_ok (run_cache cpu c ops) \<and>
    (\<forall>k p. cache_lookup (run_cache cpu c ops) k = Some p \<longrightarrow> last_write ops k = Some p)"
  using assms(3)
proof (induction ops rule: rev_induct)
  case Nil
  with assms show ?case by (simp add: run_cache_def)
next
  case (snoc op ops)
  then have IH: "cache_ok (run_cache cpu c ops)"
    "\<And>k p. cache_lookup (run_cache cpu c ops) k = Some p \<Longrightarrow> last_write ops k = Some p"
    by simp_all
  show ?case
  proof (cases op)
    case (GetOp k)
    with IH show ?thesis
      by (simp add: run_cache_def last_write_append cache_get_ok cache_get_lookup)
  next
    case (PutOp k p)
    let ?c = "run_cache cpu c ops"
    have run: "run_cache cpu c (ops @ [op]) = cache_put cpu ?c k p"
      using PutOp by (simp add: run_cache_def)
    have "length p = PAGE_SIZE" using snoc.prems PutOp by simp
    then have "cache_ok (cache_put cpu ?c k p)" using IH(1) by (rule shm.put_inv [rotated])
    moreover have "last_write (ops @ [op]) k' = Some q" if "cache_lookup (cache_put cpu ?c k p) k' = Some q" for k' q
    proof (cases "k' = k")
      case True
      have "k \<noteq> EMPTY_KEY" using that True by (auto simp: cache_lookup_def)
      then show ?thesis
        using that True PutOp cache_put_lookup [OF IH(1) \<open>k \<noteq> EMPTY_KEY\<close> _ refl, of _ _ cpu p k']
        by (cases "locate k") (auto simp: last_write_append)
    next
      case False
      with cache_put_held [OF IH(1) that] IH(2) PutOp show ?thesis by (auto simp: last_write_append)
    qed
    ultimately show ?thesis by (simp add: run)
  qed
qed

text \<open>C18: whatever order the operations of all processes take their locks in, a hit on a
  freshly created cache returns the page of the last \<open>put\<close> of that key, never a page of
  another key or an overwritten one.\<close>

theorem cache_hit_is_last_put:
  assumes "\<forall>k p. PutOp k p \<in> set ops \<longrightarrow> length p = PAGE_SIZE"
    and "cache_get cpu (run_cache cpu (init_metadata zero_cache identity) ops) key out = (True, page, c')"
  shows "last_write ops key = Some page"
proof -
  let ?c = "init_metadata zero_cache identity"
  have zero: "\<forall>slot < TOTAL_SLOTS. length (sc_data zero_cache slot) = CACHE_PAGE_SIZE"
    by (simp add: zero_cache_def)
  have "cache_ok (run_cache cpu ?c ops) \<and>
      (\<forall>k p. cache_lookup (run_cache cpu ?c ops) k = Some p \<longrightarrow> last_write ops k = Some p)"
    by (rule run_cache_last [OF cache_ok_init(1) [OF zero] cache_ok_init(2) [OF zero] assms(1)])
  with shm.get_hit [OF _ assms(2)] show ?thesis by blast
qed

theorem cache_hit_is_last_put_witness:
  "last_write [PutOp 5 (replicate PAGE_SIZE 7), GetOp 6] 5 = Some (replicate PAGE_SIZE 7)"
proof -
  let ?p = "replicate PAGE_SIZE 7" and ?c = "init_metadata zero_cache []"
  let ?c1 = "cache_put Portable ?c 5 ?p"
  let ?c2 = "run_cache Portable ?c [PutOp 5 ?p, GetOp 6]"
  have ok: "cache_ok ?c" by (rule cache_ok_init) (simp add: zero_cache_def)
  have k: "(5 :: u64) \<noteq> EMPTY_KEY" by (simp add: EMPTY_KEY_def)
  have ok1: "cache_ok ?c1" using ok by (rule shm.put_inv) simp
  have c2: "?c2 = snd (snd (cache_get Portable ?c1 6 []))" by (simp add: run_cache_def)
  obtain m s where ms: "locate 5 = (m, s)" by fastforce
  have "cache_lookup ?c1 5 = Some ?p"
    by (simp add: cache_put_lookup [OF ok k ms refl])
  then have "cache_lookup ?c2 5 = Some ?p" by (simp add: c2 cache_get_lookup)
  moreover have "cache_ok ?c2" using ok1 by (simp add: c2 cache_get_ok)
  ultimately have hit: "cache_get Portable ?c2 5 [] = (True, ?p, snd (snd (cache_get Portable ?c2 5 [])))"
    using cache_get_eq [of ?c2 Portable 5 "[]"] by (simp only: option.case)
  have "\<forall>k p. PutOp k p \<in> set [PutOp 5 ?p, GetOp 6] \<longrightarrow> length p = PAGE_SIZE" by simp
  from cache_hit_is_last_put [OF this hit] show ?thesis .
qed

text \<open>How long ago a way was last accessed.\<close>

definition recency :: "nat list \<Rightarrow> nat \<Rightarrow> nat" where
  "recency ws w = length (takeWhile (\<lambda>v. v \<noteq> w) (rev ws))"

lemma recency_inj:
  assumes "w \<in> set ws" "v \<in> set ws" "recency ws w = recency ws v"
  shows "w = v"
proof -
  have "rev ws ! recency ws w = w \<and> recency ws w < length ws" if "w \<in> set ws" for w
  proof -
    have "recency ws w < length (rev ws)"
      using that unfolding recency_def by (intro length_takeWhile_lt [of w]) auto
    then have "\<not> rev ws ! recency ws w \<noteq> w"
      unfolding recency_def by (rule nth_length_takeWhile)
    with \<open>recency ws w < length (rev ws)\<close> show ?thesis by simp
  qed
  with assms show ?thesis by metis
qed

text \<open>C31: the pseudo-LRU ages of a set are the true recency as long as no way has gone 255
  accesses unused: when a full set has to evict for a new key, the way it overwrites is the
  one whose last access lies furthest back.\<close>

theorem put_evicts_least_recent:
  assumes ids: "length (page_ids st) = WAYS_PER_SET" "key \<notin> set (page_ids st)" "EMPTY_KEY \<notin> set (page_ids st)"
    and ts: "timestamps st = timestamps (foldl update_lru empty_set ws)"
    and ws: "\<forall>w \<in> set ws. w < WAYS_PER_SET" "\<forall>w < WAYS_PER_SET. w \<in> set ws \<and> recency ws w < 255"
  shows "put_way cpu st key < WAYS_PER_SET \<and>
    (\<forall>w < WAYS_PER_SET. w \<noteq> put_way cpu st key \<longrightarrow> recency ws w < recency ws (put_way cpu st key))"
proof -
  let ?v = "lru_victim (timestamps st)"
  have v: "put_way cpu st key = ?v"
    using ids position_None_iff [of key "page_ids st"] position_None_iff [of EMPTY_KEY "page_ids st"]
    by (simp add: put_way_def find_way_eq)
  have age: "unat (timestamps st ! w) = 255 - recency ws w" if "w < WAYS_PER_SET" for w
    using timestamps_after [OF ws(1) that] ws(2) that by (simp add: ts age_after_def recency_def)
  have lt: "?v < WAYS_PER_SET" by (rule lru_victim_least)
  have "recency ws w < recency ws ?v" if w: "w < WAYS_PER_SET" "w \<noteq> ?v" for w
  proof -
    have "unat (timestamps st ! ?v) \<le> unat (timestamps st ! w)"
      using lru_victim_least(2) [OF w(1), of "timestamps st"] by (simp add: word_le_nat_alt)
    then have "recency ws w \<le> recency ws ?v"
      using ws(2) w(1) lt by (simp add: age) (metis diff_le_mono2 le_diff_iff' less_imp_le)
    moreover have "recency ws w \<noteq> recency ws ?v"
      using recency_inj [of w ws ?v] ws(2) w lt by blast
    ultimately show ?thesis by simp
  qed
  with lt v show ?thesis by simp
qed

theorem put_evicts_least_recent_witness:
  "put_way AArch64
     ((foldl update_lru empty_set ([3] @ [0..<16]))\<lparr>page_ids := [1, 2, 3, 4, 5, 6, 7, 8, 9, 10, 11, 12, 13, 14, 15, 16]\<rparr>) 99 = 0"
proof -
  let ?ws = "[3] @ [0..<16]"
  let ?st = "(foldl update_lru empty_set ?ws)\<lparr>page_ids := [1, 2, 3, 4, 5, 6, 7, 8, 9, 10, 11, 12, 13, 14, 15, 16]\<rparr>"
  have ids: "length (page_ids ?st) = WAYS_PER_SET" "99 \<notin> set (page_ids ?st)" "EMPTY_KEY \<notin> set (page_ids ?st)"
    by (simp_all add: WAYS_PER_SET_def EMPTY_KEY_def)
  have ts: "timestamps ?st = timestamps (foldl update_lru empty_set ?ws)" by simp
  have "recency ?ws w \<le> 17" for w
    using length_takeWhile_le [of "\<lambda>v. v \<noteq> w" "rev ?ws"] by (simp add: recency_def)
  then have rec: "\<forall>w < WAYS_PER_SET. w \<in> set ?ws \<and> recency ?ws w < 255"
    by (auto simp: WAYS_PER_SET_def intro: le_less_trans [of _ 17])
  have in_range: "\<forall>w \<in> set ?ws. w < WAYS_PER_SET" by (simp add: WAYS_PER_SET_def)
  have oldest: "recency ?ws 0 = 15" by code_simp
  have "\<forall>v \<in> set [0..<16]. recency ?ws v \<le> 15" by code_simp
  then have "recency ?ws v \<le> recency ?ws 0" if "v < WAYS_PER_SET" for v
    using that oldest by (simp add: WAYS_PER_SET_def)
  moreover have "0 < WAYS_PER_SET" by (simp add: WAYS_PER_SET_def)
  ultimately show ?thesis
    using put_evicts_least_recent [OF ids ts in_range rec, of AArch64] by (metis not_le)
qed

text \<open>C40: \<open>put\<close> overwrites the victim's page before it renames the way, and the robust mutex of
  a process that dies in between is marked consistent without repair. When a \<open>put\<close> of a new key
  into a full set is killed, at any moment from its first write to its last, the pages a later
  \<open>get\<close> of the old key can hit with are exactly the mixtures of its own page with the new one,
  byte by byte: its own page, parts of both, or the other page as a whole. Every other key is
  found as before the \<open>put\<close> or as after it.\<close>

theorem torn_put_serves_wrong_page:
  assumes "cache_ok c" "new \<noteq> EMPTY_KEY" "locate new = (m, s)"
    and "new \<notin> set (page_ids (sc_sets c m s))" "EMPTY_KEY \<notin> set (page_ids (sc_sets c m s))"
    and "old = page_ids (sc_sets c m s) ! lru_victim (timestamps (sc_sets c m s))" "cache_lookup c old = Some q"
    and "length page = CACHE_PAGE_SIZE"
  shows "((\<exists>c'. put_killed (put_writes cpu c new page) c c' \<and>
        fst (cache_get cpu' c' old out) \<and> fst (snd (cache_get cpu' c' old out)) = b) \<longleftrightarrow> mixed q page b) \<and>
    (\<forall>c' key. put_killed (put_writes cpu c new page) c c' \<longrightarrow> key \<noteq> old \<longrightarrow>
        cache_lookup c' key \<in> {cache_lookup c key, cache_lookup (cache_put cpu c new page) key})"
proof -
  let ?ids = "page_ids (sc_sets c m s)"
  define w where "w = put_way cpu (sc_sets c m s) new"
  have set: "set_ok (sc_sets c m s)" by (rule cache_okD(1) [OF assms(1,3)])
  have "w = lru_victim (timestamps (sc_sets c m s))"
    using set assms(4,5) by (simp add: w_def put_way_def find_way_eq set_ok_def position_None_iff [THEN iffD2])
  then have old: "?ids ! w = old" using assms(6) by simp
  note fit = put_way_fits [OF assms(1,3) w_def]
  have mem: "old \<in> set ?ids" using old fit(3) set by (auto simp: set_ok_def)
  then have ne: "old \<noteq> EMPTY_KEY" "old \<noteq> new" using assms(4,5) by auto
  have at: "locate old = (m, s)" by (rule cache_okD(2) [OF assms(1,3) mem ne(1)])
  have pos: "position old ?ids = Some w"
    by (rule position_unique [where e = EMPTY_KEY]) (use set fit(3) old ne in \<open>auto simp: set_ok_def\<close>)
  have q: "q = sc_data c (global_slot m s w)" using assms(7) at pos ne by (simp add: cache_lookup_def)
  have copied: "cache_lookup (exec_write c (CopyPage m s w b)) k = (if k = old then Some b else cache_lookup c k)" for b k
    using write_page_lookup [OF assms(1) fit(2,3), of m b k] at pos ne(1) old
    by (auto simp: position_Some_iff)
  have gone: "cache_lookup (cache_put cpu c new page) old = None"
    using cache_put_lookup [OF assms(1-3) w_def, of page old] ne at pos by simp
  have get: "fst (cache_get cpu' c' old out) \<and> fst (snd (cache_get cpu' c' old out)) = b \<longleftrightarrow> cache_lookup c' old = Some b"
    if "cache_ok c'" for c' b
    using cache_get_eq [OF that, of cpu' old out]
    by (cases "cache_get cpu' c' old out"; cases "cache_lookup c' old") (auto simp del: split_paired_Ex)
  note killed = put_killed_states [OF assms(1-3) w_def assms(8)]
  show ?thesis
  proof (intro conjI iffI allI impI)
    assume "\<exists>c'. put_killed (put_writes cpu c new page) c c' \<and> fst (cache_get cpu' c' old out) \<and> fst (snd (cache_get cpu' c' old out)) = b"
    then obtain c' where c': "put_killed (put_writes cpu c new page) c c'" "cache_lookup c' old = Some b"
      using get killed by blast
    from killed [OF c'(1)] consider b' where "mixed q page b'" "c' = exec_write c (CopyPage m s w b')"
      | "cache_lookup c' old = cache_lookup (cache_put cpu c new page) old" unfolding q by blast
    then show "mixed q page b"
    proof cases
      case (1 b')
      then have "b' = b" using c'(2) copied [of b' old] by (simp del: exec_write.simps)
      with 1 show ?thesis by simp
    next
      case 2
      with c'(2) gone show ?thesis by simp
    qed
  next
    assume b: "mixed q page b"
    let ?c = "exec_write c (CopyPage m s w b)"
    have "put_killed (put_writes cpu c new page) c ?c"
      by (rule put_killed_mixture [OF assms(2,3) w_def]) (use b q in simp)
    moreover have "cache_ok ?c" using killed [OF calculation] by (rule conjunct1)
    moreover have "cache_lookup ?c old = Some b" unfolding copied by (rule if_P) (rule refl)
    ultimately have "put_killed (put_writes cpu c new page) c ?c \<and> fst (cache_get cpu' ?c old out) \<and> fst (snd (cache_get cpu' ?c old out)) = b"
      using get [of ?c b] by blast
    then show "\<exists>c'. put_killed (put_writes cpu c new page) c c' \<and> fst (cache_get cpu' c' old out) \<and> fst (snd (cache_get cpu' c' old out)) = b"
      by (rule exI)
  next
    fix c' key
    assume kill: "put_killed (put_writes cpu c new page) c c'" and key: "key \<noteq> old"
    from killed [OF kill] consider b where "c' = exec_write c (CopyPage m s w b)"
      | "\<forall>k. cache_lookup c' k = cache_lookup (cache_put cpu c new page) k" by blast
    then show "cache_lookup c' key \<in> {cache_lookup c key, cache_lookup (cache_put cpu c new page) key}"
      by cases (simp_all only: copied key if_False insert_iff simp_thms)
  qed
qed

text \<open>\<open>create\<close> followed by \<open>open\<close> attaches to a well-formed cache when the
  identity is a path of at most 952 bytes; a longer path is cut on writing, so that the cache
  just created can never be opened.\<close>

theorem create_then_open:
  assumes "0 \<notin> set identity"
    and "\<forall>f. file = Some f \<longrightarrow> cf_size f < TOTAL_BYTES \<and>
      (\<forall>slot < TOTAL_SLOTS. length (sc_data (cf_region f) slot) = CACHE_PAGE_SIZE)"
  shows "if length identity \<le> PATH_MAX
    then \<exists>c. cache_open (Some (cache_create file identity)) identity = Inr c \<and> cache_ok c \<and> (\<forall>k. cache_lookup c k = None)
    else cache_open (Some (cache_create file identity)) identity = Inl (IoErr OtherError)"
proof -
  define region where "region = (case file of None \<Rightarrow> zero_cache | Some f \<Rightarrow> cf_region f)"
  have create: "cf_region (cache_create file identity) = init_metadata region identity"
      "\<not> cf_size (cache_create file identity) < TOTAL_BYTES"
    using assms(2) by (auto simp: cache_create_def region_def split: option.splits)
      (simp add: TOTAL_BYTES_def DATA_BYTES_def METADATA_BYTES_def METADATA_PAGES_def CACHE_PAGE_SIZE_def)
  have "\<forall>slot < TOTAL_SLOTS. length (sc_data region slot) = CACHE_PAGE_SIZE"
    using assms(2) by (auto simp: region_def zero_cache_def split: option.splits)
  note init = cache_ok_init [OF this, of identity]
  have "verify_identity (init_metadata region identity) identity =
      (if length identity \<le> PATH_MAX then Inr () else Inl (IoErr OtherError))"
    using stored_identity_init [OF assms(1), of region]
    by (auto simp: verify_identity_def init_metadata_def write_identity_def Let_def take_all_iff)
  with create init show ?thesis by (simp add: cache_open_def)
qed

theorem create_then_open_witness:
  "\<exists>c. cache_open (Some (cache_create None [0x2F, 0x64])) [0x2F, 0x64] = Inr c \<and> cache_ok c"
proof -
  have "0 \<notin> set [0x2F, 0x64 :: byte]" by simp
  from create_then_open [OF this, of None] show ?thesis
    by (auto simp: PATH_MAX_def CACHE_PAGE_SIZE_def ID_OFFSET_def SETS_OFFSET_def SETS_PER_META_def SET_STRIDE_def)
qed

text \<open>A full set of the same snapshot, for the torn write: 16 pages, then a crash in the 17th.\<close>

definition full_set_cache :: shared_cache where
  "full_set_cache =
     (let c = init_metadata zero_cache []; ms = locate (encode_key 0 1)
      in upd_set c (fst ms) (snd ms)
        \<lparr>page_ids = map (\<lambda>i. encode_key (of_nat i) 1) [0..<16], timestamps = replicate 16 0\<rparr>)"

lemma full_set_ids:
  "map (\<lambda>i. encode_key (of_nat i) 1) [0..<16] =
    map (\<lambda>n. 524288 * n + 1) [0, 1, 2, 3, 4, 5, 6, 7, 8, 9, 10, 11, 12, 13, 14, 15]"
  by (simp add: upt_rec encode_key_def SNAPSHOT_BITS_def SNAPSHOT_MASK_def)

theorem torn_put_serves_wrong_page_witness:
  "\<exists>c'. put_killed (put_writes Portable full_set_cache (encode_key 16 1) (replicate PAGE_SIZE 9)) full_set_cache c' \<and>
     fst (cache_get AArch64 c' (encode_key 0 1) []) \<and>
     fst (snd (cache_get AArch64 c' (encode_key 0 1) [])) = replicate 100 9 @ replicate (PAGE_SIZE - 100) 0 \<and>
     cache_lookup full_set_cache (encode_key 0 1) = Some (replicate PAGE_SIZE 0)"
proof -
  define m s where "m = fst (locate (encode_key 0 1))" and "s = snd (locate (encode_key 0 1))"
  let ?c = full_set_cache
  have ms: "locate (encode_key pa 1) = (m, s)" for pa
    using locate_same_snapshot [of pa 1 0] by (simp add: m_def s_def)
  note bounds = locate_bounds [OF ms [of 0]]
  let ?st = "\<lparr>page_ids = map (\<lambda>i. encode_key (of_nat i) 1) [0..<16], timestamps = replicate 16 0\<rparr>"
  have c: "?c = upd_set (init_metadata zero_cache []) m s ?st"
    by (simp only: full_set_cache_def Let_def m_def s_def)
  have set: "sc_sets ?c m s = ?st" by (simp add: c)
  have zero: "\<forall>slot < TOTAL_SLOTS. length (sc_data zero_cache slot) = CACHE_PAGE_SIZE"
    by (simp add: zero_cache_def)
  have "set_ok (sc_sets ?c m s)"
    unfolding set full_set_ids by (simp add: set_ok_def WAYS_PER_SET_def EMPTY_KEY_def)
  then have ok: "cache_ok ?c"
    using cache_ok_init(1) [OF zero, of "[]"] ms unfolding c cache_ok_def by auto
  have keys: "encode_key 16 1 \<notin> set (page_ids (sc_sets ?c m s))" "EMPTY_KEY \<notin> set (page_ids (sc_sets ?c m s))"
    "encode_key 0 1 = page_ids (sc_sets ?c m s) ! lru_victim (timestamps (sc_sets ?c m s))"
    "position (encode_key 0 1) (page_ids (sc_sets ?c m s)) = Some 0" "encode_key 0 1 \<noteq> EMPTY_KEY" "encode_key 16 1 \<noteq> EMPTY_KEY"
    unfolding set
    by (simp_all add: full_set_ids EMPTY_KEY_def encode_key_def SNAPSHOT_BITS_def SNAPSHOT_MASK_def
        lru_victim_def WAYS_PER_SET_def upt_rec)
  have "sc_data ?c = sc_data zero_cache" by (simp add: c init_metadata_def write_identity_def Let_def)
  then have q: "cache_lookup ?c (encode_key 0 1) = Some (replicate PAGE_SIZE 0)"
    using keys(4,5) ms by (simp add: cache_lookup_def zero_cache_def CACHE_PAGE_SIZE_def PAGE_SIZE_def)
  have page: "length (replicate PAGE_SIZE (9 :: byte)) = CACHE_PAGE_SIZE" by (simp add: CACHE_PAGE_SIZE_eq)
  have "mixed (replicate PAGE_SIZE 0) (replicate PAGE_SIZE 9) (replicate 100 9 @ replicate (PAGE_SIZE - 100) 0)"
    by (auto simp: mixed_def nth_append PAGE_SIZE_def)
  with torn_put_serves_wrong_page [OF ok keys(6) ms keys(1-3) q page, of Portable AArch64 "[]"] q show ?thesis by blast
qed

end
