(* ===== verification/Store.thy ===== *)
theory Store
  imports Index Cache
begin

text \<open>
  The reader of \<open>bxdb-core/src/btree.rs\<close>: opening a database directory in one of its two
  modes, floor and exact queries over either index, reading a chunk from the blob files
  (\<open>decompress_blob_into\<close>, \<open>resolve_uncached\<close>), and the cached single-page lookup
  of \<open>BtreeDb\<close>. The zstd decoder is the parameter \<open>zd\<close>.
\<close>

section \<open>The database directory\<close>

text \<open>
  \<open>index.bxdb\<close>, \<open>chunks.log\<close> and the files \<open>blobs/worker_<id>.blob\<close>; a file that
  does not exist is \<open>None\<close>.
\<close>

record db_dir =
  dd_index :: "bytes option"
  dd_log :: "bytes option"
  dd_blobs :: "byte \<Rightarrow> bytes option"

datatype index_mode = BTree | AppendOnly

text \<open>
  The source of index records: the mapped \<open>index.bxdb\<close> with its number of records, or
  the log with the slot of its lazily built index (\<open>OnceLock\<close>). The files do not change
  while a store has them open.
\<close>

datatype index_source =
    BTreeSource bytes nat
  | AppendOnlySource bytes "lazy_index option"

record page_store =
  ps_source :: index_source
  ps_blobs :: "byte \<Rightarrow> bytes option"
  ps_mode :: index_mode

definition verify_index_header :: "bytes \<Rightarrow> unit res" where
  "verify_index_header file =
     (if length file < HEADER_SIZE then Inl (IoErr InvalidData)
      else if rslice 0 8 file \<noteq> MAGIC_IDX then Inl (IoErr InvalidData)
      else Inr ())"

definition verify_log_header :: "bytes \<Rightarrow> unit res" where
  "verify_log_header file = rbind (read_and_verify_header file MAGIC_LOG) (\<lambda>_. Inr ())"

definition page_store_open :: "db_dir \<Rightarrow> page_store res" where
  "page_store_open dir =
     rbind
       (case dd_index dir of
          Some file \<Rightarrow>
            rbind (verify_index_header file) (\<lambda>_.
              let body_len = length file - HEADER_SIZE
              in if body_len mod FIXED_RECORD_SIZE \<noteq> 0 then Inl (IoErr InvalidData)
                 else Inr (BTreeSource file (body_len div FIXED_RECORD_SIZE), BTree))
        | None \<Rightarrow>
            (case dd_log dir of
               Some log \<Rightarrow> rbind (verify_log_header log) (\<lambda>_. Inr (AppendOnlySource log None, AppendOnly))
             | None \<Rightarrow> Inl (IoErr NotFound)))
       (\<lambda>(source, mode). Inr \<lparr>ps_source = source, ps_blobs = dd_blobs dir, ps_mode = mode\<rparr>)"

definition detect_mode :: "db_dir \<Rightarrow> index_mode res" where
  "detect_mode dir =
     (case dd_index dir of
        Some file \<Rightarrow>
          rbind (peek_magic file) (\<lambda>magic.
            if magic \<noteq> MAGIC_IDX then Inl (IoErr InvalidData) else Inr BTree)
      | None \<Rightarrow>
          (case dd_log dir of
             Some log \<Rightarrow>
               rbind (peek_magic log) (\<lambda>magic.
                 if magic \<noteq> MAGIC_LOG then Inl (IoErr InvalidData) else Inr AppendOnly)
           | None \<Rightarrow> Inl (IoErr NotFound)))"

section \<open>Index queries\<close>

definition ensure_lazy_index :: "bytes \<Rightarrow> lazy_index option \<Rightarrow> lazy_index res" where
  "ensure_lazy_index log slot = (case slot of Some idx \<Rightarrow> Inr idx | None \<Rightarrow> build_lazy_index log)"

text \<open>The state change of \<open>ensure_lazy_index\<close>: a built index stays in the slot.\<close>

definition fill_lazy_index :: "page_store \<Rightarrow> page_store" where
  "fill_lazy_index st =
     (case ps_source st of
        BTreeSource _ _ \<Rightarrow> st
      | AppendOnlySource log slot \<Rightarrow>
          (case ensure_lazy_index log slot of
             Inl _ \<Rightarrow> st
           | Inr idx \<Rightarrow> st\<lparr>ps_source := AppendOnlySource log (Some idx)\<rparr>))"

definition store_floor :: "page_store \<Rightarrow> u64 \<Rightarrow> u32 \<Rightarrow> chunk_record option res" where
  "store_floor st pa snapshot_id =
     (let key = encode_key pa snapshot_id
      in case ps_source st of
           BTreeSource file n \<Rightarrow> floor_mmap file n key pa
         | AppendOnlySource log slot \<Rightarrow>
             rbind (ensure_lazy_index log slot) (\<lambda>idx.
               Inr (floor_sorted (li_keys idx) (li_records idx) key pa)))"

definition exact_lookup :: "page_store \<Rightarrow> u64 \<Rightarrow> chunk_record option res" where
  "exact_lookup st key =
     (case ps_source st of
        BTreeSource file n \<Rightarrow> exact_mmap file n key
      | AppendOnlySource log slot \<Rightarrow>
          rbind (ensure_lazy_index log slot) (\<lambda>idx.
            Inr (exact_sorted (li_keys idx) (li_records idx) key)))"

section \<open>Reading chunks\<close>

text \<open>
  \<open>decompress_to_buffer\<close> writes the decoded bytes to the front of the buffer and returns
  their number; it fails when the frame is corrupt or does not fit.
\<close>

type_synonym decoder = "bytes \<Rightarrow> bytes option"

definition decompress_to_buffer :: "decoder \<Rightarrow> bytes \<Rightarrow> bytes \<Rightarrow> (nat \<times> bytes) res" where
  "decompress_to_buffer zd blob out =
     (case zd blob of
        None \<Rightarrow> Inl (IoErr OtherError)
      | Some d \<Rightarrow>
          if length d \<le> length out then Inr (length d, copy_at 0 d out) else Inl (IoErr OtherError))"

definition decompress_blob_into :: "decoder \<Rightarrow> page_store \<Rightarrow> chunk_record \<Rightarrow> bytes \<Rightarrow> bytes res" where
  "decompress_blob_into zd st rec out =
     (case ps_blobs st (r_worker_id rec) of
        None \<Rightarrow> Inl Panic
      | Some file \<Rightarrow>
          let start = unat (r_offset rec);
              stop = start + unat (r_len rec)
          in if 2 ^ 64 \<le> stop then Inl (IoErr InvalidInput)
             else if length file < stop then Inl (IoErr UnexpectedEof)
             else rbind (decompress_to_buffer zd (rslice start stop file) out) (\<lambda>(written, out).
               if written \<noteq> PAGE_SIZE then Inl (IoErr InvalidData) else Inr out))"

text \<open>
  The delta bytes: \<open>start + len\<close> is plain \<open>usize\<close> addition, which wraps in release
  builds; \<open>get\<close> then rejects the inverted range.
\<close>

definition delta_blob_of :: "page_store \<Rightarrow> chunk_record \<Rightarrow> bytes res" where
  "delta_blob_of st rec =
     (case ps_blobs st (r_worker_id rec) of
        None \<Rightarrow> Inl Panic
      | Some file \<Rightarrow>
          let start = r_offset rec; stop = start + ucast (r_len rec)
          in ok_or (get_range file (unat start) (unat stop)) (IoErr UnexpectedEof))"

definition lookup_base :: "page_store \<Rightarrow> u64 \<Rightarrow> chunk_record res" where
  "lookup_base st key =
     rbind (exact_lookup st key) (\<lambda>r.
     rbind (ok_or r (IoErr InvalidData)) (\<lambda>base_rec.
       if r_kind base_rec \<noteq> Full then Inl (IoErr InvalidData) else Inr base_rec))"

definition resolve_uncached :: "decoder \<Rightarrow> page_store \<Rightarrow> chunk_record \<Rightarrow> bytes \<Rightarrow> bytes res" where
  "resolve_uncached zd st rec out =
     (case r_kind rec of
        Zero \<Rightarrow> Inr (replicate PAGE_SIZE 0)
      | Full \<Rightarrow> decompress_blob_into zd st rec out
      | Delta \<Rightarrow>
          rbind (lookup_base st (r_base_key rec)) (\<lambda>base_rec.
          rbind (decompress_blob_into zd st base_rec out) (\<lambda>out.
          rbind (delta_blob_of st rec) (\<lambda>delta_blob.
            apply_delta_patch_in_place delta_blob out))))"

section \<open>The single-page reader with its cache\<close>

definition DISABLE_SHARED_CACHE :: bool where "DISABLE_SHARED_CACHE = True"

record btree_db =
  bd_store :: page_store
  bd_cache :: "shared_cache option"

text \<open>
  \<open>BtreeDb::open\<close>; the cache file and its identity are those \<open>shm_cache_path\<close> and the
  canonical directory name give.
\<close>

definition btree_db_open :: "db_dir \<Rightarrow> cache_file option \<Rightarrow> bytes \<Rightarrow> btree_db res" where
  "btree_db_open dir cache_file identity =
     rbind (page_store_open dir) (\<lambda>store.
       if DISABLE_SHARED_CACHE then Inr \<lparr>bd_store = store, bd_cache = None\<rparr>
       else rbind (cache_open cache_file identity) (\<lambda>c. Inr \<lparr>bd_store = store, bd_cache = Some c\<rparr>))"

text \<open>\<open>if let Some(ref cache) = self.cache\<close> around \<open>get\<close> and \<open>put\<close>.\<close>

definition opt_get :: "cpu \<Rightarrow> shared_cache option \<Rightarrow> u64 \<Rightarrow> bytes \<Rightarrow> bool \<times> bytes \<times> shared_cache option" where
  "opt_get cpu c key out =
     (case c of
        None \<Rightarrow> (False, out, None)
      | Some c \<Rightarrow> (case cache_get cpu c key out of (hit, out, c) \<Rightarrow> (hit, out, Some c)))"

definition opt_put :: "cpu \<Rightarrow> shared_cache option \<Rightarrow> u64 \<Rightarrow> bytes \<Rightarrow> shared_cache option" where
  "opt_put cpu c key page = map_option (\<lambda>c. cache_put cpu c key page) c"

text \<open>The cache is shared memory: its state survives an error of the lookup.\<close>

definition load_full_cached ::
  "cpu \<Rightarrow> decoder \<Rightarrow> page_store \<Rightarrow> shared_cache option \<Rightarrow> u64 \<Rightarrow> bytes \<Rightarrow> bytes res \<times> shared_cache option" where
  "load_full_cached cpu zd st cache key out =
     (case opt_get cpu cache key out of (hit, out, cache) \<Rightarrow>
        if hit then (Inr out, cache)
        else case rbind (lookup_base st key) (\<lambda>rec. decompress_blob_into zd st rec out) of
            Inl e \<Rightarrow> (Inl e, cache)
          | Inr out \<Rightarrow> (Inr out, opt_put cpu cache key out))"

definition resolve_cached ::
  "cpu \<Rightarrow> decoder \<Rightarrow> page_store \<Rightarrow> shared_cache option \<Rightarrow> chunk_record \<Rightarrow> bytes \<Rightarrow> bytes res \<times> shared_cache option" where
  "resolve_cached cpu zd st cache rec out =
     (case r_kind rec of
        Zero \<Rightarrow> (Inr (replicate PAGE_SIZE 0), cache)
      | Full \<Rightarrow>
          (case opt_get cpu cache (r_key rec) out of (hit, out, cache) \<Rightarrow>
             if hit then (Inr out, cache)
             else case decompress_blob_into zd st rec out of
                 Inl e \<Rightarrow> (Inl e, cache)
               | Inr out \<Rightarrow> (Inr out, opt_put cpu cache (r_key rec) out))
      | Delta \<Rightarrow>
          (case load_full_cached cpu zd st cache (r_base_key rec) out of
             (Inl e, cache) \<Rightarrow> (Inl e, cache)
           | (Inr out, cache) \<Rightarrow>
               (rbind (delta_blob_of st rec) (\<lambda>delta_blob. apply_delta_patch_in_place delta_blob out), cache)))"

text \<open>\<open>load_page\<close>: \<open>None\<close> is the return value \<open>false\<close>, which leaves the buffer alone.\<close>

definition load_page ::
  "cpu \<Rightarrow> decoder \<Rightarrow> btree_db \<Rightarrow> bytes \<Rightarrow> u64 \<Rightarrow> u32 \<Rightarrow> bytes option res \<times> btree_db" where
  "load_page cpu zd db out pa snapshot_id =
     (if MAX_SNAPSHOT_ID < snapshot_id then (Inl (IoErr InvalidInput), db)
      else case store_floor (bd_store db) pa snapshot_id of
          Inl e \<Rightarrow> (Inl e, db)
        | Inr None \<Rightarrow> (Inr None, db)
        | Inr (Some rec) \<Rightarrow>
            (case resolve_cached cpu zd (bd_store db) (bd_cache db) rec out of
               (r, cache) \<Rightarrow> (rbind r (\<lambda>page. Inr (Some page)), db\<lparr>bd_cache := cache\<rparr>)))"

section \<open>A store is a key index\<close>

text \<open>
  The records a store answers from: those of the index file, or those of the log with each
  key once. A store is well formed when its source can be read.
\<close>

definition log_records :: "bytes \<Rightarrow> chunk_record list" where
  "log_records log = (case read_log_records log of Inr rs \<Rightarrow> rs | Inl _ \<Rightarrow> [])"

definition store_records :: "page_store \<Rightarrow> chunk_record list" where
  "store_records st =
     (case ps_source st of
        BTreeSource file n \<Rightarrow> index_records file
      | AppendOnlySource log slot \<Rightarrow> canon r_key (log_records log))"

definition store_ok :: "page_store \<Rightarrow> bool" where
  "store_ok st \<longleftrightarrow>
     (case ps_source st of
        BTreeSource file n \<Rightarrow> index_ok file n
      | AppendOnlySource log slot \<Rightarrow>
          (case read_log_records log of Inl _ \<Rightarrow> False | Inr _ \<Rightarrow> True) \<and>
          (case slot of None \<Rightarrow> True | Some idx \<Rightarrow> build_lazy_index log = Inr idx))"

lemma log_storeE:
  assumes "store_ok st" "ps_source st = AppendOnlySource log slot"
  obtains idx where "ensure_lazy_index log slot = Inr idx" "lazy_ok idx" "li_records idx = store_records st"
proof -
  obtain rs where rs: "read_log_records log = Inr rs"
    using assms by (auto simp: store_ok_def split: sum.splits)
  obtain idx where idx: "build_lazy_index log = Inr idx" "lazy_ok idx" "li_records idx = canon r_key rs"
    using build_lazy_index_ok [OF rs] by blast
  moreover have "store_records st = canon r_key rs"
    using assms(2) rs by (simp add: store_records_def log_records_def)
  moreover have "ensure_lazy_index log slot = Inr idx"
    using assms idx(1) by (cases slot) (auto simp: ensure_lazy_index_def store_ok_def)
  ultimately show thesis using that by simp
qed

lemma store_query:
  assumes "store_ok st"
  shows "store_floor st pa s = Inr (floor_answer (store_records st) (encode_key pa s) pa) \<and>
    exact_lookup st key = Inr (find (\<lambda>r. r_key r = key) (store_records st)) \<and>
    sorted_wrt (<) (map r_key (store_records st))"
proof (cases "ps_source st")
  case (BTreeSource f n)
  with assms have ok: "index_ok f n" by (simp add: store_ok_def)
  then show ?thesis
    using mapped_index.floor_q [of "(f, n)" "encode_key pa s" pa]
      mapped_index.exact_q [of "(f, n)" key] mapped_index.recs_sorted [of "(f, n)"]
    by (simp add: store_floor_def exact_lookup_def store_records_def BTreeSource)
next
  case (AppendOnlySource log slot)
  obtain idx where idx: "ensure_lazy_index log slot = Inr idx" "lazy_ok idx" "li_records idx = store_records st"
    by (rule log_storeE [OF assms AppendOnlySource])
  then show ?thesis
    using lazy.floor_q [OF idx(2), of "encode_key pa s" pa] lazy.exact_q [OF idx(2), of key]
      lazy.recs_sorted [OF idx(2)]
    by (simp add: store_floor_def exact_lookup_def AppendOnlySource Let_def)
qed

text \<open>The interface again, over the 45 bits of a page address that fit a key.\<close>

definition floor_key :: "page_store \<Rightarrow> u64 \<Rightarrow> u64 \<Rightarrow> chunk_record option res" where
  "floor_key st key pa =
     (case ps_source st of
        BTreeSource file n \<Rightarrow> floor_mmap file n key pa
      | AppendOnlySource log slot \<Rightarrow>
          rbind (ensure_lazy_index log slot) (\<lambda>idx.
            Inr (floor_sorted (li_keys idx) (li_records idx) key pa)))"

lemma store_floor_key: "store_floor st pa s = floor_key st (encode_key pa s) pa"
  by (simp add: store_floor_def floor_key_def Let_def)

lemma floor_key_answer:
  assumes "store_ok st"
  shows "floor_key st key pa = Inr (floor_answer (store_records st) key pa)"
proof (cases "ps_source st")
  case (BTreeSource f n)
  with assms show ?thesis
    using mapped_index.floor_q [of "(f, n)" key pa]
    by (simp add: floor_key_def store_records_def store_ok_def)
next
  case (AppendOnlySource log slot)
  obtain idx where idx: "ensure_lazy_index log slot = Inr idx" "lazy_ok idx" "li_records idx = store_records st"
    by (rule log_storeE [OF assms AppendOnlySource])
  then show ?thesis
    using lazy.floor_q [OF idx(2), of key pa] by (simp add: floor_key_def AppendOnlySource)
qed

interpretation store: key_index floor_key exact_lookup store_records store_ok
  by unfold_locales (use store_query floor_key_answer in blast)+

lemma fill_lazy_index_ok:
  assumes "store_ok st"
  shows "store_ok (fill_lazy_index st) \<and> store_records (fill_lazy_index st) = store_records st \<and>
    ps_blobs (fill_lazy_index st) = ps_blobs st"
  using assms
  by (auto simp: fill_lazy_index_def store_ok_def store_records_def ensure_lazy_index_def
      split: index_source.splits sum.splits option.splits)

text \<open>Opening the files a writer produced gives a well-formed store with their records.\<close>

lemma open_index_store:
  assumes "dd_index dir = Some (index_file m rs)" "sorted_wrt (<) (map r_key rs)"
  obtains st where "page_store_open dir = Inr st" "store_ok st" "store_records st = rs"
    "ps_blobs st = dd_blobs dir" "ps_mode st = BTree"
proof
  let ?st = "\<lparr>ps_source = BTreeSource (index_file m rs) (length rs), ps_blobs = dd_blobs dir, ps_mode = BTree\<rparr>"
  have "rslice 0 8 (index_file m rs) = MAGIC_IDX"
    by (simp add: index_file_def write_index_header_def write_header_eq rslice_def)
  then show "page_store_open dir = Inr ?st"
    using assms(1) by (simp add: page_store_open_def verify_index_header_def index_file_def Let_def)
      (simp add: FIXED_RECORD_SIZE_def)
  show "store_ok ?st" using assms(2) by (auto simp: store_ok_def index_ok_def)
qed (simp_all add: store_records_def)

lemma open_log_store:
  assumes "dd_index dir = None" "dd_log dir = Some (log_file m rs)" "\<forall>r \<in> set rs. log_record_ok r"
  obtains st where "page_store_open dir = Inr st" "store_ok st" "store_records st = canon r_key rs"
    "ps_blobs st = dd_blobs dir" "ps_mode st = AppendOnly"
proof
  let ?st = "\<lparr>ps_source = AppendOnlySource (log_file m rs) None, ps_blobs = dd_blobs dir, ps_mode = AppendOnly\<rparr>"
  show "page_store_open dir = Inr ?st"
    using assms by (simp add: page_store_open_def verify_log_header_def log_file_def)
  show "store_ok ?st" using assms by (simp add: store_ok_def)
  show "store_records ?st = canon r_key rs" using assms by (simp add: store_records_def log_records_def)
qed simp_all

section \<open>Chunks decode independently of the buffer\<close>

definition page_of :: "decoder \<Rightarrow> page_store \<Rightarrow> chunk_record \<Rightarrow> bytes res" where
  "page_of zd st rec = resolve_uncached zd st rec (replicate PAGE_SIZE 0)"

definition full_page_of :: "decoder \<Rightarrow> page_store \<Rightarrow> chunk_record \<Rightarrow> bytes res" where
  "full_page_of zd st rec = decompress_blob_into zd st rec (replicate PAGE_SIZE 0)"

lemma decompress_eq:
  assumes "length out = PAGE_SIZE"
  shows "decompress_blob_into zd st rec out = full_page_of zd st rec"
  using assms
  by (auto simp: decompress_blob_into_def full_page_of_def decompress_to_buffer_def Let_def copy_at_def
      split: option.splits)

lemma full_page_length:
  "full_page_of zd st rec = Inr p \<Longrightarrow> length p = PAGE_SIZE"
  by (auto simp: decompress_blob_into_def full_page_of_def decompress_to_buffer_def Let_def
      split: option.splits if_splits)

lemma resolve_uncached_eq:
  "length out = PAGE_SIZE \<Longrightarrow> resolve_uncached zd st rec out = page_of zd st rec"
  by (simp add: resolve_uncached_def page_of_def decompress_eq split: chunk_kind.splits)

text \<open>The cache seen through \<open>Option\<close> keeps the contract of a page cache.\<close>

definition opt_held :: "shared_cache option \<Rightarrow> u64 \<Rightarrow> bytes option" where
  "opt_held c k = (case c of None \<Rightarrow> None | Some c \<Rightarrow> cache_lookup c k)"

definition opt_ok :: "shared_cache option \<Rightarrow> bool" where
  "opt_ok c = (case c of None \<Rightarrow> True | Some c \<Rightarrow> cache_ok c)"

interpretation opt_cache: page_cache "opt_get cpu" "opt_put cpu" opt_held opt_ok for cpu
proof unfold_locales
  fix c c' :: "shared_cache option" and k :: u64 and out p :: bytes
  assume ok: "opt_ok c"
  show "opt_get cpu c k out = (True, p, c') \<Longrightarrow> opt_held c k = Some p"
    using ok shm.get_hit by (auto simp: opt_get_def opt_held_def opt_ok_def split: option.splits prod.splits)
  show "opt_get cpu c k out = (False, p, c') \<Longrightarrow> p = out \<and> opt_held c k = None"
    using ok shm.get_miss by (auto simp: opt_get_def opt_held_def opt_ok_def split: option.splits prod.splits)
  show "opt_ok c' \<and> opt_held c' = opt_held c" if "opt_get cpu c k out = (b, p, c')" for b
    using ok that shm.get_state
    by (auto simp: opt_get_def opt_held_def opt_ok_def fun_eq_iff split: option.splits prod.splits)
  show "length p = PAGE_SIZE \<Longrightarrow> opt_ok (opt_put cpu c k p)"
    using ok shm.put_inv by (auto simp: opt_put_def opt_ok_def split: option.splits)
  show "opt_held (opt_put cpu c k p) k' = Some q \<Longrightarrow> k' = k \<and> q = p \<or> opt_held c k' = Some q" for k' q
    using ok shm.put_held by (auto simp: opt_put_def opt_held_def opt_ok_def split: option.splits)
qed

text \<open>A cached page is the decoded Full chunk of its key.\<close>

definition store_content :: "decoder \<Rightarrow> page_store \<Rightarrow> u64 \<Rightarrow> bytes \<Rightarrow> bool" where
  "store_content zd st k p \<longleftrightarrow>
     (\<exists>rec. exact_lookup st k = Inr (Some rec) \<and> r_kind rec = Full \<and> full_page_of zd st rec = Inr p)"

definition cache_fits :: "decoder \<Rightarrow> page_store \<Rightarrow> shared_cache option \<Rightarrow> bool" where
  "cache_fits zd st c \<longleftrightarrow> opt_cache.coherent (store_content zd st) c"

lemma lookup_base_Full:
  "lookup_base st k = Inr rec \<longleftrightarrow> exact_lookup st k = Inr (Some rec) \<and> r_kind rec = Full"
  by (auto simp: lookup_base_def rbind_eq_Inr_iff ok_or_def split: option.splits if_splits)

lemma store_content_base:
  "store_content zd st k p \<longleftrightarrow> rbind (lookup_base st k) (full_page_of zd st) = Inr p"
  by (auto simp: store_content_def lookup_base_Full rbind_eq_Inr_iff)

lemma opt_get_miss: "opt_get cpu c k out = (False, p, c') \<Longrightarrow> p = out"
  by (auto simp: opt_get_def cache_get_def Let_def split: option.splits prod.splits if_splits)

text \<open>A read through the cache: a hit, or the value \<open>v\<close> computed and written to it.\<close>

lemma read_through:
  assumes "cache_fits zd st c" and v: "f out = v" "\<And>p. v = Inr p \<longleftrightarrow> store_content zd st k p"
  shows "(case opt_get cpu c k out of (hit, out', c') \<Rightarrow>
        if hit then (Inr out', c')
        else case f out' of Inl e \<Rightarrow> (Inl e, c') | Inr p \<Rightarrow> (Inr p, opt_put cpu c' k p)) = (r, c'') \<Longrightarrow>
      r = v \<and> cache_fits zd st c''"
proof -
  obtain b p c' where get: "opt_get cpu c k out = (b, p, c')" by (metis prod_cases3)
  have fits: "opt_cache.coherent (store_content zd st) c'"
    using opt_cache.coherent_get [OF _ get] assms(1) by (simp add: cache_fits_def)
  assume eq: "(case opt_get cpu c k out of (hit, out', c') \<Rightarrow>
        if hit then (Inr out', c')
        else case f out' of Inl e \<Rightarrow> (Inl e, c') | Inr p \<Rightarrow> (Inr p, opt_put cpu c' k p)) = (r, c'')"
  show "r = v \<and> cache_fits zd st c''"
  proof (cases b)
    case True
    with get have "store_content zd st k p"
      using opt_cache.coherent_hit assms(1) by (metis cache_fits_def)
    then have "v = Inr p" by (simp only: v(2))
    with True get fits eq show ?thesis by (simp add: cache_fits_def)
  next
    case False
    then have p: "p = out" using get opt_get_miss by simp
    show ?thesis
    proof (cases v)
      case (Inl e)
      with False get fits eq p v(1) show ?thesis by (simp add: cache_fits_def)
    next
      case (Inr q)
      then have content: "store_content zd st k q" by (simp only: v(2))
      then have "length q = PAGE_SIZE" using full_page_length by (auto simp: store_content_def)
      then have "cache_fits zd st (opt_put cpu c' k q)"
        using opt_cache.coherent_put [OF fits _ content] by (simp add: cache_fits_def)
      with Inr False get eq p v(1) show ?thesis by simp
    qed
  qed
qed

lemma load_full_cached_eq:
  assumes "cache_fits zd st c" "length out = PAGE_SIZE"
    and "load_full_cached cpu zd st c k out = (r, c')"
  shows "r = rbind (lookup_base st k) (full_page_of zd st) \<and> cache_fits zd st c'"
proof (rule read_through [OF assms(1)])
  show "rbind (lookup_base st k) (\<lambda>rec. decompress_blob_into zd st rec out) = rbind (lookup_base st k) (full_page_of zd st)"
    using assms(2) by (simp add: decompress_eq)
  show "(rbind (lookup_base st k) (full_page_of zd st) = Inr p) = store_content zd st k p" for p
    by (simp only: store_content_base)
qed (use assms(3) in \<open>simp add: load_full_cached_def\<close>)

lemma resolve_cached_eq:
  assumes "store_ok st" "rec \<in> set (store_records st)" "cache_fits zd st c" "length out = PAGE_SIZE"
    and res: "resolve_cached cpu zd st c rec out = (r, c')"
  shows "r = page_of zd st rec \<and> cache_fits zd st c'"
proof (cases "r_kind rec")
  case Zero
  with assms show ?thesis by (auto simp: resolve_cached_def page_of_def resolve_uncached_def)
next
  case Full
  have "exact_lookup st (r_key rec) = Inr (Some rec)"
    by (rule store.exact_hit [OF assms(1,2)])
  then have content: "full_page_of zd st rec = Inr p \<longleftrightarrow> store_content zd st (r_key rec) p" for p
    using Full by (auto simp: store_content_def)
  have "r = full_page_of zd st rec \<and> cache_fits zd st c'"
    by (rule read_through [where f = "decompress_blob_into zd st rec", OF assms(3) decompress_eq [OF assms(4)] content])
      (use Full res in \<open>simp add: resolve_cached_def\<close>)
  with Full show ?thesis by (simp add: page_of_def resolve_uncached_def full_page_of_def)
next
  case Delta
  obtain q d where full: "load_full_cached cpu zd st c (r_base_key rec) out = (q, d)" by fastforce
  let ?patch = "\<lambda>out. rbind (delta_blob_of st rec) (\<lambda>delta_blob. apply_delta_patch_in_place delta_blob out)"
  have q: "q = rbind (lookup_base st (r_base_key rec)) (full_page_of zd st)" and d: "cache_fits zd st d"
    using load_full_cached_eq [OF assms(3,4) full] by blast+
  have page: "page_of zd st rec = rbind q ?patch"
    unfolding q using Delta by (simp add: page_of_def resolve_uncached_def rbind_assoc flip: full_page_of_def)
  have "(case q of Inl e \<Rightarrow> (Inl e, d) | Inr out \<Rightarrow> (?patch out, d)) = (r, c')"
    using Delta res full by (simp add: resolve_cached_def)
  then have "r = rbind q ?patch \<and> c' = d" by (cases q) auto
  with page d show ?thesis by simp
qed

text \<open>The answer of a database that neither caches nor fails over: the specification of \<open>load_page\<close>.\<close>

definition read_page :: "decoder \<Rightarrow> page_store \<Rightarrow> u64 \<Rightarrow> u32 \<Rightarrow> bytes option res" where
  "read_page zd st pa s =
     (if MAX_SNAPSHOT_ID < s then Inl (IoErr InvalidInput)
      else rbind (store_floor st pa s) (\<lambda>r.
        case r of None \<Rightarrow> Inr None | Some rec \<Rightarrow> rbind (page_of zd st rec) (\<lambda>p. Inr (Some p))))"

lemma floor_answer_in: "floor_answer rs key pa = Some r \<Longrightarrow> r \<in> set rs"
proof -
  have "length (takeWhile P rs) - 1 < length rs" if "length (takeWhile P rs) \<noteq> 0" for P
    using that length_takeWhile_le [of P rs] by linarith
  then show "floor_answer rs key pa = Some r \<Longrightarrow> r \<in> set rs"
    by (auto simp: floor_answer_def floor_by_def Let_def split: option.splits if_splits intro!: nth_mem)
qed

lemma load_page_eq:
  assumes "store_ok (bd_store db)" "cache_fits zd (bd_store db) (bd_cache db)" "length out = PAGE_SIZE"
    and load: "load_page cpu zd db out pa s = (r, db')"
  shows "r = read_page zd (bd_store db) pa s \<and> bd_store db' = bd_store db \<and>
    cache_fits zd (bd_store db') (bd_cache db')"
proof (cases "MAX_SNAPSHOT_ID < s")
  case True
  with assms show ?thesis by (auto simp: load_page_def read_page_def)
next
  case False
  note floor = conjunct1 [OF store_query [OF assms(1), of pa s]]
  show ?thesis
  proof (cases "floor_answer (store_records (bd_store db)) (encode_key pa s) pa")
    case None
    with False floor assms show ?thesis by (auto simp: load_page_def read_page_def)
  next
    case (Some rec)
    obtain q c' where res: "resolve_cached cpu zd (bd_store db) (bd_cache db) rec out = (q, c')" by fastforce
    from resolve_cached_eq [OF assms(1) floor_answer_in [OF Some] assms(2,3) res] False floor Some load res
    show ?thesis by (auto simp: load_page_def read_page_def)
  qed
qed

section \<open>What a chunk record stands for\<close>

text \<open>
  The meaning of a record over blob files and a set of records, without errors: used to
  carry contents across saves, conversions and purges. It only asks for what the record
  itself refers to, so it survives every change that keeps those bytes and records.
\<close>

type_synonym blobs = "byte \<Rightarrow> bytes option"

definition blob_range :: "blobs \<Rightarrow> chunk_record \<Rightarrow> bytes option" where
  "blob_range bl rec =
     (case bl (r_worker_id rec) of
        None \<Rightarrow> None
      | Some f \<Rightarrow>
          if unat (r_offset rec) + unat (r_len rec) < 2 ^ 64
          then get_range f (unat (r_offset rec)) (unat (r_offset rec) + unat (r_len rec)) else None)"

definition full_at :: "decoder \<Rightarrow> blobs \<Rightarrow> chunk_record \<Rightarrow> bytes \<Rightarrow> bool" where
  "full_at zd bl rec p \<longleftrightarrow> r_kind rec = Full \<and> length p = PAGE_SIZE \<and>
     (\<exists>z. blob_range bl rec = Some z \<and> zd z = Some p)"

definition chunk_at :: "decoder \<Rightarrow> blobs \<Rightarrow> chunk_record set \<Rightarrow> chunk_record \<Rightarrow> bytes \<Rightarrow> bool" where
  "chunk_at zd bl R rec p \<longleftrightarrow>
     (case r_kind rec of
        Zero \<Rightarrow> p = replicate PAGE_SIZE 0
      | Full \<Rightarrow> full_at zd bl rec p
      | Delta \<Rightarrow> \<exists>base q d. base \<in> R \<and> r_key base = r_base_key rec \<and> full_at zd bl base q \<and>
          blob_range bl rec = Some d \<and> apply_delta_patch_in_place d q = Inr p)"

lemma blob_range_mono:
  assumes "blob_range bl rec = Some z" "\<And>f. bl (r_worker_id rec) = Some f \<Longrightarrow> \<exists>g. bl' (r_worker_id rec) = Some (f @ g)"
  shows "blob_range bl' rec = Some z"
proof -
  obtain f where f: "bl (r_worker_id rec) = Some f"
    using assms(1) by (auto simp: blob_range_def split: option.splits)
  obtain g where "bl' (r_worker_id rec) = Some (f @ g)" using assms(2) [OF f] by blast
  with f assms(1) show ?thesis by (auto simp: blob_range_def get_range_append split: if_splits)
qed

text \<open>Blob files that only grow, and records that are only added, keep every meaning.\<close>

definition blobs_grow :: "blobs \<Rightarrow> blobs \<Rightarrow> bool" where
  "blobs_grow bl bl' \<longleftrightarrow> (\<forall>w f. bl w = Some f \<longrightarrow> (\<exists>g. bl' w = Some (f @ g)))"

lemma blobs_grow_refl [wf_intros]: "blobs_grow bl bl"
  by (auto simp: blobs_grow_def intro: exI [of _ "[]"])

lemma blobs_grow_trans: "blobs_grow a b \<Longrightarrow> blobs_grow b c \<Longrightarrow> blobs_grow a c"
  unfolding blobs_grow_def by (metis append.assoc)

lemma full_at_grow: "full_at zd bl rec p \<Longrightarrow> blobs_grow bl bl' \<Longrightarrow> full_at zd bl' rec p"
  unfolding full_at_def blobs_grow_def by (metis blob_range_mono)

lemma chunk_at_grow:
  assumes "chunk_at zd bl R rec p" "blobs_grow bl bl'" "R \<subseteq> R'"
  shows "chunk_at zd bl' R' rec p"
proof (cases "r_kind rec")
  case Delta
  with assms(1) obtain base q d where base: "base \<in> R" "r_key base = r_base_key rec" "full_at zd bl base q"
    "blob_range bl rec = Some d" "apply_delta_patch_in_place d q = Inr p"
    by (auto simp: chunk_at_def)
  moreover have "blob_range bl' rec = Some d"
    by (rule blob_range_mono [OF base(4)]) (use assms(2) in \<open>simp add: blobs_grow_def\<close>)
  ultimately show ?thesis
    using Delta assms(3) full_at_grow [OF base(3) assms(2)] base by (auto simp: chunk_at_def)
qed (use assms full_at_grow in \<open>auto simp: chunk_at_def\<close>)

lemma full_at_page:
  assumes "r_kind rec = Full"
  shows "full_page_of zd st rec = Inr p \<longleftrightarrow> full_at zd (ps_blobs st) rec p"
  using assms
  by (auto simp: full_page_of_def decompress_blob_into_def full_at_def blob_range_def get_range_def
      decompress_to_buffer_def Let_def copy_at_def rbind_eq_Inr_iff split: option.splits if_splits)

lemma delta_blob_range: "delta_blob_of st rec = Inr d \<longleftrightarrow> blob_range (ps_blobs st) rec = Some d"
proof (cases "ps_blobs st (r_worker_id rec)")
  case (Some f)
  let ?a = "unat (r_offset rec)" and ?n = "unat (r_len rec)"
  have "unat (r_offset rec + ucast (r_len rec)) = (?a + ?n) mod 2 ^ 64"
    by (simp add: unat_word_ariths)
  moreover have "?n < 2 ^ 32" "?a < 2 ^ 64"
    using unsigned_less [of "r_len rec", where ?'a = nat] unsigned_less [of "r_offset rec", where ?'a = nat] by simp_all
  then have "(?a + ?n) mod 2 ^ 64 < ?a" if "\<not> ?a + ?n < 2 ^ 64"
    using that by (simp add: mod_if) arith
  ultimately show ?thesis
    using Some by (auto simp: delta_blob_of_def blob_range_def get_range_def Let_def ok_or_def split: option.splits if_splits)
qed (simp add: delta_blob_of_def blob_range_def)

lemma page_of_iff:
  assumes "store_ok st"
  shows "page_of zd st rec = Inr p \<longleftrightarrow> chunk_at zd (ps_blobs st) (set (store_records st)) rec p"
proof (cases "r_kind rec")
  case Delta
  have base: "lookup_base st (r_base_key rec) = Inr b \<longleftrightarrow>
      b \<in> set (store_records st) \<and> r_key b = r_base_key rec \<and> r_kind b = Full" for b
    using store.exact_hit [OF assms, of b] store.exact_q [OF assms, of "r_base_key rec"] find_eq_Some
    by (force simp: lookup_base_Full)
  show ?thesis
    using Delta
    by (auto simp: page_of_def resolve_uncached_def chunk_at_def rbind_eq_Inr_iff base delta_blob_range
        full_at_page simp flip: full_page_of_def) (auto simp: full_at_def full_at_page)
qed (auto simp: page_of_def resolve_uncached_def chunk_at_def full_at_page simp flip: full_page_of_def)

section \<open>Properties\<close>

text \<open>Requests of several processes on one database, with the processor each runs on.\<close>

fun load_pages :: "decoder \<Rightarrow> btree_db \<Rightarrow> (cpu \<times> bytes \<times> u64 \<times> u32) list \<Rightarrow> bytes option res list" where
  "load_pages zd db [] = []"
| "load_pages zd db ((cpu, out, pa, s) # reqs) =
     (case load_page cpu zd db out pa s of (r, db) \<Rightarrow> r # load_pages zd db reqs)"

lemma load_pages_eq:
  assumes "store_ok st" "cache_fits zd st c" "\<forall>(cpu, out, pa, s) \<in> set reqs. length out = PAGE_SIZE"
  shows "load_pages zd \<lparr>bd_store = st, bd_cache = c\<rparr> reqs = map (\<lambda>(cpu, out, pa, s). read_page zd st pa s) reqs"
  using assms(2,3)
proof (induction reqs arbitrary: c)
  case (Cons a reqs)
  obtain cpu out pa s where a: "a = (cpu, out, pa, s)" by (cases a)
  obtain r db' where load: "load_page cpu zd \<lparr>bd_store = st, bd_cache = c\<rparr> out pa s = (r, db')" by fastforce
  have "r = read_page zd st pa s \<and> bd_store db' = st \<and> cache_fits zd st (bd_cache db')"
    using load_page_eq [OF _ _ _ load] assms(1) Cons.prems a by auto
  then obtain c' where "r = read_page zd st pa s" "db' = \<lparr>bd_store = st, bd_cache = c'\<rparr>" "cache_fits zd st c'"
    by (cases db') auto
  with Cons a load show ?case by simp
qed simp

text \<open>The shared cache is transparent: any sequence of page loads, from processes on any
  processors and with any output buffers, gives through a cache whose entries are chunks of
  this database (one just created, or none) the answers of the database without a cache.\<close>

theorem cached_loads_are_uncached:
  assumes "store_ok st" "cache_fits zd st c" "\<forall>(cpu, out, pa, s) \<in> set reqs. length out = PAGE_SIZE"
  shows "load_pages zd \<lparr>bd_store = st, bd_cache = c\<rparr> reqs = load_pages zd \<lparr>bd_store = st, bd_cache = None\<rparr> reqs \<and>
    (\<forall>identity. cache_fits zd st (Some (init_metadata zero_cache identity)))"
proof -
  have "cache_fits zd st None"
    by (simp add: cache_fits_def opt_cache.coherent_def opt_ok_def opt_held_def)
  then have "load_pages zd \<lparr>bd_store = st, bd_cache = c\<rparr> reqs = load_pages zd \<lparr>bd_store = st, bd_cache = None\<rparr> reqs"
    using assms by (simp add: load_pages_eq)
  moreover have "\<forall>slot < TOTAL_SLOTS. length (sc_data zero_cache slot) = CACHE_PAGE_SIZE"
    by (simp add: zero_cache_def)
  then have "cache_fits zd st (Some (init_metadata zero_cache identity))" for identity
    using cache_ok_init [of zero_cache identity]
    by (simp add: cache_fits_def opt_cache.coherent_def opt_ok_def opt_held_def)
  ultimately show ?thesis by blast
qed

theorem cached_loads_are_uncached_witness:
  "load_pages Some \<lparr>bd_store = \<lparr>ps_source = BTreeSource (index_file 0 [new_zero 0]) 1, ps_blobs = (\<lambda>_. None), ps_mode = BTree\<rparr>,
       bd_cache = Some (init_metadata zero_cache [])\<rparr> [(Portable, replicate PAGE_SIZE 1, 0, 0), (AArch64, replicate PAGE_SIZE 2, 5, 0)] =
     load_pages Some \<lparr>bd_store = \<lparr>ps_source = BTreeSource (index_file 0 [new_zero 0]) 1, ps_blobs = (\<lambda>_. None), ps_mode = BTree\<rparr>,
       bd_cache = None\<rparr> [(Portable, replicate PAGE_SIZE 1, 0, 0), (AArch64, replicate PAGE_SIZE 2, 5, 0)]"
proof -
  let ?st = "\<lparr>ps_source = BTreeSource (index_file 0 [new_zero 0]) 1, ps_blobs = (\<lambda>_. None), ps_mode = BTree\<rparr>"
  let ?reqs = "[(Portable, replicate PAGE_SIZE 1, 0, 0), (AArch64, replicate PAGE_SIZE 2, 5, 0)]"
  have "index_ok (index_file 0 [new_zero 0]) 1"
    unfolding index_ok_def by (intro exI [of _ 0] exI [of _ "[new_zero 0]"]) simp
  then have ok: "store_ok ?st" by (simp add: store_ok_def)
  have none: "cache_fits Some ?st None"
    by (simp add: cache_fits_def opt_cache.coherent_def opt_ok_def opt_held_def)
  have reqs: "\<forall>(cpu, out, pa, s) \<in> set ?reqs. length out = PAGE_SIZE" by simp
  have "cache_fits Some ?st (Some (init_metadata zero_cache []))"
    using cached_loads_are_uncached [OF ok none reqs] by blast
  from cached_loads_are_uncached [OF ok this reqs] show ?thesis by (rule conjunct1)
qed

text \<open>Building the lazy index is invisible: the store with the index in its slot answers
  every floor query, exact query and chunk as the store that has not built it yet, also when
  the log does not decode.\<close>

theorem lazy_index_memo:
  "store_floor (fill_lazy_index st) pa s = store_floor st pa s \<and>
    exact_lookup (fill_lazy_index st) k = exact_lookup st k \<and>
    resolve_uncached zd (fill_lazy_index st) rec out = resolve_uncached zd st rec out"
proof -
  have floor: "store_floor (fill_lazy_index st) pa s = store_floor st pa s"
    and exact: "exact_lookup (fill_lazy_index st) k = exact_lookup st k" for k
    by (auto simp: fill_lazy_index_def store_floor_def exact_lookup_def ensure_lazy_index_def
        split: index_source.splits sum.splits option.splits)
  have "ps_blobs (fill_lazy_index st) = ps_blobs st"
    by (simp add: fill_lazy_index_def split: index_source.splits sum.splits)
  then have "decompress_blob_into zd (fill_lazy_index st) = decompress_blob_into zd st"
    "delta_blob_of (fill_lazy_index st) = delta_blob_of st" "lookup_base (fill_lazy_index st) = lookup_base st"
    by (simp_all add: fun_eq_iff decompress_blob_into_def delta_blob_of_def lookup_base_def exact)
  with floor exact show ?thesis by (simp add: resolve_uncached_def cong: chunk_kind.case_cong)
qed

text \<open>A directory that opens is in the mode \<open>detect_mode\<close> reports for it, and an index file
  wins over a log.\<close>

theorem open_mode_detected:
  assumes "page_store_open dir = Inr st"
  shows "detect_mode dir = Inr (ps_mode st) \<and> (ps_mode st = BTree) = (dd_index dir \<noteq> None)"
proof (cases "dd_index dir")
  case (Some f)
  with assms have "verify_index_header f = Inr ()" "ps_mode st = BTree"
    by (auto simp: page_store_open_def rbind_eq_Inr_iff Let_def split: if_splits)
  with Some show ?thesis
    by (auto simp: detect_mode_def verify_index_header_def peek_magic_def read_exact_def rslice_def HEADER_SIZE_def
        split: if_splits)
next
  case None
  with assms obtain log where log: "dd_log dir = Some log" "verify_log_header log = Inr ()" "ps_mode st = AppendOnly"
    by (auto simp: page_store_open_def rbind_eq_Inr_iff split: option.splits)
  with None show ?thesis
    by (auto simp: detect_mode_def verify_log_header_def read_and_verify_header_def peek_magic_def read_exact_def
        rslice_def HEADER_SIZE_def min_def split: if_splits)
qed

theorem open_mode_detected_witness:
  "detect_mode \<lparr>dd_index = None, dd_log = Some (log_file 0 []), dd_blobs = (\<lambda>_. None)\<rparr> = Inr AppendOnly"
proof -
  let ?dir = "\<lparr>dd_index = None, dd_log = Some (log_file 0 []), dd_blobs = (\<lambda>_. None)\<rparr>"
  have "dd_index ?dir = None" "dd_log ?dir = Some (log_file 0 [])" "\<forall>r \<in> set []. log_record_ok r" by simp_all
  then obtain st where st: "page_store_open ?dir = Inr st" "ps_mode st = AppendOnly"
    by (rule open_log_store)
  from open_mode_detected [OF st(1)] st(2) show ?thesis by simp
qed

end
