(* ===== verification/Writer.thy ===== *)
theory Writer
  imports Prelude
begin

text \<open>
  Files written through \<open>std::io::BufWriter\<close>, as \<open>append_only.rs\<close> uses them: the log
  (read-write, positioned by \<open>seek\<close>) and the blob files (opened with \<open>append(true)\<close>).
  A reader of the directory sees \<open>bw_file\<close>; bytes still in \<open>bw_buf\<close> are not there yet.
\<close>

section \<open>Buffered writers\<close>

record buf_writer =
  bw_file :: bytes
  bw_pos :: nat
  bw_append :: bool
  bw_buf :: bytes
  bw_cap :: nat

text \<open>\<open>write(2)\<close> at a position: overwrites, extends, and fills a gap with zeros.\<close>

definition write_file_at :: "nat \<Rightarrow> bytes \<Rightarrow> bytes \<Rightarrow> bytes" where
  "write_file_at pos data f =
     take pos f @ replicate (pos - length f) 0 @ data @ drop (pos + length data) f"

definition raw_write :: "buf_writer \<Rightarrow> bytes \<Rightarrow> buf_writer" where
  "raw_write w data =
     (let pos = (if bw_append w then length (bw_file w) else bw_pos w)
      in w\<lparr>bw_file := write_file_at pos data (bw_file w), bw_pos := pos + length data\<rparr>)"

definition flush_buf :: "buf_writer \<Rightarrow> buf_writer" where
  "flush_buf w = (if bw_buf w = [] then w else (raw_write w (bw_buf w))\<lparr>bw_buf := []\<rparr>)"

text \<open>
  \<open>BufWriter::write_all\<close>: into the buffer while there is room to spare, otherwise flush
  first if it does not fit and bypass the buffer if it is at least as large as the buffer.
\<close>

definition write_all :: "buf_writer \<Rightarrow> bytes \<Rightarrow> buf_writer" where
  "write_all w data =
     (if length data < bw_cap w - length (bw_buf w) then w\<lparr>bw_buf := bw_buf w @ data\<rparr>
      else
        let w = (if bw_cap w - length (bw_buf w) < length data then flush_buf w else w)
        in if bw_cap w \<le> length data then raw_write w data else w\<lparr>bw_buf := bw_buf w @ data\<rparr>)"

definition seek_start :: "nat \<Rightarrow> buf_writer \<Rightarrow> buf_writer" where
  "seek_start n w = (flush_buf w)\<lparr>bw_pos := n\<rparr>"

definition seek_end :: "buf_writer \<Rightarrow> buf_writer" where
  "seek_end w = (let w = flush_buf w in w\<lparr>bw_pos := length (bw_file w)\<rparr>)"

section \<open>Writers that append\<close>

definition appending :: "buf_writer \<Rightarrow> bool" where
  "appending w \<longleftrightarrow> (bw_append w \<or> bw_pos w = length (bw_file w)) \<and> 0 < bw_cap w \<and>
     length (bw_buf w) \<le> bw_cap w"

text \<open>The file once everything is flushed.\<close>

definition bw_view :: "buf_writer \<Rightarrow> bytes" where
  "bw_view w = bw_file w @ bw_buf w"

lemma write_file_at_end [simp]: "write_file_at (length f) data f = f @ data"
  by (simp add: write_file_at_def)

lemma copy_at_Nil [simp]: "copy_at n [] f = f"
  by (simp add: copy_at_def)

lemma write_file_at_inside:
  "pos + length data \<le> length f \<Longrightarrow> write_file_at pos data f = copy_at pos data f"
  by (simp add: write_file_at_def copy_at_def)

lemma raw_write_appending:
  assumes "appending w"
  shows "appending (raw_write w data)" "bw_file (raw_write w data) = bw_file w @ data"
    "bw_buf (raw_write w data) = bw_buf w" "bw_cap (raw_write w data) = bw_cap w"
  using assms by (auto simp: raw_write_def appending_def Let_def)

lemma flush_buf_appending:
  assumes "appending w"
  shows "appending (flush_buf w)" "bw_file (flush_buf w) = bw_view w"
    "bw_buf (flush_buf w) = []" "bw_cap (flush_buf w) = bw_cap w"
  using assms raw_write_appending [OF assms]
  by (auto simp: flush_buf_def bw_view_def appending_def)

lemma write_all_appending:
  assumes "appending w"
  shows "appending (write_all w data) \<and> bw_view (write_all w data) = bw_view w @ data"
proof (cases "length data < bw_cap w - length (bw_buf w)")
  case True
  with assms show ?thesis by (auto simp: write_all_def appending_def bw_view_def)
next
  case False
  define v where "v = (if bw_cap w - length (bw_buf w) < length data then flush_buf w else w)"
  have v: "appending v" "bw_view v = bw_view w" "bw_cap v = bw_cap w"
    using assms flush_buf_appending [OF assms] by (auto simp: v_def bw_view_def)
  have "length (bw_buf v) = 0" if "bw_cap v \<le> length data"
  proof (cases "bw_cap w - length (bw_buf w) < length data")
    case True
    with flush_buf_appending [OF assms] show ?thesis by (simp add: v_def)
  next
    case le: False
    with that v(3) assms have "length (bw_buf w) = 0" unfolding appending_def by linarith
    with le show ?thesis by (simp add: v_def)
  qed
  then have full: "bw_buf v = []" if "bw_cap v \<le> length data"
    using that by simp
  have room: "length (bw_buf v) + length data \<le> bw_cap v" if "\<not> bw_cap v \<le> length data"
    using that flush_buf_appending [OF assms] False assms
    by (auto simp: v_def appending_def split: if_splits)
  show ?thesis
  proof (cases "bw_cap v \<le> length data")
    case True
    with False full v raw_write_appending [OF v(1), of data] show ?thesis
      by (simp add: write_all_def Let_def bw_view_def flip: v_def)
  next
    case small: False
    with False room v show ?thesis
      by (simp add: write_all_def Let_def bw_view_def appending_def flip: v_def)
  qed
qed

section \<open>The interface of an output file\<close>

text \<open>
  A sink takes bytes in order: what a reader sees is always a prefix of what was written,
  and all of it after a flush.
\<close>

locale byte_sink =
  fixes put :: "'w \<Rightarrow> bytes \<Rightarrow> 'w"
    and sync :: "'w \<Rightarrow> 'w"
    and view :: "'w \<Rightarrow> bytes"
    and disk :: "'w \<Rightarrow> bytes"
    and inv :: "'w \<Rightarrow> bool"
  assumes put_ok: "inv w \<Longrightarrow> inv (put w d)"
    and put_view: "inv w \<Longrightarrow> view (put w d) = view w @ d"
    and sync_ok: "inv w \<Longrightarrow> inv (sync w)"
    and sync_view: "inv w \<Longrightarrow> view (sync w) = view w"
    and sync_disk: "inv w \<Longrightarrow> disk (sync w) = view w"
    and disk_prefix: "inv w \<Longrightarrow> \<exists>g. view w = disk w @ g"
begin

lemma puts_view: "inv w \<Longrightarrow> inv (foldl put w ds) \<and> view (foldl put w ds) = view w @ concat ds"
  by (induction ds arbitrary: w) (simp_all add: put_ok put_view)

lemma sync_puts_disk: "inv w \<Longrightarrow> disk (sync (foldl put w ds)) = view w @ concat ds"
  using puts_view [of w ds] by (simp add: sync_disk)

end

interpretation bw: byte_sink write_all flush_buf bw_view bw_file appending
proof unfold_locales
  fix w :: buf_writer and d :: bytes
  assume ok: "appending w"
  show "appending (write_all w d)" "bw_view (write_all w d) = bw_view w @ d"
    using write_all_appending [OF ok] by blast+
  show "appending (flush_buf w)" "bw_view (flush_buf w) = bw_view w" "bw_file (flush_buf w) = bw_view w"
    using flush_buf_appending [OF ok] by (simp_all add: bw_view_def)
  show "\<exists>g. bw_view w = bw_file w @ g" by (auto simp: bw_view_def)
qed

text \<open>Rewriting bytes at a position and going back to the end, with an empty buffer after.\<close>

lemma seek_write_seek:
  assumes "appending w" "\<not> bw_append w" "n + length d \<le> length (bw_view w)"
  defines "v \<equiv> seek_end (write_all (seek_start n w) d)"
  shows "appending v" "bw_file v = copy_at n d (bw_view w)" "bw_buf v = []" "\<not> bw_append v"
proof -
  define u where "u = seek_start n w"
  have u: "bw_file u = bw_view w" "bw_buf u = []" "bw_pos u = n" "\<not> bw_append u" "bw_cap u = bw_cap w"
    using assms flush_buf_appending [OF assms(1)]
    by (auto simp: u_def seek_start_def flush_buf_def raw_write_def Let_def)
  have cap: "0 < bw_cap w" using assms(1) by (simp add: appending_def)
  have "bw_file v = copy_at n d (bw_view w) \<and> bw_buf v = [] \<and> \<not> bw_append v \<and>
      bw_pos v = length (bw_file v) \<and> bw_cap v = bw_cap w"
    using u assms(3) write_file_at_inside [of n d "bw_view w"]
    unfolding v_def u_def [symmetric]
    by (auto simp: write_all_def seek_end_def flush_buf_def raw_write_def Let_def)
  with cap show "appending v" "bw_file v = copy_at n d (bw_view w)" "bw_buf v = []" "\<not> bw_append v"
    by (auto simp: appending_def)
qed

section \<open>Properties\<close>

text \<open>Buffered appends keep their order and lose nothing: at any time the file on disk is a
  prefix of what was written, and after a flush it is all of it, whatever the sizes of the
  writes are compared with the buffer.\<close>

theorem buffered_appends:
  assumes "appending w"
  shows "bw_file (flush_buf (foldl write_all w ds)) = bw_view w @ concat ds \<and>
    (\<exists>rest. bw_view w @ concat ds = bw_file (foldl write_all w ds) @ rest)"
proof -
  have ok: "appending (foldl write_all w ds)" and view: "bw_view (foldl write_all w ds) = bw_view w @ concat ds"
    using bw.puts_view [OF assms, of ds] by simp_all
  from bw.disk_prefix [OF ok] bw.sync_puts_disk [OF assms, of ds] show ?thesis unfolding view by simp
qed

theorem buffered_appends_witness:
  "bw_file (flush_buf (foldl write_all \<lparr>bw_file = [1], bw_pos = 1, bw_append = False, bw_buf = [], bw_cap = 2\<rparr> [[2], [3, 4], [5]])) =
     [1, 2, 3, 4, 5]"
proof -
  have "appending \<lparr>bw_file = [1], bw_pos = 1, bw_append = False, bw_buf = [], bw_cap = 2\<rparr>"
    by (simp add: appending_def)
  from buffered_appends [OF this, of "[[2], [3, 4], [5]]"] show ?thesis by (simp add: bw_view_def)
qed

end
