(* ===== verification/Shadow.thy ===== *)
theory Shadow
  imports Cache
begin

text \<open>
  The sharded in-memory table of base pages (\<open>Shadow\<close> in \<open>append_only.rs\<close>): for each
  page address the key and contents of its last Full chunk, in 2048 separately locked maps.
\<close>

definition SHADOW_SHARDS :: nat where "SHADOW_SHARDS = 2048"
definition SHADOW_SHARDS_MASK :: u64 where "SHADOW_SHARDS_MASK = of_nat SHADOW_SHARDS - 1"

type_synonym shadow_entry = "u64 \<times> bytes"
type_synonym shadow_shard = "u64 \<Rightarrow> shadow_entry option"
type_synonym shadow = "shadow_shard list"

definition shadow_new :: shadow where
  "shadow_new = replicate SHADOW_SHARDS (\<lambda>_. None)"

definition shard_idx :: "u64 \<Rightarrow> nat" where
  "shard_idx pa = unat ((pa * FIB_MUL) AND SHADOW_SHARDS_MASK)"

definition shadow_get :: "shadow \<Rightarrow> u64 \<Rightarrow> shadow_entry option" where
  "shadow_get sh pa = (sh ! shard_idx pa) pa"

definition insert_if_newer :: "shadow \<Rightarrow> u64 \<Rightarrow> u64 \<Rightarrow> bytes \<Rightarrow> shadow" where
  "insert_if_newer sh pa key page =
     (let w = sh ! shard_idx pa;
          install = (case w pa of None \<Rightarrow> True | Some (k, _) \<Rightarrow> k < key)
      in if install then sh[shard_idx pa := w(pa \<mapsto> (key, page))] else sh)"

definition shadow_ok :: "shadow \<Rightarrow> bool" where
  "shadow_ok sh \<longleftrightarrow> length sh = SHADOW_SHARDS"

lemma shard_idx_bound: "shard_idx pa < SHADOW_SHARDS"
proof -
  have "SHADOW_SHARDS_MASK = mask 11"
    by (simp add: SHADOW_SHARDS_MASK_def SHADOW_SHARDS_def mask_eq_exp_minus_1)
  then show ?thesis
    using and_mask_less_size [of 11 "pa * FIB_MUL"]
    by (simp add: shard_idx_def SHADOW_SHARDS_def word_less_nat_alt word_size)
qed

section \<open>The interface of a base table\<close>

text \<open>
  What \<open>process_one\<close> relies on: an insertion is visible under its page unless a newer
  entry is there, and touches no other page, shards or not.
\<close>

locale base_table =
  fixes get :: "'t \<Rightarrow> u64 \<Rightarrow> (u64 \<times> bytes) option"
    and ins :: "'t \<Rightarrow> u64 \<Rightarrow> u64 \<Rightarrow> bytes \<Rightarrow> 't"
    and empty_tab :: 't
    and inv :: "'t \<Rightarrow> bool"
  assumes empty_ok: "inv empty_tab"
    and get_empty: "get empty_tab pa = None"
    and ins_ok: "inv t \<Longrightarrow> inv (ins t pa k p)"
    and get_ins: "inv t \<Longrightarrow> get (ins t pa k p) pa' =
      (if pa' = pa \<and> (case get t pa of None \<Rightarrow> True | Some (k', _) \<Rightarrow> k' < k) then Some (k, p) else get t pa')"
begin

text \<open>Every entry satisfies \<open>P\<close>; kept by inserting an entry that does.\<close>

definition all_entries :: "(u64 \<Rightarrow> u64 \<Rightarrow> bytes \<Rightarrow> bool) \<Rightarrow> 't \<Rightarrow> bool" where
  "all_entries P t \<longleftrightarrow> inv t \<and> (\<forall>pa k p. get t pa = Some (k, p) \<longrightarrow> P pa k p)"

lemma all_entries_empty: "all_entries P empty_tab"
  by (simp add: all_entries_def empty_ok get_empty)

lemma all_entries_ins: "all_entries P t \<Longrightarrow> P pa k p \<Longrightarrow> all_entries P (ins t pa k p)"
  by (auto simp: all_entries_def ins_ok get_ins split: if_splits)

lemma all_entries_mono:
  "all_entries P t \<Longrightarrow> (\<And>pa k p. P pa k p \<Longrightarrow> Q pa k p) \<Longrightarrow> all_entries Q t"
  by (auto simp: all_entries_def)

lemma all_entriesD: "all_entries P t \<Longrightarrow> get t pa = Some (k, p) \<Longrightarrow> P pa k p"
  by (simp add: all_entries_def)

text \<open>Keys only grow, whatever order concurrent insertions of a page arrive in.\<close>

lemma ins_order:
  assumes "inv t" "k < k'"
  shows "get (ins (ins t pa k p) pa k' p') pa = get (ins (ins t pa k' p') pa k p) pa"
  using assms by (auto simp: get_ins ins_ok split: option.splits)

end

lemma shadow_get_insert:
  assumes "shadow_ok t"
  shows "shadow_get (insert_if_newer t pa k p) pa' =
    (if pa' = pa \<and> (case shadow_get t pa of None \<Rightarrow> True | Some (k', _) \<Rightarrow> k' < k) then Some (k, p) else shadow_get t pa')"
proof (cases "case shadow_get t pa of None \<Rightarrow> True | Some (k', _) \<Rightarrow> k' < k")
  case True
  have "shard_idx pa < length t" using assms shard_idx_bound by (simp add: shadow_ok_def)
  with True show ?thesis
    by (simp add: shadow_get_def insert_if_newer_def Let_def nth_list_update)
next
  case False
  then show ?thesis by (simp add: shadow_get_def insert_if_newer_def Let_def)
qed

interpretation bases: base_table shadow_get insert_if_newer shadow_new shadow_ok
proof unfold_locales
  show "shadow_ok shadow_new" by (simp add: shadow_ok_def shadow_new_def)
  show "shadow_get shadow_new pa = None" for pa
    by (simp add: shadow_get_def shadow_new_def shard_idx_bound)
  show "shadow_ok t \<Longrightarrow> shadow_ok (insert_if_newer t pa k p)" for t pa k p
    by (simp add: shadow_ok_def insert_if_newer_def Let_def)
qed (rule shadow_get_insert)

section \<open>Properties\<close>

text \<open>Concurrent insertions into the shadow commute: whichever of two tasks comes first, every
  page ends with the entry of its greatest key, and the entries of other pages, in the same
  shard or not, stay.\<close>

theorem shadow_insertions_commute:
  assumes "shadow_ok t" "pa \<noteq> pa' \<or> k \<noteq> k'"
  shows "shadow_get (insert_if_newer (insert_if_newer t pa k p) pa' k' p') q =
      shadow_get (insert_if_newer (insert_if_newer t pa' k' p') pa k p) q \<and>
    (\<exists>page. shadow_get (insert_if_newer t pa k p) pa =
      Some (case shadow_get t pa of None \<Rightarrow> k | Some (k0, _) \<Rightarrow> max k0 k, page)) \<and>
    (q \<noteq> pa \<longrightarrow> shadow_get (insert_if_newer t pa k p) q = shadow_get t q)"
proof (intro conjI)
  show "shadow_get (insert_if_newer (insert_if_newer t pa k p) pa' k' p') q =
      shadow_get (insert_if_newer (insert_if_newer t pa' k' p') pa k p) q"
  proof (cases "pa = pa' \<and> q = pa")
    case True
    with assms bases.ins_order [OF assms(1), of k k' pa p p'] bases.ins_order [OF assms(1), of k' k pa p' p]
    show ?thesis by (cases k k' rule: linorder_cases) auto
  next
    case False
    with assms show ?thesis by (auto simp: bases.get_ins bases.ins_ok)
  qed
qed (use assms(1) in \<open>auto simp: bases.get_ins max_def split: option.splits\<close>)

theorem shadow_insertions_commute_witness:
  "shadow_get (insert_if_newer (insert_if_newer shadow_new 3 9 [1]) 3 5 [2]) 3 =
     shadow_get (insert_if_newer (insert_if_newer shadow_new 3 5 [2]) 3 9 [1]) 3"
proof -
  have "(3 :: u64) \<noteq> 3 \<or> (9 :: u64) \<noteq> 5" by simp
  from shadow_insertions_commute [OF bases.empty_ok this, of "[1]" "[2]" 3] show ?thesis by blast
qed

end
