(* ===== verification/Bitmap.thy ===== *)
theory Bitmap
  imports Cache
begin

text \<open>
  Pass 1 and the bit loops of \<open>save_pages_with_bitmap\<close> (\<open>append_only.rs\<close>): masking the
  last bitmap word, counting dirty pages per group, the exclusive prefix sum that gives every
  group its range of the record buffer, and the dirty pages of a word by
  \<open>trailing_zeros\<close> and \<open>w &= w - 1\<close>. The main result: the tasks together are exactly the
  dirty pages in ascending order, numbered from 0 without gap or overlap.
\<close>

definition WORDS_PER_GROUP :: nat where "WORDS_PER_GROUP = 64"
definition PAGES_PER_GROUP :: nat where "PAGES_PER_GROUP = WORDS_PER_GROUP * 64"

definition mask_last_word :: "u64 \<Rightarrow> nat \<Rightarrow> nat \<Rightarrow> u64 \<Rightarrow> u64" where
  "mask_last_word w wi expected_words total_page_count =
     (if wi + 1 = expected_words then
        let valid = total_page_count - of_nat wi * 64
        in if valid < 64 then w AND (push_bit (unat valid) 1 - 1) else w
      else w)"

definition count_ones :: "u64 \<Rightarrow> nat" where
  "count_ones w = length (filter (bit w) [0..<64])"

text \<open>The bits of a word in the order the loop visits them.\<close>

lemma trailing_zeros_props:
  assumes "(w :: u64) \<noteq> 0"
  shows "trailing_zeros w < 64" "bit w (trailing_zeros w)" "\<And>i. i < trailing_zeros w \<Longrightarrow> \<not> bit w i"
proof -
  have "\<exists>i. bit w i"
  proof (rule ccontr)
    assume "\<not> (\<exists>i. bit w i)"
    then have "w = 0" by (intro bit_word_eqI) simp
    with assms show False by simp
  qed
  then obtain i where i: "bit w i" ..
  then have "i < 64" using bit_imp_le_length by fastforce
  with i have lt: "length (takeWhile (\<lambda>i. \<not> bit w i) [0..<64]) < length [0..<64 :: nat]"
    by (intro length_takeWhile_lt [of i]) auto
  then show "trailing_zeros w < 64" by (simp add: trailing_zeros_def)
  show "bit w (trailing_zeros w)"
    using nth_length_takeWhile [OF lt] lt by (simp add: trailing_zeros_def)
  show "\<not> bit w i" if "i < trailing_zeros w" for i
    using that lt takeWhile_nth [of i "\<lambda>i. \<not> bit w i" "[0..<64]"]
      nth_mem [of i "takeWhile (\<lambda>i. \<not> bit w i) [0..<64]"]
    by (auto simp: trailing_zeros_def dest!: set_takeWhileD)
qed

lemma clear_lowest_bit:
  assumes "(w :: u64) \<noteq> 0"
  shows "bit (w AND (w - 1)) n \<longleftrightarrow> bit w n \<and> n \<noteq> trailing_zeros w"
proof -
  let ?k = "trailing_zeros w"
  define hi where "hi = w AND NOT (mask (Suc ?k))"
  note tz = trailing_zeros_props [OF assms]
  have bits: "bit w n \<longleftrightarrow> bit hi n \<or> n = ?k" for n
    using tz bit_imp_le_length [of w n]
    by (cases "n < ?k") (auto simp: hi_def bit_simps less_Suc_eq)
  have "w = hi OR push_bit ?k 1"
    by (rule bit_word_eqI) (use tz in \<open>auto simp: bits bit_simps\<close>)
  moreover have "hi AND push_bit ?k 1 = 0" "hi AND mask ?k = 0"
    by (rule bit_word_eqI; auto simp: hi_def bit_simps)+
  ultimately have w: "w = hi + push_bit ?k 1" and m: "hi + mask ?k = hi OR mask ?k"
    by (simp_all add: disjunctive_add_eq_or)
  have "w - 1 = hi + mask ?k"
    by (subst w) (simp add: mask_eq_exp_minus_1)
  then have pred: "w - 1 = hi OR mask ?k" by (simp only: m)
  have hi: "bit hi n \<Longrightarrow> ?k < n" for n
    by (auto simp: hi_def bit_simps)
  have "bit (w AND (w - 1)) n \<longleftrightarrow> (bit hi n \<or> n = ?k) \<and> (bit hi n \<or> n < 64 \<and> n < ?k)"
    unfolding bit_and_iff pred bit_or_iff bit_mask_iff bits [of n] by simp
  then show ?thesis unfolding bits [of n] using hi [of n] by blast
qed

function word_bits :: "u64 \<Rightarrow> nat list" where
  "word_bits w = (if w = 0 then [] else trailing_zeros w # word_bits (w AND (w - 1)))"
  by pat_completeness auto
termination
proof (relation "measure (\<lambda>w. card {n. bit w n})")
  fix w :: u64
  assume w: "w \<noteq> 0"
  have "{n. bit w n} \<subseteq> {..<64}"
    using bit_imp_le_length [of w] by auto
  then have fin: "finite {n. bit w n}" by (rule finite_subset) simp
  have "{n. bit (w AND (w - 1)) n} \<subset> {n. bit w n}"
    using trailing_zeros_props(2) [OF w] by (auto simp only: clear_lowest_bit [OF w])
  from psubset_card_mono [OF fin this]
  show "(w AND (w - 1), w) \<in> measure (\<lambda>w. card {n. bit w n})" by simp
qed simp

declare word_bits.simps [simp del]

lemma word_bits_eq: "word_bits w = filter (bit w) [0..<64]"
proof (induction w rule: word_bits.induct)
  case (1 w)
  show ?case
  proof (cases "w = 0")
    case True
    then show ?thesis by (simp add: word_bits.simps)
  next
    case False
    let ?k = "trailing_zeros w"
    note tz = trailing_zeros_props [OF False]
    have split: "[0..<64] = [0..<?k] @ ?k # [Suc ?k..<64]"
      using tz(1) upt_add_eq_append [of 0 ?k "64 - ?k"] by (simp add: upt_conv_Cons)
    have "filter (bit (w AND (w - 1))) [0..<64] = filter (bit w) [Suc ?k..<64]"
      unfolding split using tz(3)
      by (auto simp: clear_lowest_bit [OF False] filter_empty_conv intro!: filter_cong)
    moreover have "filter (bit w) [0..<64] = ?k # filter (bit w) [Suc ?k..<64]"
      unfolding split using tz by (auto simp: filter_empty_conv)
    ultimately show ?thesis using 1 [OF False] False by (simp add: word_bits.simps [of w])
  qed
qed

section \<open>Tasks of one save\<close>

definition group_range :: "nat \<Rightarrow> nat \<Rightarrow> nat list" where
  "group_range g expected_words =
     [g * WORDS_PER_GROUP ..< min ((g + 1) * WORDS_PER_GROUP) expected_words]"

text \<open>Pass 1a: the popcount of one group, in a \<open>u32\<close>.\<close>

definition group_count :: "u64 list \<Rightarrow> u64 \<Rightarrow> nat \<Rightarrow> nat \<Rightarrow> u32" where
  "group_count bitmap total_page_count expected_words g =
     foldl (\<lambda>count wi. count + of_nat (count_ones (mask_last_word (bitmap ! wi) wi expected_words total_page_count)))
       0 (group_range g expected_words)"

text \<open>
  Pass 1b: the exclusive prefix sum in place, the list of non-empty groups, and the total;
  \<open>checked_add\<close> fails beyond \<open>u32\<close>.
\<close>

fun prefix_pass :: "nat \<Rightarrow> u32 list \<Rightarrow> u32 \<Rightarrow> (u32 list \<times> nat list \<times> u32) res" where
  "prefix_pass g [] acc = Inr ([], [], acc)"
| "prefix_pass g (c # cs) acc =
     (if 2 ^ 32 \<le> unat acc + unat c then Inl (IoErr InvalidInput)
      else rbind (prefix_pass (Suc g) cs (acc + c)) (\<lambda>(offsets, active, tot).
        Inr (acc # offsets, (if 0 < c then g # active else active), tot)))"

text \<open>The page addresses one group's task visits, in its order.\<close>

definition group_pas :: "u64 list \<Rightarrow> u64 \<Rightarrow> nat \<Rightarrow> nat \<Rightarrow> u64 list" where
  "group_pas bitmap total_page_count expected_words g =
     concat (map (\<lambda>wi. map (\<lambda>b. of_nat wi * 64 + of_nat b)
         (word_bits (mask_last_word (bitmap ! wi) wi expected_words total_page_count)))
       (group_range g expected_words))"

text \<open>
  Pass 2: every active group writes its records from \<open>offsets[g]\<close> on, one slot per page.
  A job is a slot of the record buffer and the page whose record goes there.
\<close>

definition bitmap_jobs :: "u64 list \<Rightarrow> u64 \<Rightarrow> nat \<Rightarrow> (nat list \<times> nat list) \<Rightarrow> (nat \<times> u64) list" where
  "bitmap_jobs bitmap total_page_count expected_words = (\<lambda>(offsets, active).
     concat (map (\<lambda>g. enumerate (offsets ! g) (group_pas bitmap total_page_count expected_words g)) active))"

definition bitmap_plan :: "u64 list \<Rightarrow> u64 \<Rightarrow> (nat \<times> (nat \<times> u64) list) res" where
  "bitmap_plan bitmap total_page_count =
     (let expected_words = (unat total_page_count + 63) div 64;
          num_groups = (expected_words + WORDS_PER_GROUP - 1) div WORDS_PER_GROUP;
          counts = map (group_count bitmap total_page_count expected_words) [0..<num_groups]
      in rbind (prefix_pass 0 counts 0) (\<lambda>(offsets, active, total_dirty).
           Inr (unat total_dirty,
                bitmap_jobs bitmap total_page_count expected_words (map unat offsets, active))))"

text \<open>The pages a bitmap marks, in ascending order.\<close>

definition dirty_pages :: "u64 list \<Rightarrow> u64 \<Rightarrow> u64 list" where
  "dirty_pages bitmap total_page_count =
     map of_nat (filter (\<lambda>pa. bit (bitmap ! (pa div 64)) (pa mod 64)) [0..<unat total_page_count])"

lemma length_dirty_pages: "length (dirty_pages bitmap n) \<le> unat n"
  using length_filter_le [of _ "[0..<unat n]"] by (simp add: dirty_pages_def)

section \<open>The tasks are the dirty pages\<close>

lemma bit_mask_last_word:
  assumes ew: "ew = (unat tot + 63) div 64" and "wi < ew" "b < 64"
  shows "bit (mask_last_word w wi ew tot) b \<longleftrightarrow> bit w b \<and> wi * 64 + b < unat tot"
proof (cases "wi + 1 = ew")
  case True
  then have wi: "wi * 64 < unat tot" "unat tot \<le> wi * 64 + 64" using ew by auto
  have "unat (of_nat wi * 64 :: u64) = wi * 64"
    using wi unsigned_less [of tot, where ?'a = nat] 
    by (simp add: unat_word_ariths unat_of_nat take_bit_eq_mod)
  then have valid: "unat (tot - of_nat wi * 64) = unat tot - wi * 64"
    using wi by (subst unat_sub) (simp_all add: word_le_nat_alt)
  show ?thesis
  proof (cases "tot - of_nat wi * 64 < 64")
    case lt: True
    then have "unat tot - wi * 64 < 64" using valid by (simp add: word_less_nat_alt)
    then have "mask_last_word w wi ew tot = w AND mask (unat tot - wi * 64)"
      using True lt by (simp add: mask_last_word_def valid Let_def mask_eq_exp_minus_1 push_bit_eq_mult)
    then show ?thesis using assms(3) by (auto simp: bit_simps)
  next
    case False
    then have "64 \<le> unat tot - wi * 64" using valid by (simp add: word_less_nat_alt)
    then have "wi * 64 + b < unat tot" using assms(3) by linarith
    with True False show ?thesis by (simp add: mask_last_word_def Let_def)
  qed
next
  case False
  then have "wi * 64 + b < unat tot" using assms by auto
  with False show ?thesis by (simp add: mask_last_word_def)
qed

definition is_dirty :: "u64 list \<Rightarrow> nat \<Rightarrow> nat \<Rightarrow> bool" where
  "is_dirty bitmap tot pa \<longleftrightarrow> pa < tot \<and> bit (bitmap ! (pa div 64)) (pa mod 64)"

lemma upt_blocks: "concat (map (\<lambda>i. [i * k ..< i * k + k]) [a ..< b]) = [a * k ..< b * k]" if "a \<le> b"
  using that
proof (induction b)
  case (Suc b)
  show ?case
  proof (cases "a = Suc b")
    case False
    with Suc have "concat (map (\<lambda>i. [i * k ..< i * k + k]) [a ..< Suc b]) = [a * k ..< b * k] @ [b * k ..< b * k + k]"
      by simp
    also have "\<dots> = [a * k ..< Suc b * k]"
      using False Suc.prems by (subst upt_add_eq_append [symmetric]) (auto simp: add.commute)
    finally show ?thesis .
  qed simp
qed simp

lemma word_pas:
  assumes "ew = (unat tot + 63) div 64" "wi < ew"
  shows "map (\<lambda>b. of_nat wi * 64 + of_nat b) (word_bits (mask_last_word (bitmap ! wi) wi ew tot)) =
    map (of_nat :: nat \<Rightarrow> u64) (filter (is_dirty bitmap (unat tot)) [wi * 64 ..< wi * 64 + 64])"
proof -
  have "[wi * 64 ..< wi * 64 + 64] = map (\<lambda>b. wi * 64 + b) [0..<64]"
    by (simp add: map_add_upt add.commute)
  then have "filter (is_dirty bitmap (unat tot)) [wi * 64 ..< wi * 64 + 64] =
      map (\<lambda>b. wi * 64 + b) (filter (\<lambda>b. is_dirty bitmap (unat tot) (wi * 64 + b)) [0..<64])"
    by (simp add: filter_map comp_def)
  also have "filter (\<lambda>b. is_dirty bitmap (unat tot) (wi * 64 + b)) [0..<64] =
      word_bits (mask_last_word (bitmap ! wi) wi ew tot)"
    unfolding word_bits_eq by (rule filter_cong) (auto simp: is_dirty_def bit_mask_last_word [OF assms])
  finally show ?thesis by (simp add: comp_def)
qed

lemma group_pas_eq:
  assumes "ew = (unat tot + 63) div 64"
  shows "group_pas bitmap tot ew g = concat (map (\<lambda>wi.
      map of_nat (filter (is_dirty bitmap (unat tot)) [wi * 64 ..< wi * 64 + 64])) (group_range g ew))"
  unfolding group_pas_def
  by (rule arg_cong [where f = concat], rule map_cong [OF refl], rule word_pas [OF assms])
    (simp add: group_range_def)

lemma concat_map_concat:
  "concat (map (\<lambda>x. concat (map f (g x))) xs) = concat (map f (concat (map g xs)))"
  by (induction xs) simp_all

lemma concat_map_filter:
  "concat (map (\<lambda>x. map f (filter P (g x))) xs) = map f (filter P (concat (map g xs)))"
  by (induction xs) simp_all

lemma group_ranges:
  assumes "n = (ew + WORDS_PER_GROUP - 1) div WORDS_PER_GROUP"
  shows "concat (map (\<lambda>g. group_range g ew) [0..<n]) = [0..<ew]"
proof -
  have "concat (map (\<lambda>g. group_range g ew) [0..<m]) = [0..<min (m * 64) ew]" for m
  proof (induction m)
    case (Suc m)
    then have "concat (map (\<lambda>g. group_range g ew) [0..<Suc m]) =
        [0..<min (m * 64) ew] @ [m * 64 ..< min (Suc m * 64) ew]"
      by (simp add: group_range_def WORDS_PER_GROUP_def)
    also have "\<dots> = [0..<min (Suc m * 64) ew]"
    proof (cases "m * 64 \<le> ew")
      case True
      then show ?thesis
        using upt_add_eq_append [of 0 "m * 64" "min (Suc m * 64) ew - m * 64"] by (simp add: min_def)
    qed (simp add: min_def)
    finally show ?case .
  qed simp
  moreover have "ew \<le> n * 64" using assms by (simp add: WORDS_PER_GROUP_def)
  ultimately show ?thesis by (simp add: min_absorb2)
qed

lemma all_group_pas:
  assumes "ew = (unat tot + 63) div 64" "n = (ew + WORDS_PER_GROUP - 1) div WORDS_PER_GROUP"
  shows "concat (map (group_pas bitmap tot ew) [0..<n]) = dirty_pages bitmap tot"
proof -
  let ?d = "is_dirty bitmap (unat tot)"
  have "concat (map (group_pas bitmap tot ew) [0..<n]) =
      map of_nat (filter ?d (concat (map (\<lambda>wi. [wi * 64 ..< wi * 64 + 64]) [0..<ew])))"
    unfolding ext [where f = "group_pas bitmap tot ew", OF group_pas_eq [OF assms(1)]]
    by (simp only: concat_map_concat concat_map_filter group_ranges [OF assms(2)])
  also have "concat (map (\<lambda>wi. [wi * 64 ..< wi * 64 + 64]) [0..<ew]) = [0..<ew * 64]"
    using upt_blocks [of 0 ew 64] by simp
  also have "filter ?d [0..<ew * 64] = filter ?d [0..<unat tot]"
  proof -
    have "[0..<ew * 64] = [0..<unat tot] @ [unat tot..<ew * 64]"
      using assms(1) upt_add_eq_append [of 0 "unat tot" "ew * 64 - unat tot"] by simp
    then show ?thesis by (simp add: is_dirty_def)
  qed
  also have "\<dots> = filter (\<lambda>pa. bit (bitmap ! (pa div 64)) (pa mod 64)) [0..<unat tot]"
    by (rule filter_cong) (auto simp: is_dirty_def)
  finally show ?thesis by (simp add: dirty_pages_def)
qed

lemma length_word_bits_le: "length (word_bits w) \<le> 64"
  using length_filter_le [of "bit w" "[0..<64]"] by (simp add: word_bits_eq)

lemma group_count_eq:
  assumes "g * WORDS_PER_GROUP \<le> ew"
  shows "unat (group_count bitmap tot ew g) = length (group_pas bitmap tot ew g)"
proof -
  let ?c = "\<lambda>wi. count_ones (mask_last_word (bitmap ! wi) wi ew tot)"
  have count: "?c wi = length (word_bits (mask_last_word (bitmap ! wi) wi ew tot))" for wi
    by (simp add: count_ones_def word_bits_eq)
  have fold: "foldl (\<lambda>count wi. count + of_nat (?c wi)) (of_nat n :: u32) wis = of_nat (n + sum_list (map ?c wis))" for n wis
    by (induction wis arbitrary: n) (simp_all flip: of_nat_add add: add.assoc)
  have "sum_list (map ?c wis) \<le> length wis * 64" for wis
    by (induction wis) (use length_word_bits_le in \<open>auto simp: count intro: add_mono\<close>)
  from this [of "group_range g ew"] have small: "sum_list (map ?c (group_range g ew)) \<le> 4096"
    by (simp add: group_range_def WORDS_PER_GROUP_def)
  have "length (group_pas bitmap tot ew g) = sum_list (map ?c (group_range g ew))"
    by (simp add: group_pas_def length_concat comp_def count)
  moreover have "unat (group_count bitmap tot ew g) = sum_list (map ?c (group_range g ew))"
    using fold [of 0 "group_range g ew"] small
    by (simp add: group_count_def unat_of_nat take_bit_nat_eq_self_iff)
  ultimately show ?thesis by simp
qed

lemma enumerate_append: "enumerate n (xs @ ys) = enumerate n xs @ enumerate (n + length xs) ys"
  by (induction xs arbitrary: n) simp_all

text \<open>The prefix sum lays the groups out one after the other.\<close>

lemma prefix_pass_spec:
  assumes "map unat cs = map length xss" and "unat acc + length (concat xss) < 2 ^ 32"
  shows "\<exists>offs act tot. prefix_pass g cs acc = Inr (offs, act, tot) \<and> length offs = length cs \<and>
    set act \<subseteq> {g..<g + length cs} \<and> unat tot = unat acc + length (concat xss) \<and>
    concat (map (\<lambda>g'. enumerate (unat (offs ! (g' - g))) (xss ! (g' - g))) act) = enumerate (unat acc) (concat xss)"
  using assms
proof (induction cs arbitrary: xss acc g)
  case Nil
  then show ?case by simp
next
  case (Cons c cs)
  then obtain xs yss where xss: "xss = xs # yss" "unat c = length xs" "map unat cs = map length yss" by auto
  then have acc: "unat (acc + c) = unat acc + length xs"
    using Cons.prems(2) by (simp add: unat_word_ariths)
  obtain offs act tot where IH: "prefix_pass (Suc g) cs (acc + c) = Inr (offs, act, tot)" "length offs = length cs"
    "set act \<subseteq> {Suc g..<Suc g + length cs}" "unat tot = unat (acc + c) + length (concat yss)"
    "concat (map (\<lambda>g'. enumerate (unat (offs ! (g' - Suc g))) (yss ! (g' - Suc g))) act) = enumerate (unat (acc + c)) (concat yss)"
    using Cons.IH [OF xss(3), of "acc + c" "Suc g"] Cons.prems(2) xss(1) acc by auto
  have tail: "concat (map (\<lambda>g'. enumerate (unat ((acc # offs) ! (g' - g))) (xss ! (g' - g))) act) = enumerate (unat (acc + c)) (concat yss)"
  proof -
    have "(acc # offs) ! (g' - g) = offs ! (g' - Suc g) \<and> xss ! (g' - g) = yss ! (g' - Suc g)" if "g' \<in> set act" for g'
    proof -
      have "g' - g = Suc (g' - Suc g)" using IH(3) that by force
      then show ?thesis by (simp add: xss(1))
    qed
    then show ?thesis unfolding IH(5) [symmetric] by (intro arg_cong [where f = concat] map_cong) auto
  qed
  have pos: "0 < c \<longleftrightarrow> xs \<noteq> []" using xss(2) by (auto simp: word_less_nat_alt)
  have "\<not> 2 ^ 32 \<le> unat acc + unat c" using Cons.prems(2) xss by simp
  then show ?case
    using IH(1-4) tail pos acc xss
    by (auto simp: enumerate_append simp flip: append_Nil)
qed

lemma prefix_pass_overflow:
  assumes "map unat cs = map length xss" and "2 ^ 32 \<le> unat acc + length (concat xss)" "unat acc < 2 ^ 32"
  shows "prefix_pass g cs acc = Inl (IoErr InvalidInput)"
  using assms
proof (induction cs arbitrary: xss acc g)
  case (Cons c cs)
  then obtain xs yss where xss: "xss = xs # yss" "unat c = length xs" "map unat cs = map length yss" by auto
  show ?case
  proof (cases "2 ^ 32 \<le> unat acc + unat c")
    case False
    then have acc: "unat (acc + c) = unat acc + unat c" by (simp add: unat_word_ariths)
    have "prefix_pass (Suc g) cs (acc + c) = Inl (IoErr InvalidInput)"
      by (rule Cons.IH [OF xss(3)]) (use Cons.prems(2) xss acc False in auto)
    with False show ?thesis by simp
  qed simp
qed simp

theorem bitmap_plan_eq:
  assumes "length (dirty_pages bitmap tot) < 2 ^ 32"
  shows "bitmap_plan bitmap tot = Inr (length (dirty_pages bitmap tot), enumerate 0 (dirty_pages bitmap tot))"
proof -
  define ew where "ew = (unat tot + 63) div 64"
  define n where "n = (ew + WORDS_PER_GROUP - 1) div WORDS_PER_GROUP"
  define cs where "cs = map (group_count bitmap tot ew) [0..<n]"
  define xss where "xss = map (group_pas bitmap tot ew) [0..<n]"
  have le: "g * WORDS_PER_GROUP \<le> ew" if "g < n" for g
    using that by (simp add: n_def WORDS_PER_GROUP_def)
  have cs: "map unat cs = map length xss"
    by (simp add: cs_def xss_def group_count_eq le)
  have xs: "concat xss = dirty_pages bitmap tot"
    unfolding xss_def by (rule all_group_pas [OF ew_def n_def])
  obtain offs act total_dirty where pass: "prefix_pass 0 cs 0 = Inr (offs, act, total_dirty)" "length offs = length cs"
    "set act \<subseteq> {0..<length cs}" "unat total_dirty = length (dirty_pages bitmap tot)"
    "concat (map (\<lambda>g'. enumerate (unat (offs ! g')) (xss ! g')) act) = enumerate 0 (dirty_pages bitmap tot)"
    using prefix_pass_spec [OF cs, of 0 0] assms by (auto simp: xs)
  have "bitmap_jobs bitmap tot ew (map unat offs, act) =
      concat (map (\<lambda>g'. enumerate (unat (offs ! g')) (xss ! g')) act)"
    unfolding bitmap_jobs_def prod.case
    by (intro arg_cong [where f = concat] map_cong refl) (use pass(2,3) in \<open>auto simp: xss_def cs_def\<close>)
  with pass show ?thesis
    unfolding bitmap_plan_def Let_def ew_def [symmetric] n_def [symmetric] cs_def [symmetric] by simp
qed

text \<open>The dirty pages as a set.\<close>

lemma mem_dirty_pages:
  "pa \<in> set (dirty_pages bitmap n) \<longleftrightarrow> pa < n \<and> bit (bitmap ! (unat pa div 64)) (unat pa mod 64)"
proof
  have u: "unat (of_nat i :: u64) = i" if "i < unat n" for i
    using that unsigned_less [of n, where ?'a = nat] by (simp add: unat_of_nat take_bit_nat_eq_self_iff)
  show "pa \<in> set (dirty_pages bitmap n) \<Longrightarrow> pa < n \<and> bit (bitmap ! (unat pa div 64)) (unat pa mod 64)"
    by (auto simp: dirty_pages_def word_less_nat_alt u)
  show "pa < n \<and> bit (bitmap ! (unat pa div 64)) (unat pa mod 64) \<Longrightarrow> pa \<in> set (dirty_pages bitmap n)"
    unfolding dirty_pages_def by (auto simp: word_less_nat_alt intro!: image_eqI [of pa _ "unat pa"])
qed

section \<open>Properties\<close>

text \<open>C17: the two parallel passes over a dirty bitmap plan exactly one job for every dirty page
  below the page count and none for stray bits beyond it; the slots of the jobs are
  0, 1, 2, ... without gap or overlap, in page order. More than \<open>u32::MAX\<close> dirty pages are
  an error.\<close>

theorem bitmap_plan_exact:
  assumes "(unat n + 63) div 64 \<le> length bitmap"
  shows "if length (dirty_pages bitmap n) < 2 ^ 32
    then \<exists>jobs. bitmap_plan bitmap n = Inr (length jobs, jobs) \<and> map fst jobs = [0..<length jobs] \<and>
      sorted_wrt (<) (map snd jobs) \<and>
      snd ` set jobs = {pa. pa < n \<and> bit (bitmap ! (unat pa div 64)) (unat pa mod 64)}
    else bitmap_plan bitmap n = Inl (IoErr InvalidInput)"
proof (cases "length (dirty_pages bitmap n) < 2 ^ 32")
  case True
  let ?d = "dirty_pages bitmap n" and ?jobs = "enumerate 0 (dirty_pages bitmap n)"
  have u: "unat (of_nat i :: u64) = i" if "i < unat n" for i
    using that unsigned_less [of n, where ?'a = nat] by (simp add: unat_of_nat take_bit_nat_eq_self_iff)
  have "set ?d = {pa. pa < n \<and> bit (bitmap ! (unat pa div 64)) (unat pa mod 64)}"
    using mem_dirty_pages by blast
  moreover have "sorted_wrt (<) ?d"
    unfolding dirty_pages_def sorted_wrt_map
    by (rule sorted_wrt_mono_rel [of _ "(<)"]) (auto simp: word_less_nat_alt u intro: sorted_wrt_filter)
  moreover have "length ?jobs = length ?d" "map fst ?jobs = [0..<length ?d]" "map snd ?jobs = ?d" by simp_all
  moreover from \<open>map snd ?jobs = ?d\<close> have "snd ` set ?jobs = set ?d" by (metis list.set_map)
  ultimately show ?thesis using True bitmap_plan_eq [OF True] by (intro if_P [THEN iffD2] exI [of _ ?jobs]) simp_all
next
  case False
  define ew where "ew = (unat n + 63) div 64"
  define k where "k = (ew + WORDS_PER_GROUP - 1) div WORDS_PER_GROUP"
  let ?xss = "map (group_pas bitmap n ew) [0..<k]"
  have "g * WORDS_PER_GROUP \<le> ew" if "g < k" for g
    using that by (simp add: k_def WORDS_PER_GROUP_def)
  then have "map unat (map (group_count bitmap n ew) [0..<k]) = map length ?xss"
    by (simp add: group_count_eq)
  moreover have "concat ?xss = dirty_pages bitmap n" by (rule all_group_pas [OF ew_def k_def])
  ultimately have "prefix_pass 0 (map (group_count bitmap n ew) [0..<k]) 0 = Inl (IoErr InvalidInput)"
    by (intro prefix_pass_overflow [where xss = ?xss]) (use False in simp_all)
  with False show ?thesis unfolding bitmap_plan_def Let_def ew_def [symmetric] k_def [symmetric] by simp
qed

theorem bitmap_plan_exact_witness:
  "\<exists>jobs. bitmap_plan [0x8000000000000001, 0xFF] 66 = Inr (length jobs, jobs) \<and>
     snd ` set jobs = {pa. pa < 66 \<and> bit ([0x8000000000000001, 0xFF :: u64] ! (unat pa div 64)) (unat pa mod 64)}"
proof -
  have "(unat (66 :: u64) + 63) div 64 \<le> length [0x8000000000000001, 0xFF :: u64]" by simp
  moreover have "length (dirty_pages [0x8000000000000001, 0xFF] 66) \<le> 66"
    using length_dirty_pages [of "[0x8000000000000001, 0xFF]" 66] by simp
  ultimately show ?thesis using bitmap_plan_exact [of 66 "[0x8000000000000001, 0xFF]"] by (auto split: if_splits)
qed

end
