(* ===== verification/Append.thy ===== *)
theory Append
  imports Store Writer Shadow Bitmap
begin

text \<open>
  The writer of \<open>bxdb-core/src/append_only.rs\<close>: opening a database, encoding one page
  (\<open>process_one\<close>), saving a full or a sparse snapshot, and flushing. The zstd compressor
  is the parameter \<open>zc\<close>. The thread pool runs the page jobs of a save in an order of its
  own: the parameter \<open>sched\<close> reorders the job list. Each job runs whole here; \<open>Threads\<close> splits
  it at its locks and shows that every interleaving ends like one of these orders.
\<close>

section \<open>State\<close>

record blob_file =
  bf_writer :: buf_writer
  bf_offset :: u64

text \<open>
  \<open>AppendOnlyDb\<close>, with the files of its directory: the log and the blob files it has open
  through their writers, \<open>index.bxdb\<close> and blob files of other workers as they are.
\<close>

record append_db =
  ad_threshold :: nat
  ad_use_shadow :: bool
  ad_shadow :: shadow
  ad_log :: buf_writer
  ad_blobs :: "blob_file list"
  ad_last :: "u32 option"
  ad_index :: "bytes option"
  ad_other_blobs :: blobs

text \<open>The directory as another reader sees it now.\<close>

definition dir_of :: "append_db \<Rightarrow> db_dir" where
  "dir_of db =
     \<lparr>dd_index = ad_index db, dd_log = Some (bw_file (ad_log db)),
      dd_blobs = (\<lambda>w. if unat w < length (ad_blobs db)
        then Some (bw_file (bf_writer (ad_blobs db ! unat w))) else ad_other_blobs db w)\<rparr>"

definition LOG_BUF :: nat where "LOG_BUF = push_bit 20 1"
definition DEFAULT_BUF :: nat where "DEFAULT_BUF = 8192"
definition COMPRESS_CAP :: nat where "COMPRESS_CAP = 8192"

definition open_blob :: "bytes option \<Rightarrow> blob_file" where
  "open_blob f =
     (let content = (case f of None \<Rightarrow> [] | Some c \<Rightarrow> c)
      in \<lparr>bf_writer = \<lparr>bw_file = content, bw_pos = 0, bw_append = True, bw_buf = [], bw_cap = DEFAULT_BUF\<rparr>,
          bf_offset = of_nat (length content)\<rparr>)"

definition append_open :: "db_dir \<Rightarrow> nat \<Rightarrow> u16 \<Rightarrow> bool \<Rightarrow> append_db res" where
  "append_open dir worker_count delta_threshold use_shadow =
     (if worker_count = 0 \<or> 255 < worker_count then Inl (IoErr InvalidInput)
      else
        let threshold = (if delta_threshold = 0 then DEFAULT_DELTA_THRESHOLD else delta_threshold);
            log = (case dd_log dir of None \<Rightarrow> [] | Some l \<Rightarrow> l)
        in rbind
             (if length log = 0 then Inr (write_log_header 0, None)
              else rbind (read_and_verify_header log MAGIC_LOG) (\<lambda>(max_snap, _). Inr (log, Some max_snap)))
             (\<lambda>(log, last_snapshot).
                Inr \<lparr>ad_threshold = unat threshold, ad_use_shadow = use_shadow, ad_shadow = shadow_new,
                  ad_log = \<lparr>bw_file = log, bw_pos = length log, bw_append = False, bw_buf = [], bw_cap = LOG_BUF\<rparr>,
                  ad_blobs = map (\<lambda>i. open_blob (dd_blobs dir (of_nat i))) [0..<worker_count],
                  ad_last = last_snapshot, ad_index = dd_index dir, ad_other_blobs = dd_blobs dir\<rparr>))"

definition append_flush :: "append_db \<Rightarrow> append_db" where
  "append_flush db =
     db\<lparr>ad_log := flush_buf (ad_log db),
        ad_blobs := map (\<lambda>bf. bf\<lparr>bf_writer := flush_buf (bf_writer bf)\<rparr>) (ad_blobs db)\<rparr>"

section \<open>One page\<close>

text \<open>\<open>append_blob\<close>: the bytes are written before the length is checked.\<close>

definition append_blob :: "blob_file \<Rightarrow> bytes \<Rightarrow> (u64 \<times> u32) res \<times> blob_file" where
  "append_blob bf data =
     (let offset = bf_offset bf;
          bf = \<lparr>bf_writer = write_all (bf_writer bf) data, bf_offset = bf_offset bf + of_nat (length data)\<rparr>
      in (if 2 ^ 32 \<le> length data then Inl (IoErr InvalidData) else Inr (offset, of_nat (length data)), bf))"

type_synonym compressor = "bytes \<Rightarrow> bytes option"

definition compress_to_buffer :: "compressor \<Rightarrow> bytes \<Rightarrow> bytes res" where
  "compress_to_buffer zc page =
     (case zc page of
        None \<Rightarrow> Inl (IoErr OtherError)
      | Some z \<Rightarrow> if length z \<le> COMPRESS_CAP then Inr z else Inl (IoErr OtherError))"

definition write_full ::
  "compressor \<Rightarrow> u64 \<Rightarrow> bytes \<Rightarrow> u64 \<Rightarrow> byte \<Rightarrow> shadow \<Rightarrow> blob_file \<Rightarrow> bool \<Rightarrow> chunk_record res \<times> shadow \<times> blob_file" where
  "write_full zc pa page key worker_id sh blob use_shadow =
     (case compress_to_buffer zc page of
        Inl e \<Rightarrow> (Inl e, sh, blob)
      | Inr buf \<Rightarrow>
          (case append_blob blob buf of
             (Inl e, blob) \<Rightarrow> (Inl e, sh, blob)
           | (Inr (offset, len), blob) \<Rightarrow>
               (Inr (new_full key worker_id offset len),
                if use_shadow then insert_if_newer sh pa key page else sh, blob)))"

definition process_one ::
  "compressor \<Rightarrow> u64 \<Rightarrow> bytes \<Rightarrow> u32 \<Rightarrow> byte \<Rightarrow> shadow \<Rightarrow> blob_file \<Rightarrow> nat \<Rightarrow> bool \<Rightarrow>
     chunk_record res \<times> shadow \<times> blob_file" where
  "process_one zc pa page snapshot_id worker_id sh blob threshold use_shadow =
     (let key = encode_key pa snapshot_id;
          delta = (if use_shadow then
              (case shadow_get sh pa of
                 None \<Rightarrow> None
               | Some (base_key, base_page) \<Rightarrow>
                   let patch = compute_xor_patch page base_page
                   in if length patch \<le> threshold then Some (base_key, patch) else None)
            else None)
      in if is_all_zero page then (Inr (new_zero key), sh, blob)
         else case delta of
             Some (base_key, patch) \<Rightarrow>
               (case append_blob blob (encode_delta_patch patch) of
                  (Inl e, blob) \<Rightarrow> (Inl e, sh, blob)
                | (Inr (offset, len), blob) \<Rightarrow> (Inr (new_delta key worker_id offset len base_key), sh, blob))
           | None \<Rightarrow> write_full zc pa page key worker_id sh blob use_shadow)"

section \<open>The jobs of a save\<close>

text \<open>
  What the tasks share: the shadow, the blob files, and the record buffer, whose slots are
  written through \<open>RecordsPtr\<close> and unset until then.
\<close>

record job_state =
  js_shadow :: shadow
  js_blobs :: "blob_file list"
  js_buf :: "nat \<Rightarrow> chunk_record option"

definition run_job :: "compressor \<Rightarrow> append_db \<Rightarrow> bytes \<Rightarrow> u32 \<Rightarrow> job_state \<Rightarrow> nat \<times> u64 \<Rightarrow> unit res \<times> job_state" where
  "run_job zc db mem snapshot_id st = (\<lambda>(slot, pa).
     let mem_off = unat pa * PAGE_SIZE;
         wid = unat pa mod length (js_blobs st)
     in case ok_or (get_range mem mem_off (mem_off + PAGE_SIZE)) Panic of
          Inl e \<Rightarrow> (Inl e, st)
        | Inr page \<Rightarrow>
            (case process_one zc pa page snapshot_id (of_nat wid) (js_shadow st) (js_blobs st ! wid)
                    (ad_threshold db) (ad_use_shadow db) of
               (r, sh, blob) \<Rightarrow>
                 let st = st\<lparr>js_shadow := sh, js_blobs := (js_blobs st)[wid := blob]\<rparr>
                 in case r of
                      Inl e \<Rightarrow> (Inl e, st)
                    | Inr rec \<Rightarrow> (Inr (), st\<lparr>js_buf := (js_buf st)(slot \<mapsto> rec)\<rparr>)))"

fun run_jobs :: "compressor \<Rightarrow> append_db \<Rightarrow> bytes \<Rightarrow> u32 \<Rightarrow> job_state \<Rightarrow> (nat \<times> u64) list \<Rightarrow> unit res \<times> job_state" where
  "run_jobs zc db mem snapshot_id st [] = (Inr (), st)"
| "run_jobs zc db mem snapshot_id st (j # js) =
     (case run_job zc db mem snapshot_id st j of
        (Inl e, st) \<Rightarrow> (Inl e, st)
      | (Inr _, st) \<Rightarrow> run_jobs zc db mem snapshot_id st js)"

text \<open>\<open>set_len(n)\<close> after the tasks: the first \<open>n\<close> slots; a slot never written is undefined.\<close>

fun collect :: "(nat \<Rightarrow> chunk_record option) \<Rightarrow> nat list \<Rightarrow> chunk_record list res" where
  "collect buf [] = Inr []"
| "collect buf (i # is) = rbind (ok_or (buf i) Panic) (\<lambda>r. rbind (collect buf is) (\<lambda>rs. Inr (r # rs)))"

text \<open>\<open>seek(Start(9)); write_all(snapshot_id); seek(End(0))\<close>.\<close>

definition update_header :: "u32 \<Rightarrow> buf_writer \<Rightarrow> buf_writer" where
  "update_header snapshot_id w = seek_end (write_all (seek_start 9 w) (to_le 4 snapshot_id))"

text \<open>The second half of both saves: run the jobs, append the records, update the header.\<close>

definition commit_jobs ::
  "((nat \<times> u64) list \<Rightarrow> (nat \<times> u64) list) \<Rightarrow> compressor \<Rightarrow> bytes \<Rightarrow> u32 \<Rightarrow> nat \<Rightarrow> (nat \<times> u64) list \<Rightarrow>
     append_db \<Rightarrow> unit res \<times> append_db" where
  "commit_jobs sched zc mem snapshot_id n jobs db =
     (case run_jobs zc db mem snapshot_id
             \<lparr>js_shadow = ad_shadow db, js_blobs = ad_blobs db, js_buf = (\<lambda>_. None)\<rparr> (sched jobs) of
        (r, st) \<Rightarrow>
          let db = db\<lparr>ad_shadow := js_shadow st, ad_blobs := js_blobs st\<rparr>
          in case rbind r (\<lambda>_. collect (js_buf st) [0..<n]) of
               Inl e \<Rightarrow> (Inl e, db)
             | Inr records \<Rightarrow>
                 (Inr (), db\<lparr>ad_log := update_header snapshot_id
                    (foldl write_all (ad_log db) (map write_to records))\<rparr>))"

section \<open>Saving\<close>

text \<open>The checks and the assignment both saves start with.\<close>

definition begin_save :: "u32 \<Rightarrow> append_db \<Rightarrow> unit res \<times> append_db" where
  "begin_save snapshot_id db =
     (if MAX_SNAPSHOT_ID < snapshot_id then (Inl (IoErr InvalidInput), db)
      else if (case ad_last db of Some prev \<Rightarrow> snapshot_id \<le> prev | None \<Rightarrow> False)
        then (Inl (IoErr InvalidInput), db)
      else (Inr (), db\<lparr>ad_last := Some snapshot_id\<rparr>))"

definition save_all_pages ::
  "((nat \<times> u64) list \<Rightarrow> (nat \<times> u64) list) \<Rightarrow> compressor \<Rightarrow> bytes \<Rightarrow> u64 \<Rightarrow> u32 \<Rightarrow> append_db \<Rightarrow> unit res \<times> append_db" where
  "save_all_pages sched zc mem total_page_count snapshot_id db =
     (case begin_save snapshot_id db of
        (Inl e, db) \<Rightarrow> (Inl e, db)
      | (Inr _, db) \<Rightarrow>
          let pages = unat total_page_count
          in if length mem \<noteq> pages * PAGE_SIZE then (Inl (IoErr InvalidInput), db)
             else if pages = 0 then (Inr (), db)
             else
               let num_groups = (pages + PAGES_PER_GROUP - 1) div PAGES_PER_GROUP;
                   group = (\<lambda>group_idx.
                     let write_base = group_idx * PAGES_PER_GROUP;
                         group_pa = of_nat (group_idx * PAGES_PER_GROUP);
                         group_pages = (if group_idx + 1 = num_groups then pages - write_base else PAGES_PER_GROUP)
                     in map (\<lambda>i. (write_base + i, group_pa + of_nat i)) [0..<group_pages])
               in commit_jobs sched zc mem snapshot_id pages (concat (map group [0..<num_groups])) db)"

definition save_pages_with_bitmap ::
  "((nat \<times> u64) list \<Rightarrow> (nat \<times> u64) list) \<Rightarrow> compressor \<Rightarrow> bytes \<Rightarrow> u64 list \<Rightarrow> u64 \<Rightarrow> u32 \<Rightarrow> append_db \<Rightarrow> unit res \<times> append_db" where
  "save_pages_with_bitmap sched zc mem dirty_bitmap total_page_count snapshot_id db =
     (case begin_save snapshot_id db of
        (Inl e, db) \<Rightarrow> (Inl e, db)
      | (Inr _, db) \<Rightarrow>
          if length mem \<noteq> unat total_page_count * PAGE_SIZE then (Inl (IoErr InvalidInput), db)
          else
            let expected_words = (unat total_page_count + 63) div 64
            in if length dirty_bitmap < expected_words then (Inl (IoErr InvalidInput), db)
               else if expected_words = 0 then (Inr (), db)
               else case bitmap_plan (take expected_words dirty_bitmap) total_page_count of
                   Inl e \<Rightarrow> (Inl e, db)
                 | Inr (total_dirty, jobs) \<Rightarrow>
                     if total_dirty = 0 then (Inr (), db)
                     else commit_jobs sched zc mem snapshot_id total_dirty jobs db)"

end
