(* ===== verification/Versions.thy ===== *)
theory Versions
  imports Append
begin

text \<open>
  Correctness of the writer. The abstract database is the history of saves, newest first;
  the invariant \<open>db_inv\<close> ties a writer and its files to a history, every save preserves it,
  and a reader of the flushed directory gets exactly what the history says.
\<close>

section \<open>The abstract database\<close>

text \<open>A save: its snapshot number and the pages it wrote (a save of no page leaves no trace).\<close>

type_synonym history = "(u32 \<times> (u64 \<Rightarrow> bytes option)) list"

text \<open>The page a snapshot shows: the one of the newest save up to it that wrote the page.\<close>

fun abs_read :: "history \<Rightarrow> u64 \<Rightarrow> u32 \<Rightarrow> bytes option" where
  "abs_read [] pa s = None"
| "abs_read ((s', m) # h) pa s =
     (if s' \<le> s then (case m pa of Some p \<Rightarrow> Some p | None \<Rightarrow> abs_read h pa s) else abs_read h pa s)"

fun history_ok :: "history \<Rightarrow> bool" where
  "history_ok [] = True"
| "history_ok ((s, m) # h) \<longleftrightarrow>
     s \<le> MAX_SNAPSHOT_ID \<and> (\<exists>pa. m pa \<noteq> None) \<and> (\<forall>pa p. m pa = Some p \<longrightarrow> unat pa < 2 ^ 45) \<and>
     (\<forall>(s', m') \<in> set h. s' < s) \<and> history_ok h"

lemma history_snapshot_le: "history_ok h \<Longrightarrow> (s, m) \<in> set h \<Longrightarrow> s \<le> MAX_SNAPSHOT_ID"
  by (induction h) auto

section \<open>Assumptions on zstd and sizes\<close>

text \<open>
  Compressing a page succeeds, fits the 8 KiB buffer, and decompresses to the page: what the
  zstd documentation promises for a 4 KiB input (its bound is below 4.2 KiB).
\<close>

definition zstd_ok :: "compressor \<Rightarrow> decoder \<Rightarrow> bool" where
  "zstd_ok zc zd \<longleftrightarrow>
     (\<forall>page. length page = PAGE_SIZE \<longrightarrow>
        (\<exists>z. zc page = Some z \<and> length z \<le> COMPRESS_CAP \<and> zd z = Some page))"

text \<open>Room in every blob file for \<open>n\<close> more chunks within 64-bit offsets.\<close>

definition blob_room :: "nat \<Rightarrow> blob_file list \<Rightarrow> bool" where
  "blob_room n bfs \<longleftrightarrow> (\<forall>bf \<in> set bfs. length (bw_view (bf_writer bf)) + n * COMPRESS_CAP < 2 ^ 64)"

definition blob_ok :: "blob_file \<Rightarrow> bool" where
  "blob_ok bf \<longleftrightarrow> appending (bf_writer bf) \<and> unat (bf_offset bf) = length (bw_view (bf_writer bf))"

definition blobs_view :: "blob_file list \<Rightarrow> blobs \<Rightarrow> blobs" where
  "blobs_view bfs others w =
     (if unat w < length bfs then Some (bw_view (bf_writer (bfs ! unat w))) else others w)"

section \<open>Appending one chunk\<close>

lemma append_blob_spec:
  assumes "blob_ok bf" "length data \<le> COMPRESS_CAP" "length (bw_view (bf_writer bf)) + COMPRESS_CAP < 2 ^ 64"
  obtains off len bf' where "append_blob bf data = (Inr (off, len), bf')" "blob_ok bf'"
    "bw_view (bf_writer bf') = bw_view (bf_writer bf) @ data"
    "unat off = length (bw_view (bf_writer bf))" "unat len = length data"
proof
  let ?bf = "\<lparr>bf_writer = write_all (bf_writer bf) data, bf_offset = bf_offset bf + of_nat (length data)\<rparr>"
  have small: "length data < 2 ^ 32" using assms(2) by (simp add: COMPRESS_CAP_def)
  then show "append_blob bf data = (Inr (bf_offset bf, of_nat (length data)), ?bf)"
    by (simp add: append_blob_def Let_def)
  show view: "bw_view (bf_writer ?bf) = bw_view (bf_writer bf) @ data"
    using assms(1) bw.put_view by (simp add: blob_ok_def)
  have "unat (bf_offset bf + of_nat (length data)) = length (bw_view (bf_writer bf)) + length data"
    using assms small by (simp add: blob_ok_def unat_word_ariths unat_of_nat take_bit_nat_eq_self_iff)
  then show "blob_ok ?bf"
    using assms(1) bw.put_ok view by (simp add: blob_ok_def)
  show "unat (bf_offset bf) = length (bw_view (bf_writer bf))"
    using assms(1) by (simp add: blob_ok_def)
  show "unat (of_nat (length data) :: u32) = length data"
    using small by (simp add: unat_of_nat take_bit_nat_eq_self_iff)
qed

text \<open>A record of the appended bytes reads them back.\<close>

lemma appended_range:
  assumes "bl (r_worker_id rec) = Some (f @ d)" "unat (r_offset rec) = length f" "unat (r_len rec) = length d"
    and "length f + length d < 2 ^ 64"
  shows "blob_range bl rec = Some d"
  using assms by (simp add: blob_range_def get_range_def rslice_append_right rslice_full)

text \<open>
  A shadow entry: the page of a Full chunk among the records \<open>R\<close>, of the same page address
  and not newer than \<open>s\<close>. A delta refers to such an entry.
\<close>

definition base_ok :: "decoder \<Rightarrow> blobs \<Rightarrow> chunk_record set \<Rightarrow> u32 \<Rightarrow> u64 \<Rightarrow> u64 \<Rightarrow> bytes \<Rightarrow> bool" where
  "base_ok zd bl R s pa k p \<longleftrightarrow> pa_of k = pa \<and> snapshot_of k \<le> s \<and>
     (\<exists>r \<in> R. r_key r = k \<and> full_at zd bl r p)"

definition based :: "chunk_record \<Rightarrow> bool" where
  "based r \<longleftrightarrow> (r_kind r = Delta \<longrightarrow>
     pa_of (r_base_key r) = pa_of (r_key r) \<and> snapshot_of (r_base_key r) \<le> snapshot_of (r_key r))"

text \<open>What a record written for page \<open>pa\<close> of snapshot \<open>s\<close> satisfies.\<close>

definition rec_ok :: "decoder \<Rightarrow> blobs \<Rightarrow> chunk_record set \<Rightarrow> u32 \<Rightarrow> u64 \<Rightarrow> bytes \<Rightarrow> chunk_record \<Rightarrow> bool" where
  "rec_ok zd bl R s pa page r \<longleftrightarrow>
     r_key r = encode_key pa s \<and> log_record_ok r \<and> based r \<and> chunk_at zd bl R r page \<and>
     (r_kind r = Zero \<longleftrightarrow> is_all_zero page)"

lemma base_ok_grow: "base_ok zd bl R s pa k p \<Longrightarrow> blobs_grow bl bl' \<Longrightarrow> R \<subseteq> R' \<Longrightarrow> base_ok zd bl' R' s pa k p"
  unfolding base_ok_def using full_at_grow by blast

lemma rec_ok_grow: "rec_ok zd bl R s pa p r \<Longrightarrow> blobs_grow bl bl' \<Longrightarrow> R \<subseteq> R' \<Longrightarrow> rec_ok zd bl' R' s pa p r"
  unfolding rec_ok_def using chunk_at_grow by blast

lemma write_full_spec:
  assumes zstd: "zstd_ok zc zd" and page: "length page = PAGE_SIZE"
    and blob: "blob_ok blob" "length (bw_view (bf_writer blob)) + COMPRESS_CAP < 2 ^ 64"
    and run: "write_full zc pa page (encode_key pa s) wid sh blob use_shadow = (res, sh', blob')"
  shows "\<exists>rec d. res = Inr rec \<and> blob_ok blob' \<and> length d \<le> COMPRESS_CAP \<and>
    bw_view (bf_writer blob') = bw_view (bf_writer blob) @ d \<and>
    r_key rec = encode_key pa s \<and> log_record_ok rec \<and> based rec \<and>
    (bl wid = Some (bw_view (bf_writer blob')) \<longrightarrow> full_at zd bl rec page) \<and>
    sh' = (if use_shadow then insert_if_newer sh pa (encode_key pa s) page else sh)"
proof -
  obtain z where z: "zc page = Some z" "length z \<le> COMPRESS_CAP" "zd z = Some page"
    using zstd page by (auto simp: zstd_ok_def)
  obtain off len bf' where ap: "append_blob blob z = (Inr (off, len), bf')" "blob_ok bf'"
    "bw_view (bf_writer bf') = bw_view (bf_writer blob) @ z"
    "unat off = length (bw_view (bf_writer blob))" "unat len = length z"
    by (rule append_blob_spec [OF blob(1) z(2) blob(2)])
  let ?r = "new_full (encode_key pa s) wid off len"
  have "full_at zd bl ?r page" if "bl wid = Some (bw_view (bf_writer bf'))"
  proof -
    have "blob_range bl ?r = Some z"
      by (rule appended_range [where f = "bw_view (bf_writer blob)"])
        (use that ap z blob in \<open>auto simp: new_record_defs\<close>)
    with z page show ?thesis by (simp add: full_at_def new_record_defs)
  qed
  moreover have "res = Inr ?r" "blob' = bf'" "sh' = (if use_shadow then insert_if_newer sh pa (encode_key pa s) page else sh)"
    using run ap(1) z(1,2) by (simp_all add: write_full_def compress_to_buffer_def split: if_splits)
  moreover have "r_key ?r = encode_key pa s" "log_record_ok ?r" "based ?r"
    by (simp_all add: new_record_defs log_record_ok_def based_def)
  ultimately show ?thesis using ap z(2) by blast
qed

text \<open>
  One page: whatever branch is taken, the record decodes to the page over the blob files as
  they then are, and the shadow still holds base pages only.
\<close>

lemma process_one_spec:
  assumes zstd: "zstd_ok zc zd" and page: "length page = PAGE_SIZE"
    and pa: "unat pa < 2 ^ 45" and s: "s \<le> MAX_SNAPSHOT_ID"
    and blob: "blob_ok blob" "length (bw_view (bf_writer blob)) + COMPRESS_CAP < 2 ^ 64"
    and bl: "bl wid = Some (bw_view (bf_writer blob))"
    and sh: "bases.all_entries (base_ok zd bl R s) sh"
    and run: "process_one zc pa page s wid sh blob threshold use_shadow = (res, sh', blob')"
  shows "\<exists>rec d. res = Inr rec \<and> blob_ok blob' \<and> length d \<le> COMPRESS_CAP \<and>
    bw_view (bf_writer blob') = bw_view (bf_writer blob) @ d \<and>
    rec_ok zd (bl(wid \<mapsto> bw_view (bf_writer blob'))) (insert rec R) s pa page rec \<and>
    bases.all_entries (base_ok zd (bl(wid \<mapsto> bw_view (bf_writer blob'))) (insert rec R) s) sh'"
proof -
  let ?key = "encode_key pa s"
  have grow: "blobs_grow bl (bl(wid \<mapsto> bw_view (bf_writer blob) @ d))" for d
    using bl by (auto simp: blobs_grow_def intro: exI [of _ "[]"])
  have key: "pa_of ?key = pa" "snapshot_of ?key = s"
    using pa s by (simp_all add: pa_of_encode_key_small)
  have sh_grow: "bases.all_entries (base_ok zd (bl(wid \<mapsto> bw_view (bf_writer blob) @ d)) (insert r R) s) sh" for d r
    using sh by (rule bases.all_entries_mono) (rule base_ok_grow [OF _ grow], auto)
  define delta where "delta = (if use_shadow then
      (case shadow_get sh pa of
         None \<Rightarrow> None
       | Some (base_key, base_page) \<Rightarrow>
           let patch = compute_xor_patch page base_page
           in if length patch \<le> threshold then Some (base_key, patch) else None)
    else None)"
  show ?thesis
  proof (cases "is_all_zero page")
    case True
    then have "page = replicate PAGE_SIZE 0" using page by (simp add: is_all_zero_iff)
    then have "rec_ok zd bl (insert (new_zero ?key) R) s pa page (new_zero ?key)"
      using True by (simp add: rec_ok_def new_record_defs log_record_ok_def based_def chunk_at_def)
    with True run blob sh_grow [of "[]" "new_zero ?key"] bl show ?thesis
      by (auto simp: process_one_def Let_def map_upd_triv intro!: exI [of _ "[]"])
  next
    case nonzero: False
    show ?thesis
    proof (cases delta)
      case None
      then have full: "write_full zc pa page ?key wid sh blob use_shadow = (res, sh', blob')"
        using run nonzero unfolding process_one_def delta_def Let_def by simp
      obtain rec d where rec: "res = Inr rec" "blob_ok blob'" "length d \<le> COMPRESS_CAP"
        "bw_view (bf_writer blob') = bw_view (bf_writer blob) @ d"
        "r_key rec = ?key" "log_record_ok rec" "based rec"
        "full_at zd (bl(wid \<mapsto> bw_view (bf_writer blob'))) rec page"
        "sh' = (if use_shadow then insert_if_newer sh pa ?key page else sh)"
        using write_full_spec [OF zstd page blob full, of "bl(wid \<mapsto> bw_view (bf_writer blob'))"] by auto
      have "base_ok zd (bl(wid \<mapsto> bw_view (bf_writer blob'))) (insert rec R) s pa ?key page"
        using rec key by (auto simp: base_ok_def)
      then have "bases.all_entries (base_ok zd (bl(wid \<mapsto> bw_view (bf_writer blob'))) (insert rec R) s) sh'"
        using rec(4,9) sh_grow [of d rec] by (simp add: bases.all_entries_ins)
      moreover have "rec_ok zd (bl(wid \<mapsto> bw_view (bf_writer blob'))) (insert rec R) s pa page rec"
        using rec nonzero by (auto simp: rec_ok_def chunk_at_def full_at_def)
      ultimately show ?thesis using rec by blast
    next
      case (Some bp)
      then obtain k base where get: "shadow_get sh pa = Some (k, base)" and bp: "bp = (k, compute_xor_patch page base)"
        by (auto simp: delta_def Let_def split: if_splits option.splits)
      let ?data = "encode_delta_patch (compute_xor_patch page base)"
      have base: "base_ok zd bl R s pa k base" by (rule bases.all_entriesD [OF sh get])
      have "length ?data \<le> COMPRESS_CAP"
        using length_compute_xor_patch [of page base]
        by (simp add: length_encode_delta_patch COMPRESS_CAP_def PAGE_WORDS_val)
      then obtain off len bf' where ap: "append_blob blob ?data = (Inr (off, len), bf')" "blob_ok bf'"
        "bw_view (bf_writer bf') = bw_view (bf_writer blob) @ ?data"
        "unat off = length (bw_view (bf_writer blob))" "unat len = length ?data"
        using append_blob_spec [OF blob(1) _ blob(2)] by blast
      let ?r = "new_delta ?key wid off len k" and ?bl = "bl(wid \<mapsto> bw_view (bf_writer bf'))"
      have res: "res = Inr ?r" "sh' = sh" "blob' = bf'"
        using run nonzero Some bp ap(1) unfolding process_one_def Let_def [of "encode_key _ _"] delta_def [symmetric]
        by simp_all
      obtain b where b: "b \<in> R" "r_key b = k" "full_at zd ?bl b base"
        using base full_at_grow [OF _ grow] unfolding base_ok_def ap(3) by blast
      have "blob_range ?bl ?r = Some ?data"
        by (rule appended_range [where f = "bw_view (bf_writer blob)"])
          (use ap blob \<open>length ?data \<le> COMPRESS_CAP\<close> in \<open>auto simp: new_record_defs\<close>)
      moreover have "length base = PAGE_SIZE" using b(3) by (simp add: full_at_def)
      ultimately have "chunk_at zd ?bl (insert ?r R) ?r page"
        using b apply_compute_patch [OF page] by (auto simp: chunk_at_def new_record_defs)
      then have "rec_ok zd ?bl (insert ?r R) s pa page ?r"
        using base key nonzero by (simp add: rec_ok_def log_record_ok_def based_def base_ok_def new_record_defs)
      with res ap sh_grow [of ?data ?r] \<open>length ?data \<le> COMPRESS_CAP\<close> show ?thesis
        by (intro exI [of _ ?r] exI [of _ ?data]) simp
    qed
  qed
qed

section \<open>All jobs of a save\<close>

definition page_at :: "bytes \<Rightarrow> u64 \<Rightarrow> bytes" where
  "page_at mem pa = rslice (unat pa * PAGE_SIZE) (unat pa * PAGE_SIZE + PAGE_SIZE) mem"

text \<open>The jobs \<open>D\<close> are done: their slots, and no others, hold records of their pages.\<close>

definition job_inv ::
  "decoder \<Rightarrow> blobs \<Rightarrow> bytes \<Rightarrow> u32 \<Rightarrow> chunk_record set \<Rightarrow> (nat \<times> u64) set \<Rightarrow> job_state \<Rightarrow> bool" where
  "job_inv zd others mem s R D st \<longleftrightarrow>
     0 < length (js_blobs st) \<and> length (js_blobs st) \<le> 255 \<and> (\<forall>bf \<in> set (js_blobs st). blob_ok bf) \<and>
     dom (js_buf st) = fst ` D \<and>
     bases.all_entries (base_ok zd (blobs_view (js_blobs st) others) (R \<union> ran (js_buf st)) s) (js_shadow st) \<and>
     (\<forall>(i, pa) \<in> D. \<exists>rec. js_buf st i = Some rec \<and>
        rec_ok zd (blobs_view (js_blobs st) others) (R \<union> ran (js_buf st)) s pa (page_at mem pa) rec)"

lemma blobs_view_update:
  assumes "i < length bfs" "length bfs \<le> 255"
  shows "blobs_view (bfs[i := bf]) others = (blobs_view bfs others)(of_nat i \<mapsto> bw_view (bf_writer bf))"
proof -
  have i: "unat (of_nat i :: byte) = i"
    using assms by (simp add: unat_of_nat take_bit_nat_eq_self_iff)
  show ?thesis
  proof
    fix w :: byte
    show "blobs_view (bfs[i := bf]) others w = ((blobs_view bfs others)(of_nat i \<mapsto> bw_view (bf_writer bf))) w"
    proof (cases "w = of_nat i")
      case True
      with assms i show ?thesis by (simp add: blobs_view_def)
    next
      case False
      with i have "unat w \<noteq> i" by (auto simp: word_unat_eq_iff)
      with False show ?thesis by (simp add: blobs_view_def)
    qed
  qed
qed

lemma blob_room_update:
  assumes "blob_room (Suc n) bfs" "i < length bfs" "length d \<le> COMPRESS_CAP"
    and "bw_view (bf_writer bf) = bw_view (bf_writer (bfs ! i)) @ d"
  shows "blob_room n (bfs[i := bf])"
proof -
  have old: "length (bw_view (bf_writer b)) + Suc n * COMPRESS_CAP < 2 ^ 64" if "b \<in> set bfs" for b
    using assms(1) that unfolding blob_room_def by blast
  have "length (bw_view (bf_writer bf)) + n * COMPRESS_CAP < 2 ^ 64"
    using old [of "bfs ! i"] assms by simp
  moreover have "length (bw_view (bf_writer b)) + n * COMPRESS_CAP < 2 ^ 64" if "b \<in> set bfs" for b
    using old [OF that] by simp
  ultimately show ?thesis
    using set_update_subset_insert [of bfs i bf] unfolding blob_room_def by auto
qed

lemma run_job_step:
  assumes inv: "job_inv zd others mem s R D st" and zstd: "zstd_ok zc zd" and s: "s \<le> MAX_SNAPSHOT_ID"
    and fresh: "i \<notin> fst ` D" and pa: "unat pa < 2 ^ 45" "unat pa * PAGE_SIZE + PAGE_SIZE \<le> length mem"
    and room: "blob_room (Suc n) (js_blobs st)"
  obtains st' where "run_job zc db mem s st (i, pa) = (Inr (), st')"
    "job_inv zd others mem s R (insert (i, pa) D) st'" "blob_room n (js_blobs st')"
    "blobs_grow (blobs_view (js_blobs st) others) (blobs_view (js_blobs st') others)"
    "length (js_blobs st') = length (js_blobs st)"
proof -
  define wid where "wid = unat pa mod length (js_blobs st)"
  let ?bl = "blobs_view (js_blobs st) others" and ?R = "R \<union> ran (js_buf st)"
  let ?blob = "js_blobs st ! wid"
  from inv have len: "0 < length (js_blobs st)" "length (js_blobs st) \<le> 255"
    and ok: "\<forall>bf \<in> set (js_blobs st). blob_ok bf" and dom: "dom (js_buf st) = fst ` D"
    and sh: "bases.all_entries (base_ok zd ?bl ?R s) (js_shadow st)"
    and done_jobs: "\<And>i pa. (i, pa) \<in> D \<Longrightarrow> \<exists>rec. js_buf st i = Some rec \<and> rec_ok zd ?bl ?R s pa (page_at mem pa) rec"
    unfolding job_inv_def by auto
  have wid: "wid < length (js_blobs st)" using len by (simp add: wid_def)
  then have widb: "unat (of_nat wid :: byte) = wid"
    using len by (simp add: unat_of_nat take_bit_nat_eq_self_iff)
  have blob: "blob_ok ?blob" "length (bw_view (bf_writer ?blob)) + COMPRESS_CAP < 2 ^ 64"
    using ok room wid unfolding blob_room_def by (auto simp: add.assoc dest!: bspec [OF _ nth_mem])
  have bl: "?bl (of_nat wid) = Some (bw_view (bf_writer ?blob))"
    using wid widb by (simp add: blobs_view_def)
  have page: "get_range mem (unat pa * PAGE_SIZE) (unat pa * PAGE_SIZE + PAGE_SIZE) = Some (page_at mem pa)"
    "length (page_at mem pa) = PAGE_SIZE"
    using pa(2) by (simp_all add: get_range_def page_at_def)
  obtain res sh' blob' where run: "process_one zc pa (page_at mem pa) s (of_nat wid) (js_shadow st) ?blob
      (ad_threshold db) (ad_use_shadow db) = (res, sh', blob')" by (metis prod_cases3)
  obtain rec d where rec: "res = Inr rec" "blob_ok blob'" "length d \<le> COMPRESS_CAP"
    "bw_view (bf_writer blob') = bw_view (bf_writer ?blob) @ d"
    "rec_ok zd (?bl(of_nat wid \<mapsto> bw_view (bf_writer blob'))) (insert rec ?R) s pa (page_at mem pa) rec"
    "bases.all_entries (base_ok zd (?bl(of_nat wid \<mapsto> bw_view (bf_writer blob'))) (insert rec ?R) s) sh'"
    using process_one_spec [OF zstd page(2) pa(1) s blob bl sh run] by blast
  let ?st = "st\<lparr>js_shadow := sh', js_blobs := (js_blobs st)[wid := blob'], js_buf := (js_buf st)(i \<mapsto> rec)\<rparr>"
  have view: "blobs_view (js_blobs ?st) others = ?bl(of_nat wid \<mapsto> bw_view (bf_writer blob'))"
    using blobs_view_update [OF wid len(2)] by simp
  have "i \<notin> dom (js_buf st)" using fresh dom by simp
  then have ran: "R \<union> ran (js_buf ?st) = insert rec ?R"
    by (simp add: domIff ran_map_upd)
  have grow: "blobs_grow ?bl (blobs_view (js_blobs ?st) others)"
    unfolding view rec(4) using bl by (auto simp: blobs_grow_def intro: exI [of _ "[]"])
  have each: "\<exists>r. js_buf ?st j = Some r \<and> rec_ok zd (blobs_view (js_blobs ?st) others) (R \<union> ran (js_buf ?st)) s q (page_at mem q) r"
    if "(j, q) \<in> insert (i, pa) D" for j q
  proof (cases "(j, q) = (i, pa)")
    case True
    with rec(5) show ?thesis unfolding ran view by simp
  next
    case False
    with that have jq: "(j, q) \<in> D" by blast
    then have "j \<noteq> i" using fresh by force
    moreover obtain r where "js_buf st j = Some r" "rec_ok zd ?bl ?R s q (page_at mem q) r"
      using done_jobs [OF jq] by blast
    ultimately show ?thesis
      using rec_ok_grow [OF _ grow, of zd ?R s q "page_at mem q" r "insert rec ?R"] unfolding ran by auto
  qed
  have jobs: "\<forall>(j, q) \<in> insert (i, pa) D. \<exists>r. js_buf ?st j = Some r \<and>
      rec_ok zd (blobs_view (js_blobs ?st) others) (R \<union> ran (js_buf ?st)) s q (page_at mem q) r"
    by (rule ballI, clarify, rule each)
  have "\<forall>bf \<in> set (js_blobs ?st). blob_ok bf"
    using ok rec(2) set_update_subset_insert [of "js_blobs st" wid blob'] by auto
  moreover have "dom (js_buf ?st) = fst ` insert (i, pa) D" using dom by simp
  moreover have "bases.all_entries (base_ok zd (blobs_view (js_blobs ?st) others) (R \<union> ran (js_buf ?st)) s) (js_shadow ?st)"
    using rec(6) unfolding ran view by simp
  moreover have "0 < length (js_blobs ?st)" "length (js_blobs ?st) \<le> 255" using len by simp_all
  ultimately have "job_inv zd others mem s R (insert (i, pa) D) ?st"
    unfolding job_inv_def using jobs by (intro conjI)
  moreover have "run_job zc db mem s st (i, pa) = (Inr (), ?st)"
    unfolding run_job_def using page(1) run rec(1) by (simp add: Let_def flip: wid_def)
  moreover have "blob_room n (js_blobs ?st)"
    using blob_room_update [OF room wid rec(3,4)] by simp
  ultimately show thesis using that grow by simp
qed

lemma run_jobs_spec:
  assumes "job_inv zd others mem s R D st" and zstd: "zstd_ok zc zd" and s: "s \<le> MAX_SNAPSHOT_ID"
    and "distinct (map fst js)" "fst ` set js \<inter> fst ` D = {}"
    and "\<forall>(i, pa) \<in> set js. unat pa < 2 ^ 45 \<and> unat pa * PAGE_SIZE + PAGE_SIZE \<le> length mem"
    and "blob_room (length js + n) (js_blobs st)"
  shows "\<exists>st'. run_jobs zc db mem s st js = (Inr (), st') \<and> job_inv zd others mem s R (D \<union> set js) st' \<and>
    blob_room n (js_blobs st') \<and>
    blobs_grow (blobs_view (js_blobs st) others) (blobs_view (js_blobs st') others) \<and>
    length (js_blobs st') = length (js_blobs st)"
  using assms(1,4-)
proof (induction js arbitrary: st D)
  case Nil
  then show ?case by (simp add: blobs_grow_refl)
next
  case (Cons j js)
  obtain i pa where j: "j = (i, pa)" by fastforce
  have "i \<notin> fst ` D" "unat pa < 2 ^ 45" "unat pa * PAGE_SIZE + PAGE_SIZE \<le> length mem"
    "blob_room (Suc (length js + n)) (js_blobs st)"
    using Cons.prems j by auto
  then obtain st1 where st1: "run_job zc db mem s st (i, pa) = (Inr (), st1)"
    "job_inv zd others mem s R (insert (i, pa) D) st1" "blob_room (length js + n) (js_blobs st1)"
    "blobs_grow (blobs_view (js_blobs st) others) (blobs_view (js_blobs st1) others)"
    "length (js_blobs st1) = length (js_blobs st)"
    by (rule run_job_step [OF Cons.prems(1) zstd s])
  have "fst ` set js \<inter> fst ` insert (i, pa) D = {}" using Cons.prems j by auto
  with Cons.IH [OF st1(2)] Cons.prems(2,4) st1(3)
  obtain st' where "run_jobs zc db mem s st1 js = (Inr (), st')"
    "job_inv zd others mem s R (insert (i, pa) D \<union> set js) st'" "blob_room n (js_blobs st')"
    "blobs_grow (blobs_view (js_blobs st1) others) (blobs_view (js_blobs st') others)"
    "length (js_blobs st') = length (js_blobs st1)"
    by auto
  with st1 j show ?case by (auto intro: blobs_grow_trans)
qed

section \<open>The invariant of a database\<close>

text \<open>The records are those of the history, each decoding to the page that was saved.\<close>

definition hist_match :: "decoder \<Rightarrow> blobs \<Rightarrow> chunk_record list \<Rightarrow> history \<Rightarrow> bool" where
  "hist_match zd bl rs h \<longleftrightarrow>
     distinct (map r_key rs) \<and>
     (\<forall>r \<in> set rs. \<exists>(s, m) \<in> set h. \<exists>pa p. m pa = Some p \<and> rec_ok zd bl (set rs) s pa p r) \<and>
     (\<forall>(s, m) \<in> set h. \<forall>pa p. m pa = Some p \<longrightarrow> (\<exists>r \<in> set rs. rec_ok zd bl (set rs) s pa p r))"

definition last_or_zero :: "append_db \<Rightarrow> u32" where
  "last_or_zero db = (case ad_last db of None \<Rightarrow> 0 | Some l \<Rightarrow> l)"

definition db_view :: "append_db \<Rightarrow> blobs" where
  "db_view db = blobs_view (ad_blobs db) (ad_other_blobs db)"

text \<open>The log holds a header and the records, with nothing buffered between operations.\<close>

definition log_inv :: "buf_writer \<Rightarrow> u32 \<Rightarrow> chunk_record list \<Rightarrow> bool" where
  "log_inv w hdr rs \<longleftrightarrow> appending w \<and> \<not> bw_append w \<and> bw_buf w = [] \<and> bw_file w = log_file hdr rs"

definition db_inv :: "decoder \<Rightarrow> history \<Rightarrow> append_db \<Rightarrow> chunk_record list \<Rightarrow> bool" where
  "db_inv zd h db rs \<longleftrightarrow>
     (\<exists>hdr. log_inv (ad_log db) hdr rs \<and> (\<forall>(s, m) \<in> set h. s \<le> hdr)) \<and>
     (case ad_last db of None \<Rightarrow> h = [] | Some l \<Rightarrow> \<forall>(s, m) \<in> set h. s \<le> l) \<and>
     history_ok h \<and> hist_match zd (db_view db) rs h \<and>
     0 < length (ad_blobs db) \<and> length (ad_blobs db) \<le> 255 \<and> (\<forall>bf \<in> set (ad_blobs db). blob_ok bf) \<and>
     bases.all_entries (base_ok zd (db_view db) (set rs) (last_or_zero db)) (ad_shadow db)"

definition save_map :: "bytes \<Rightarrow> u64 list \<Rightarrow> u64 \<Rightarrow> bytes option" where
  "save_map mem pas pa = (if pa \<in> set pas then Some (page_at mem pa) else None)"

lemma collect_all:
  "\<forall>i \<in> set is. \<exists>r. buf i = Some r \<Longrightarrow> collect buf is = Inr (map (the \<circ> buf) is)"
  by (induction "is") auto

lemma append_records_log:
  assumes "log_inv w hdr rs"
  shows "log_inv (update_header s (foldl write_all w (map write_to recs))) s (rs @ recs)"
proof -
  let ?v = "foldl write_all w (map write_to recs)"
  have keep: "\<not> bw_append (foldl write_all w ds)" for ds
  proof (induction ds rule: rev_induct)
    case Nil
    then show ?case using assms by (simp add: log_inv_def)
  next
    case (snoc d ds)
    then show ?case by (simp add: write_all_def flush_buf_def raw_write_def Let_def)
  qed
  have v: "appending ?v" "bw_view ?v = log_file hdr (rs @ recs)"
    using bw.puts_view [of w "map write_to recs"] assms
    by (simp_all add: log_inv_def bw_view_def log_file_def encode_log_def)
  then have "9 + length (to_le 4 s) \<le> length (bw_view ?v)"
    by (simp add: log_file_def HEADER_SIZE_def)
  from seek_write_seek [OF v(1) keep this] v(2) patch_max_snapshot_log_file [of s hdr "rs @ recs"]
  show ?thesis
    by (simp add: log_inv_def update_header_def patch_max_snapshot_def)
qed

lemma hist_match_recE:
  assumes "hist_match zd bl rs h" "r \<in> set rs"
  obtains s m pa p where "(s, m) \<in> set h" "m pa = Some p" "rec_ok zd bl (set rs) s pa p r"
proof -
  have "\<exists>(s, m) \<in> set h. \<exists>pa p. m pa = Some p \<and> rec_ok zd bl (set rs) s pa p r"
    using assms by (simp add: hist_match_def)
  then show thesis using that by (elim bexE exE conjE) (auto split: prod.splits)
qed

lemma hist_match_pageE:
  assumes "hist_match zd bl rs h" "(s, m) \<in> set h" "m pa = Some p"
  obtains r where "r \<in> set rs" "rec_ok zd bl (set rs) s pa p r"
proof -
  have "\<forall>x \<in> set h. case x of (s, m) \<Rightarrow> \<forall>pa p. m pa = Some p \<longrightarrow> (\<exists>r \<in> set rs. rec_ok zd bl (set rs) s pa p r)"
    using assms(1) unfolding hist_match_def by (elim conjE)
  from bspec [OF this assms(2)] assms(3) show thesis using that by auto
qed

lemma hist_match_extend:
  assumes old: "hist_match zd bl rs h" and h: "history_ok h" "\<forall>(s', m) \<in> set h. s' < s" and s: "s \<le> MAX_SNAPSHOT_ID"
    and grow: "blobs_grow bl bl'"
    and pas: "distinct pas" "\<forall>pa \<in> set pas. unat pa < 2 ^ 45" "length recs = length pas"
    and recs: "\<forall>i < length pas. rec_ok zd bl' (set (rs @ recs)) s (pas ! i) (page_at mem (pas ! i)) (recs ! i)"
  shows "hist_match zd bl' (rs @ recs) ((s, save_map mem pas) # h)"
proof -
  have upd: "rec_ok zd bl' (set (rs @ recs)) s' pa p r" if "rec_ok zd bl (set rs) s' pa p r" for s' pa p r
    using that grow by (rule rec_ok_grow) simp
  have snaps: "snapshot_of (r_key r) < s" if "r \<in> set rs" for r
  proof -
    obtain s' m pa p where sm: "(s', m) \<in> set h" "rec_ok zd bl (set rs) s' pa p r"
      by (rule hist_match_recE [OF old \<open>r \<in> set rs\<close>])
    with bspec [OF h(2) sm(1)] have lt: "s' < s" by simp
    with s have "s' \<le> MAX_SNAPSHOT_ID" by simp
    with sm(2) lt show ?thesis by (simp add: rec_ok_def)
  qed
  have key: "r_key (recs ! i) = encode_key (pas ! i) s" if "i < length pas" for i
    using recs that by (simp add: rec_ok_def)
  have "inj_on (\<lambda>pa. encode_key pa s) (set pas)"
    by (rule inj_onI) (metis pas(2) pa_of_encode_key_small)
  moreover have "map r_key recs = map (\<lambda>pa. encode_key pa s) pas"
    by (rule nth_equalityI) (simp_all add: pas(3) key)
  ultimately have "distinct (map r_key recs)" using pas(1) by (simp add: distinct_map)
  moreover have "snapshot_of (r_key r) = s" if "r \<in> set recs" for r
    using that key s pas(3) by (auto simp: in_set_conv_nth)
  then have "r_key ` set rs \<inter> r_key ` set recs = {}" using snaps by fastforce
  ultimately have "distinct (map r_key (rs @ recs))"
    using old by (simp add: hist_match_def)
  moreover have "\<exists>(s', m) \<in> set ((s, save_map mem pas) # h). \<exists>pa p. m pa = Some p \<and> rec_ok zd bl' (set (rs @ recs)) s' pa p r"
    if "r \<in> set (rs @ recs)" for r
  proof (cases "r \<in> set rs")
    case True
    obtain s' m pa p where sm: "(s', m) \<in> set h" "m pa = Some p" "rec_ok zd bl (set rs) s' pa p r"
      by (rule hist_match_recE [OF old True])
    from sm(1,2) upd [OF sm(3)] show ?thesis by (intro bexI [of _ "(s', m)"]) auto
  next
    case False
    with that obtain i where i: "i < length pas" "recs ! i = r" using pas(3) by (auto simp: in_set_conv_nth)
    then have "save_map mem pas (pas ! i) = Some (page_at mem (pas ! i))" by (simp add: save_map_def)
    with recs i show ?thesis by (intro bexI [of _ "(s, save_map mem pas)"]) auto
  qed
  moreover have "\<exists>r \<in> set (rs @ recs). rec_ok zd bl' (set (rs @ recs)) s' pa p r"
    if sm: "(s', m) \<in> set ((s, save_map mem pas) # h)" "m pa = Some p" for s' m pa p
  proof (cases "(s', m) \<in> set h")
    case True
    obtain r where r: "r \<in> set rs" "rec_ok zd bl (set rs) s' pa p r"
      by (rule hist_match_pageE [OF old True sm(2)])
    from r(1) upd [OF r(2)] show ?thesis by (intro bexI [of _ r]) auto
  next
    case False
    with sm have "s' = s" "m = save_map mem pas" by auto
    with sm(2) obtain i where "i < length pas" "pas ! i = pa" "p = page_at mem pa"
      by (auto simp: save_map_def in_set_conv_nth split: if_splits)
    with recs \<open>s' = s\<close> pas(3) show ?thesis by (intro bexI [of _ "recs ! i"]) auto
  qed
  ultimately show ?thesis unfolding hist_match_def by (intro conjI ballI) (auto simp only: split_beta fst_conv snd_conv)
qed

text \<open>A schedule runs every job exactly once.\<close>

definition schedule_ok :: "('j list \<Rightarrow> 'j list) \<Rightarrow> bool" where
  "schedule_ok sched \<longleftrightarrow> (\<forall>js. distinct js \<longrightarrow> set (sched js) = set js \<and> distinct (sched js))"

lemma set_enumerate_0: "(i, x) \<in> set (enumerate 0 xs) \<longleftrightarrow> i < length xs \<and> xs ! i = x"
  by (auto simp: in_set_enumerate_eq)

lemma schedule_enumerate:
  assumes "schedule_ok sched"
  shows "set (sched (enumerate 0 xs)) = set (enumerate 0 xs)" "distinct (map fst (sched (enumerate 0 xs)))"
    "length (sched (enumerate 0 xs)) = length xs"
proof -
  have "distinct (enumerate 0 xs)" by simp
  with assms have s: "set (sched (enumerate 0 xs)) = set (enumerate 0 xs)" "distinct (sched (enumerate 0 xs))"
    unfolding schedule_ok_def by blast+
  have "inj_on fst (set (enumerate 0 xs))"
    by (rule inj_onI) (auto simp: set_enumerate_0)
  with s show "set (sched (enumerate 0 xs)) = set (enumerate 0 xs)" "distinct (map fst (sched (enumerate 0 xs)))"
    by (simp_all add: distinct_map)
  have "length (sched (enumerate 0 xs)) = card (set (sched (enumerate 0 xs)))"
    by (rule distinct_card [OF s(2), symmetric])
  also have "\<dots> = length (enumerate 0 xs)" unfolding s(1) by (rule distinct_card) simp
  finally show "length (sched (enumerate 0 xs)) = length xs" by simp
qed

text \<open>The part of a save after its checks, in any schedule.\<close>

lemma commit_jobs_spec:
  assumes inv: "db_inv zd h db rs" and zstd: "zstd_ok zc zd" and sched: "schedule_ok sched"
    and s: "s \<le> MAX_SNAPSHOT_ID" "\<forall>(s', m) \<in> set h. s' < s" "last_or_zero db \<le> s"
    and pas: "distinct pas" "\<forall>pa \<in> set pas. unat pa < 2 ^ 45 \<and> unat pa * PAGE_SIZE + PAGE_SIZE \<le> length mem"
    and some: "pas \<noteq> []"
    and room: "blob_room (length pas + n) (ad_blobs db)"
  shows "\<exists>db' recs. commit_jobs sched zc mem s (length pas) (enumerate 0 pas) (db\<lparr>ad_last := Some s\<rparr>) = (Inr (), db') \<and>
    db_inv zd ((s, save_map mem pas) # h) db' (rs @ recs) \<and>
    map r_key recs = map (\<lambda>pa. encode_key pa s) pas \<and> log_inv (ad_log db') s (rs @ recs) \<and>
    blobs_grow (db_view db) (db_view db') \<and> blob_room n (ad_blobs db')"
proof -
  let ?db = "db\<lparr>ad_last := Some s\<rparr>" and ?others = "ad_other_blobs db" and ?R = "set rs"
  let ?st0 = "\<lparr>js_shadow = ad_shadow db, js_blobs = ad_blobs db, js_buf = (\<lambda>_. None)\<rparr>"
  let ?jobs = "sched (enumerate 0 pas)"
  note jobs = schedule_enumerate [OF sched, of pas]
  obtain hdr where log: "log_inv (ad_log db) hdr rs" using inv by (auto simp: db_inv_def)
  have hm: "hist_match zd (db_view db) rs h" and hok: "history_ok h"
    and bfs: "0 < length (ad_blobs db)" "length (ad_blobs db) \<le> 255" "\<forall>bf \<in> set (ad_blobs db). blob_ok bf"
    and sh: "bases.all_entries (base_ok zd (db_view db) ?R (last_or_zero db)) (ad_shadow db)"
    using inv unfolding db_inv_def by blast+
  have "bases.all_entries (base_ok zd (db_view db) ?R s) (ad_shadow db)"
    by (rule bases.all_entries_mono [OF sh]) (use s(3) in \<open>auto simp: base_ok_def\<close>)
  then have start: "job_inv zd ?others mem s ?R {} ?st0"
    using bfs by (simp add: job_inv_def db_view_def)
  have in_mem: "\<forall>(i, pa) \<in> set ?jobs. unat pa < 2 ^ 45 \<and> unat pa * PAGE_SIZE + PAGE_SIZE \<le> length mem"
    unfolding jobs(1) using pas(2) by (auto simp: set_enumerate_0 dest!: bspec [OF _ nth_mem])
  have "fst ` set ?jobs \<inter> fst ` {} = {}" by simp
  from run_jobs_spec [OF start zstd s(1) jobs(2) this in_mem, of n ?db] room
  obtain st where run: "run_jobs zc ?db mem s ?st0 ?jobs = (Inr (), st)"
    and st: "job_inv zd ?others mem s ?R (set ?jobs) st" and room': "blob_room n (js_blobs st)"
    and grow: "blobs_grow (db_view db) (blobs_view (js_blobs st) ?others)"
    and len: "length (js_blobs st) = length (ad_blobs db)"
    by (auto simp: jobs(3) db_view_def)
  let ?bl = "blobs_view (js_blobs st) ?others"
  define recs where "recs = map (the \<circ> js_buf st) [0..<length pas]"
  have buf: "\<exists>rec. js_buf st i = Some rec \<and> rec_ok zd ?bl (?R \<union> ran (js_buf st)) s (pas ! i) (page_at mem (pas ! i)) rec"
    if "i < length pas" for i
  proof -
    have mem: "(i, pas ! i) \<in> set ?jobs" unfolding jobs(1) set_enumerate_0 using that by simp
    have "\<forall>x \<in> set ?jobs. case x of (i, pa) \<Rightarrow> \<exists>rec. js_buf st i = Some rec \<and>
        rec_ok zd ?bl (?R \<union> ran (js_buf st)) s pa (page_at mem pa) rec"
      using st unfolding job_inv_def by (elim conjE)
    from bspec [OF this mem] show ?thesis by (simp only: prod.case)
  qed
  have "dom (js_buf st) = fst ` set (enumerate 0 pas)"
    using st unfolding job_inv_def jobs(1) by (elim conjE)
  then have dom: "dom (js_buf st) = {..<length pas}"
    by (simp only: set_map [symmetric] map_fst_enumerate) auto
  have ran: "ran (js_buf st) = set recs"
  proof
    show "ran (js_buf st) \<subseteq> set recs"
    proof
      fix r assume "r \<in> ran (js_buf st)"
      then obtain i where i: "js_buf st i = Some r" by (auto simp: ran_def)
      then have "i < length pas" using dom by (metis domI lessThan_iff)
      with i show "r \<in> set recs" by (force simp: recs_def)
    qed
    show "set recs \<subseteq> ran (js_buf st)"
    proof
      fix r assume "r \<in> set recs"
      then obtain i where i: "i < length pas" "r = the (js_buf st i)" by (auto simp: recs_def)
      with buf [OF i(1)] show "r \<in> ran (js_buf st)" by (auto intro: ranI)
    qed
  qed
  have rec: "rec_ok zd ?bl (set (rs @ recs)) s (pas ! i) (page_at mem (pas ! i)) (recs ! i)" if "i < length pas" for i
    using buf [OF that] that ran by (auto simp: recs_def)
  have coll: "collect (js_buf st) [0..<length pas] = Inr recs"
    unfolding recs_def
  proof (rule collect_all, rule ballI)
    fix i assume "i \<in> set [0..<length pas]"
    then have "i < length pas" by simp
    from buf [OF this] show "\<exists>r. js_buf st i = Some r" by blast
  qed
  let ?db' = "?db\<lparr>ad_shadow := js_shadow st, ad_blobs := js_blobs st,
      ad_log := update_header s (foldl write_all (ad_log db) (map write_to recs))\<rparr>"
  have "commit_jobs sched zc mem s (length pas) (enumerate 0 pas) ?db = (Inr (), ?db')"
    using run coll by (simp add: commit_jobs_def Let_def)
  moreover have view: "db_view ?db' = ?bl" by (simp add: db_view_def)
  have log': "log_inv (ad_log ?db') s (rs @ recs)" using append_records_log [OF log] by simp
  have le: "\<forall>(s', m) \<in> set ((s, save_map mem pas) # h). s' \<le> s" using s(2) by auto
  have hm': "hist_match zd (db_view ?db') (rs @ recs) ((s, save_map mem pas) # h)"
    unfolding view by (rule hist_match_extend [OF hm hok s(2,1) grow pas(1)])
      (use pas(2) rec in \<open>auto simp: recs_def\<close>)
  have hok': "history_ok ((s, save_map mem pas) # h)"
  proof -
    have "save_map mem pas (hd pas) \<noteq> None" using some by (simp add: save_map_def)
    then have "\<exists>pa. save_map mem pas pa \<noteq> None" by blast
    then show ?thesis using hok s(1,2) pas(2) by (auto simp: save_map_def split: if_splits)
  qed
  have sh': "bases.all_entries (base_ok zd (db_view ?db') (set (rs @ recs)) (last_or_zero ?db')) (ad_shadow ?db')"
    using st unfolding job_inv_def view ran by (simp add: last_or_zero_def)
  have bfs': "0 < length (ad_blobs ?db')" "length (ad_blobs ?db') \<le> 255" "\<forall>bf \<in> set (ad_blobs ?db'). blob_ok bf"
    using st bfs len unfolding job_inv_def by simp_all
  have last': "case ad_last ?db' of None \<Rightarrow> (s, save_map mem pas) # h = [] | Some l \<Rightarrow> \<forall>(s', m) \<in> set ((s, save_map mem pas) # h). s' \<le> l"
    using le by simp
  have hdr': "\<exists>hdr. log_inv (ad_log ?db') hdr (rs @ recs) \<and> (\<forall>(s', m) \<in> set ((s, save_map mem pas) # h). s' \<le> hdr)"
    using log' le by blast
  have "db_inv zd ((s, save_map mem pas) # h) ?db' (rs @ recs)"
    unfolding db_inv_def by (intro conjI hdr' last' hok' hm' bfs' sh')
  moreover have "map r_key recs = map (\<lambda>pa. encode_key pa s) pas"
    by (rule nth_equalityI) (use rec in \<open>auto simp: recs_def rec_ok_def\<close>)
  moreover have "blobs_grow (db_view db) (db_view ?db')" unfolding view by (rule grow)
  moreover have "blob_room n (ad_blobs ?db')" using room' by simp
  ultimately show ?thesis using log' by blast
qed

end
