(* ===== verification/Saves.thy ===== *)
theory Saves
  imports Versions
begin

text \<open>
  Whole operations over the invariant of \<open>Versions\<close>: the two saves for any arguments they
  accept, sequences of saves, flushing, reopening, and what a reader of the directory sees.
\<close>

section \<open>The jobs of a full save\<close>

lemma full_save_jobs:
  assumes n: "0 < n" and ng: "ng = (n + PAGES_PER_GROUP - 1) div PAGES_PER_GROUP"
  shows "concat (map (\<lambda>group_idx.
      let write_base = group_idx * PAGES_PER_GROUP;
          group_pa = of_nat (group_idx * PAGES_PER_GROUP);
          group_pages = (if group_idx + 1 = ng then n - write_base else PAGES_PER_GROUP)
      in map (\<lambda>i. (write_base + i, group_pa + of_nat i)) [0..<group_pages]) [0..<ng]) =
    enumerate 0 (map (of_nat :: nat \<Rightarrow> u64) [0..<n])"
proof -
  let ?P = PAGES_PER_GROUP and ?f = "\<lambda>j. (j, of_nat j :: u64)"
  let ?pages = "\<lambda>g. if g + 1 = ng then n - g * ?P else ?P"
  have P: "?P = 4096" by (simp add: PAGES_PER_GROUP_def WORDS_PER_GROUP_def)
  have group: "map (\<lambda>i. (g * ?P + i, of_nat (g * ?P) + of_nat i)) [0..<k] = map ?f [g * ?P..<g * ?P + k]" for g k
    by (rule nth_equalityI) simp_all
  have upto: "concat (map (\<lambda>g. map ?f [g * ?P..<g * ?P + ?pages g]) [0..<k]) = map ?f [0..<min (k * ?P) n]" if "k \<le> ng" for k
    using that
  proof (induction k)
    case (Suc k)
    have k: "Suc k \<le> (n + 4095) div 4096" using Suc.prems ng by (simp add: P)
    then have le: "k * ?P \<le> n" unfolding P using n by linarith
    have "n \<le> Suc k * 4096" if "k + 1 = ng" using that ng n by (simp add: P)
    moreover have "Suc k * 4096 \<le> n" if "k + 1 \<noteq> ng"
    proof -
      have "Suc (Suc k) \<le> (n + 4095) div 4096" using that Suc.prems ng by (simp add: P)
      then have "Suc (Suc k) * 4096 \<le> n + 4095" by (meson div_le_dividend le_trans mult_le_mono1 div_times_less_eq_dividend)
      then show ?thesis by simp
    qed
    ultimately have step: "min (Suc k * ?P) n = k * ?P + ?pages k"
      unfolding P using le by (auto simp: min_def P)
    have "[0..<min (Suc k * ?P) n] = [0..<k * ?P] @ [k * ?P..<k * ?P + ?pages k]"
      unfolding step using upt_add_eq_append [of 0 "k * ?P" "?pages k"] by simp
    with Suc le show ?case by (simp add: min_absorb1)
  qed simp
  have "n \<le> ng * ?P" unfolding ng P by linarith
  then have cover: "min (ng * ?P) n = n" by simp
  from upto [of ng] have "concat (map (\<lambda>g. map ?f [g * ?P..<g * ?P + ?pages g]) [0..<ng]) = map ?f [0..<n]"
    unfolding cover by simp
  moreover have "enumerate 0 (map of_nat [0..<n]) = map ?f [0..<n]"
    by (rule nth_equalityI) (simp_all add: nth_enumerate_eq)
  ultimately show ?thesis unfolding Let_def group by simp
qed

section \<open>Saves as requests\<close>

datatype save_op =
    SaveAll bytes u64 u32
  | SaveDirty bytes "u64 list" u64 u32

fun op_mem :: "save_op \<Rightarrow> bytes" where
  "op_mem (SaveAll mem n s) = mem"
| "op_mem (SaveDirty mem bm n s) = mem"

fun op_count :: "save_op \<Rightarrow> u64" where
  "op_count (SaveAll mem n s) = n"
| "op_count (SaveDirty mem bm n s) = n"

fun op_snapshot :: "save_op \<Rightarrow> u32" where
  "op_snapshot (SaveAll mem n s) = s"
| "op_snapshot (SaveDirty mem bm n s) = s"

text \<open>The pages a save writes.\<close>

fun op_pages :: "save_op \<Rightarrow> u64 list" where
  "op_pages (SaveAll mem n s) = map of_nat [0..<unat n]"
| "op_pages (SaveDirty mem bm n s) = dirty_pages bm n"

fun run_save :: "((nat \<times> u64) list \<Rightarrow> (nat \<times> u64) list) \<Rightarrow> compressor \<Rightarrow> save_op \<Rightarrow> append_db \<Rightarrow> unit res \<times> append_db" where
  "run_save sched zc (SaveAll mem n s) db = save_all_pages sched zc mem n s db"
| "run_save sched zc (SaveDirty mem bm n s) db = save_pages_with_bitmap sched zc mem bm n s db"

text \<open>
  Arguments a save accepts, with at most \<open>2 ^ 45\<close> pages (the page addresses a key can hold,
  128 PiB of memory) and fewer than \<open>2 ^ 32\<close> dirty ones.
\<close>

fun op_fits :: "save_op \<Rightarrow> bool" where
  "op_fits (SaveAll mem n s) \<longleftrightarrow> s \<le> MAX_SNAPSHOT_ID \<and> length mem = unat n * PAGE_SIZE \<and> unat n \<le> 2 ^ 45"
| "op_fits (SaveDirty mem bm n s) \<longleftrightarrow> s \<le> MAX_SNAPSHOT_ID \<and> length mem = unat n * PAGE_SIZE \<and> unat n \<le> 2 ^ 45 \<and>
     (unat n + 63) div 64 \<le> length bm \<and> length (dirty_pages bm n) < 2 ^ 32"

fun abs_save :: "save_op \<Rightarrow> history \<Rightarrow> history" where
  "abs_save op h = (if op_pages op = [] then h else (op_snapshot op, save_map (op_mem op) (op_pages op)) # h)"

lemma op_pages_ok:
  assumes "op_fits op"
  shows "distinct (op_pages op)"
    and "\<forall>pa \<in> set (op_pages op). unat pa < 2 ^ 45 \<and> unat pa * PAGE_SIZE + PAGE_SIZE \<le> length (op_mem op)"
proof -
  have unat: "unat (of_nat i :: u64) = i" if "i < unat n" for i and n :: u64
    using that unsigned_less [of n, where ?'a = nat] by (simp add: unat_of_nat take_bit_nat_eq_self_iff)
  have inj: "inj_on (of_nat :: nat \<Rightarrow> u64) {..<unat n}" for n :: u64
    by (rule inj_onI) (metis unat lessThan_iff)
  have bound: "i * PAGE_SIZE + PAGE_SIZE \<le> n * PAGE_SIZE" if "i < n" for i n :: nat
    using that by (metis Suc_leI add.commute mult_Suc mult_le_mono1)
  show "distinct (op_pages op)"
    by (cases op) (auto simp: dirty_pages_def distinct_map atLeast0LessThan intro: inj inj_on_subset [OF inj])
  show "\<forall>pa \<in> set (op_pages op). unat pa < 2 ^ 45 \<and> unat pa * PAGE_SIZE + PAGE_SIZE \<le> length (op_mem op)"
    using assms by (cases op) (auto simp: dirty_pages_def unat bound)
qed

lemma dirty_pages_take:
  "dirty_pages (take ((unat n + 63) div 64) bm) n = dirty_pages bm n"
proof -
  have "pa div 64 < (unat n + 63) div 64" if "pa < unat n" for pa using that by auto
  then show ?thesis unfolding dirty_pages_def by (intro arg_cong [where f = "map _"] filter_cong) auto
qed

text \<open>The keys of the records a save appends to the log, in their order.\<close>

definition op_keys :: "save_op \<Rightarrow> u64 list" where
  "op_keys op = map (\<lambda>pa. encode_key pa (op_snapshot op)) (op_pages op)"

section \<open>A save refines the abstract save\<close>

lemma begin_save_ok:
  assumes "db_inv zd h db rs" "s \<le> MAX_SNAPSHOT_ID" "\<forall>l. ad_last db = Some l \<longrightarrow> l < s"
  shows "begin_save s db = (Inr (), db\<lparr>ad_last := Some s\<rparr>)" "\<forall>(s', m) \<in> set h. s' < s" "last_or_zero db \<le> s"
  using assms
  by (auto simp: begin_save_def db_inv_def last_or_zero_def split: option.splits intro: le_less_trans)

lemma db_inv_set_last:
  assumes inv: "db_inv zd h db rs" and s: "\<forall>(s', m) \<in> set h. s' < s" "last_or_zero db \<le> s"
  shows "db_inv zd h (db\<lparr>ad_last := Some s\<rparr>) rs"
proof -
  have "bases.all_entries (base_ok zd (db_view db) (set rs) (last_or_zero db)) (ad_shadow db)"
    using inv by (simp add: db_inv_def)
  then have "bases.all_entries (base_ok zd (db_view db) (set rs) s) (ad_shadow db)"
    by (rule bases.all_entries_mono) (use s(2) in \<open>auto simp: base_ok_def\<close>)
  moreover have "\<forall>(s', m) \<in> set h. s' \<le> s" using s(1) by (auto intro: less_imp_le)
  ultimately show ?thesis using inv by (auto simp: db_inv_def db_view_def last_or_zero_def)
qed

lemma run_save_commit:
  assumes "op_fits op" "begin_save (op_snapshot op) db = (Inr (), db')"
  shows "run_save sched zc op db =
    (if op_pages op = [] then (Inr (), db')
     else commit_jobs sched zc (op_mem op) (op_snapshot op) (length (op_pages op)) (enumerate 0 (op_pages op)) db')"
proof (cases op)
  case (SaveAll mem n s)
  show ?thesis
  proof (cases "unat n = 0")
    case True
    with assms SaveAll show ?thesis by (simp add: save_all_pages_def)
  next
    case False
    with assms SaveAll full_save_jobs [of "unat n", OF _ refl] show ?thesis
      by (simp add: save_all_pages_def Let_def)
  qed
next
  case (SaveDirty mem bm n s)
  have plan: "bitmap_plan (take ((unat n + 63) div 64) bm) n = Inr (length (dirty_pages bm n), enumerate 0 (dirty_pages bm n))"
    using bitmap_plan_eq [of "take ((unat n + 63) div 64) bm" n] assms(1) SaveDirty by (simp add: dirty_pages_take)
  show ?thesis
  proof (cases "(unat n + 63) div 64 = 0")
    case True
    then have "unat n = 0" by simp
    with assms SaveDirty show ?thesis by (simp add: save_pages_with_bitmap_def dirty_pages_def)
  next
    case False
    with assms SaveDirty plan show ?thesis by (simp add: save_pages_with_bitmap_def Let_def)
  qed
qed

lemma run_save_spec:
  assumes inv: "db_inv zd h db rs" and zstd: "zstd_ok zc zd" and sched: "schedule_ok sched"
    and fits: "op_fits op" and newer: "\<forall>l. ad_last db = Some l \<longrightarrow> l < op_snapshot op"
    and room: "blob_room (length (op_pages op) + n) (ad_blobs db)"
  shows "\<exists>db' recs. run_save sched zc op db = (Inr (), db') \<and> db_inv zd (abs_save op h) db' (rs @ recs) \<and>
    ad_last db' = Some (op_snapshot op) \<and> blob_room n (ad_blobs db') \<and> blobs_grow (db_view db) (db_view db') \<and>
    map r_key recs = op_keys op"
proof -
  let ?s = "op_snapshot op"
  have s: "?s \<le> MAX_SNAPSHOT_ID" using fits by (cases op) auto
  note start = begin_save_ok [OF inv s newer]
  note run = run_save_commit [OF fits start(1), of sched zc]
  show ?thesis
  proof (cases "op_pages op = []")
    case True
    moreover have "db_view (db\<lparr>ad_last := Some ?s\<rparr>) = db_view db" by (simp add: db_view_def)
    ultimately show ?thesis using run room db_inv_set_last [OF inv start(2,3)] blobs_grow_refl
      by (intro exI [of _ "db\<lparr>ad_last := Some ?s\<rparr>"] exI [of _ "[]"]) (auto simp: op_keys_def)
  next
    case False
    from commit_jobs_spec [OF inv zstd sched s start(2,3) op_pages_ok [OF fits] False room]
    obtain db' recs where c: "commit_jobs sched zc (op_mem op) ?s (length (op_pages op)) (enumerate 0 (op_pages op)) (db\<lparr>ad_last := Some ?s\<rparr>) = (Inr (), db')"
      "db_inv zd ((?s, save_map (op_mem op) (op_pages op)) # h) db' (rs @ recs)" "blob_room n (ad_blobs db')"
      "blobs_grow (db_view db) (db_view db')" "map r_key recs = op_keys op"
      unfolding op_keys_def by blast
    have "ad_last db' = Some ?s"
      using c(1) by (auto simp: commit_jobs_def Let_def split: prod.splits sum.splits)
    with c run False show ?thesis by auto
  qed
qed

section \<open>Sequences of saves\<close>

text \<open>Saves one after the other, up to the first error; each may be scheduled differently.\<close>

type_synonym scheduler = "(nat \<times> u64) list \<Rightarrow> (nat \<times> u64) list"

fun run_saves :: "compressor \<Rightarrow> (scheduler \<times> save_op) list \<Rightarrow> append_db \<Rightarrow> unit res \<times> append_db" where
  "run_saves zc [] db = (Inr (), db)"
| "run_saves zc ((sched, op) # ops) db =
     (case run_save sched zc op db of (Inl e, db) \<Rightarrow> (Inl e, db) | (Inr _, db) \<Rightarrow> run_saves zc ops db)"

fun abs_saves :: "(scheduler \<times> save_op) list \<Rightarrow> history \<Rightarrow> history" where
  "abs_saves [] h = h"
| "abs_saves ((sched, op) # ops) h = abs_saves ops (abs_save op h)"

lemma abs_saves_append: "abs_saves (xs @ ys) h = abs_saves ys (abs_saves xs h)"
  by (induction xs h rule: abs_saves.induct) simp_all

text \<open>Acceptable saves with increasing snapshots, the first above \<open>l\<close> if there is one.\<close>

fun saves_fit :: "u32 option \<Rightarrow> (scheduler \<times> save_op) list \<Rightarrow> bool" where
  "saves_fit l [] = True"
| "saves_fit l ((sched, op) # ops) \<longleftrightarrow>
     schedule_ok sched \<and> op_fits op \<and> (case l of None \<Rightarrow> True | Some x \<Rightarrow> x < op_snapshot op) \<and>
     saves_fit (Some (op_snapshot op)) ops"

definition session_keys :: "(scheduler \<times> save_op) list \<Rightarrow> u64 list" where
  "session_keys ops = concat (map (\<lambda>(_, op). op_keys op) ops)"

definition pages_saved :: "(scheduler \<times> save_op) list \<Rightarrow> nat" where
  "pages_saved ops = sum_list (map (\<lambda>(_, op). length (op_pages op)) ops)"

lemma run_saves_spec:
  assumes "db_inv zd h db rs" and zstd: "zstd_ok zc zd" and "saves_fit (ad_last db) ops"
    and "blob_room (pages_saved ops) (ad_blobs db)"
  shows "\<exists>db' recs. run_saves zc ops db = (Inr (), db') \<and> db_inv zd (abs_saves ops h) db' (rs @ recs) \<and>
    blobs_grow (db_view db) (db_view db') \<and> map r_key recs = session_keys ops"
  using assms(1,3,4)
proof (induction ops arbitrary: h db rs)
  case Nil
  then show ?case using blobs_grow_refl by (auto simp: session_keys_def intro!: exI [of _ "[]"])
next
  case (Cons a ops)
  obtain sched op where a: "a = (sched, op)" by fastforce
  have newer: "\<forall>l. ad_last db = Some l \<longrightarrow> l < op_snapshot op" and ok: "schedule_ok sched" "op_fits op"
    using Cons.prems(2) a by (auto split: option.splits)
  have room: "blob_room (length (op_pages op) + pages_saved ops) (ad_blobs db)"
    using Cons.prems(3) a by (simp add: pages_saved_def)
  from run_save_spec [OF Cons.prems(1) zstd ok newer room]
  obtain db' recs where step: "run_save sched zc op db = (Inr (), db')" "db_inv zd (abs_save op h) db' (rs @ recs)"
    "ad_last db' = Some (op_snapshot op)" "blob_room (pages_saved ops) (ad_blobs db')"
    "blobs_grow (db_view db) (db_view db')" "map r_key recs = op_keys op" by blast
  have "saves_fit (ad_last db') ops" using Cons.prems(2) a step(3) by simp
  from Cons.IH [OF step(2) this step(4)] obtain db'' recs' where
    "run_saves zc ops db' = (Inr (), db'')" "db_inv zd (abs_saves ops (abs_save op h)) db'' (rs @ recs @ recs')"
    "blobs_grow (db_view db') (db_view db'')" "map r_key recs' = session_keys ops" by auto
  then show ?case using a step(1,6) blobs_grow_trans [OF step(5)]
    by (intro exI [of _ db''] exI [of _ "recs @ recs'"]) (simp add: session_keys_def)
qed

section \<open>Flushing and opening\<close>

text \<open>A directory whose files hold the records of a history.\<close>

definition dir_inv :: "decoder \<Rightarrow> history \<Rightarrow> db_dir \<Rightarrow> bool" where
  "dir_inv zd h dir \<longleftrightarrow> history_ok h \<and>
     (\<exists>hdr rs. dd_log dir = Some (log_file hdr rs) \<and> (\<forall>(s, m) \<in> set h. s \<le> hdr) \<and>
        hist_match zd (dd_blobs dir) rs h)"

lemma hist_match_grow:
  assumes "hist_match zd bl rs h" "blobs_grow bl bl'"
  shows "hist_match zd bl' rs h"
proof -
  have upd: "rec_ok zd bl' (set rs) s pa p r" if "rec_ok zd bl (set rs) s pa p r" for s pa p r
    using that assms(2) by (rule rec_ok_grow) simp
  have "\<exists>(s, m) \<in> set h. \<exists>pa p. m pa = Some p \<and> rec_ok zd bl' (set rs) s pa p r" if r: "r \<in> set rs" for r
  proof -
    obtain s m pa p where sm: "(s, m) \<in> set h" "m pa = Some p" "rec_ok zd bl (set rs) s pa p r"
      by (rule hist_match_recE [OF assms(1) r])
    from sm(1,2) upd [OF sm(3)] show ?thesis by (intro bexI [of _ "(s, m)"]) auto
  qed
  moreover have "\<exists>r \<in> set rs. rec_ok zd bl' (set rs) s pa p r" if sm: "(s, m) \<in> set h" "m pa = Some p" for s m pa p
    using hist_match_pageE [OF assms(1) sm] upd by metis
  ultimately show ?thesis
    using assms(1) unfolding hist_match_def by (intro conjI ballI) (auto simp only: split_beta fst_conv snd_conv)
qed

lemma hist_match_log_ok:
  assumes "hist_match zd bl rs h" "r \<in> set rs"
  shows "log_record_ok r" "based r"
  using hist_match_recE [OF assms] by (auto simp: rec_ok_def)

lemma flush_dir_blobs: "dd_blobs (dir_of (append_flush db)) = db_view db"
  if "\<forall>bf \<in> set (ad_blobs db). blob_ok bf"
  using that by (auto simp: fun_eq_iff dir_of_def append_flush_def db_view_def blobs_view_def blob_ok_def bw.sync_disk)

text \<open>After a flush the directory holds the whole history.\<close>

lemma flush_dir_inv:
  assumes "db_inv zd h db rs"
  shows "dir_inv zd h (dir_of (append_flush db))" "db_inv zd h (append_flush db) rs"
proof -
  obtain hdr where log: "log_inv (ad_log db) hdr rs" "\<forall>(s, m) \<in> set h. s \<le> hdr"
    using assms by (auto simp: db_inv_def)
  have bfs: "\<forall>bf \<in> set (ad_blobs db). blob_ok bf" using assms by (simp add: db_inv_def)
  have "dd_log (dir_of (append_flush db)) = Some (log_file hdr rs)"
    using log(1) by (simp add: dir_of_def append_flush_def flush_buf_def log_inv_def)
  then show "dir_inv zd h (dir_of (append_flush db))"
    using log assms flush_dir_blobs [OF bfs] by (auto simp: dir_inv_def db_inv_def)
  have "flush_buf (ad_log db) = ad_log db" using log(1) by (simp add: flush_buf_def log_inv_def)
  moreover have "db_view (append_flush db) = db_view db"
    using bfs by (auto simp: fun_eq_iff append_flush_def db_view_def blobs_view_def blob_ok_def bw.sync_view)
  moreover have "\<forall>bf \<in> set (ad_blobs (append_flush db)). blob_ok bf"
    using bfs by (auto simp: append_flush_def blob_ok_def bw.sync_ok bw.sync_view)
  ultimately show "db_inv zd h (append_flush db) rs"
    using assms by (simp add: db_inv_def append_flush_def last_or_zero_def)
qed

lemma open_blob_ok: "length (case f of None \<Rightarrow> [] | Some c \<Rightarrow> c) < 2 ^ 64 \<Longrightarrow> blob_ok (open_blob f)"
  by (simp add: blob_ok_def open_blob_def appending_def bw_view_def DEFAULT_BUF_def unat_of_nat take_bit_nat_eq_self_iff Let_def)

lemma open_view:
  assumes "n \<le> 255"
  shows "blobs_view (map (\<lambda>i. open_blob (bl (of_nat i))) [0..<n]) bl w =
    (if unat w < n then Some (case bl w of None \<Rightarrow> [] | Some c \<Rightarrow> c) else bl w)"
  using assms by (simp add: blobs_view_def open_blob_def bw_view_def Let_def)

text \<open>A missing blob file is created empty: nothing that could be read is lost.\<close>

lemma open_grow: "n \<le> 255 \<Longrightarrow> blobs_grow bl (blobs_view (map (\<lambda>i. open_blob (bl (of_nat i))) [0..<n]) bl)"
  by (auto simp: blobs_grow_def open_view intro: exI [of _ "[]"])

text \<open>The maximum snapshot stored in the log's header, and room in the blob files.\<close>

definition dir_last :: "db_dir \<Rightarrow> u32 option" where
  "dir_last dir =
     (case dd_log dir of
        None \<Rightarrow> None
      | Some log \<Rightarrow> (case read_and_verify_header log MAGIC_LOG of Inl _ \<Rightarrow> None | Inr (m, _) \<Rightarrow> Some m))"

definition dir_room :: "nat \<Rightarrow> db_dir \<Rightarrow> bool" where
  "dir_room k dir \<longleftrightarrow> k * COMPRESS_CAP < 2 ^ 64 \<and>
     (\<forall>w f. dd_blobs dir w = Some f \<longrightarrow> length f + k * COMPRESS_CAP < 2 ^ 64)"

text \<open>A new directory, or one that holds a history.\<close>

definition dir_holds :: "decoder \<Rightarrow> history \<Rightarrow> db_dir \<Rightarrow> bool" where
  "dir_holds zd h dir \<longleftrightarrow> dir_inv zd h dir \<or> dd_log dir = None \<and> h = []"

text \<open>The records of a directory's log.\<close>

definition dir_records :: "db_dir \<Rightarrow> chunk_record list" where
  "dir_records dir = (case dd_log dir of None \<Rightarrow> [] | Some log \<Rightarrow> log_records log)"

lemma append_open_inv:
  assumes dir: "dir_holds zd h dir" and n: "0 < n" "n \<le> 255" and room: "dir_room k dir"
  shows "\<exists>db. append_open dir n thr use_shadow = Inr db \<and> db_inv zd h db (dir_records dir) \<and>
    ad_last db = dir_last dir \<and> blob_room k (ad_blobs db) \<and> blobs_grow (dd_blobs dir) (db_view db) \<and>
    ad_index db = dd_index dir"
proof -
  let ?bfs = "map (\<lambda>i. open_blob (dd_blobs dir (of_nat i))) [0..<n]"
  define db where "db = (\<lambda>log l. \<lparr>ad_threshold = unat (if thr = 0 then DEFAULT_DELTA_THRESHOLD else thr),
    ad_use_shadow = use_shadow, ad_shadow = shadow_new,
    ad_log = \<lparr>bw_file = log, bw_pos = length log, bw_append = False, bw_buf = [], bw_cap = LOG_BUF\<rparr>,
    ad_blobs = ?bfs, ad_last = l, ad_index = dd_index dir, ad_other_blobs = dd_blobs dir\<rparr>)"
  have len: "length (case dd_blobs dir w of None \<Rightarrow> [] | Some c \<Rightarrow> c) + k * COMPRESS_CAP < 2 ^ 64" for w
    using room by (auto simp: dir_room_def split: option.splits)
  have ok: "\<forall>bf \<in> set ?bfs. blob_ok bf"
  proof
    fix bf assume "bf \<in> set ?bfs"
    then obtain i where "bf = open_blob (dd_blobs dir (of_nat i))" by auto
    with len [of "of_nat i"] show "blob_ok bf" by (auto intro!: open_blob_ok split: option.splits)
  qed
  have room': "blob_room k ?bfs"
    using len by (auto simp: blob_room_def open_blob_def bw_view_def Let_def split: option.splits)
  have view: "db_view (db log l) = blobs_view ?bfs (dd_blobs dir)" for log l
    by (simp add: db_view_def db_def)
  have sh: "bases.all_entries P (ad_shadow (db log l))" for P log l
    using bases.all_entries_empty by (simp add: db_def)
  have log: "log_inv (ad_log (db (log_file hdr rs) l)) hdr rs" for hdr rs l
    by (simp add: db_def log_inv_def appending_def LOG_BUF_def)
  note inv = db_inv_def [of zd h "db _ _"]
  consider "dd_log dir = None" "h = []"
    | hdr rs where "history_ok h" "dd_log dir = Some (log_file hdr rs)" "\<forall>(s, m) \<in> set h. s \<le> hdr"
        "hist_match zd (dd_blobs dir) rs h"
    using dir by (auto simp: dir_holds_def dir_inv_def)
  then show ?thesis
  proof cases
    case 1
    have "log_file 0 [] = write_log_header 0" by (simp add: log_file_def)
    then have "append_open dir n thr use_shadow = Inr (db (log_file 0 []) None)"
      using 1 n by (simp add: append_open_def db_def Let_def)
    moreover have "db_inv zd h (db (log_file 0 []) None) []"
      unfolding inv using log [of 0 "[]" None] 1 ok n sh
      by (auto simp: hist_match_def) (auto simp: db_def)
    ultimately show ?thesis using 1 room' open_grow [OF n(2)] view
      by (auto simp: dir_last_def dir_records_def) (auto simp: db_def)
  next
    case 2
    have "length (log_file hdr rs) \<noteq> 0" by (simp add: log_file_def HEADER_SIZE_def)
    moreover have hd: "read_and_verify_header (log_file hdr rs) MAGIC_LOG = Inr (hdr, encode_log rs)"
      by (simp add: log_file_def)
    ultimately have "append_open dir n thr use_shadow = Inr (db (log_file hdr rs) (Some hdr))"
      using 2 n by (simp add: append_open_def db_def Let_def)
    moreover have "hist_match zd (db_view (db (log_file hdr rs) (Some hdr))) rs h"
      unfolding view by (rule hist_match_grow [OF 2(4) open_grow [OF n(2)]])
    then have "db_inv zd h (db (log_file hdr rs) (Some hdr)) rs"
      unfolding inv using log [of hdr rs "Some hdr"] 2 ok n sh by (auto simp: db_def)
    moreover have "\<forall>r \<in> set rs. log_record_ok r" using hist_match_log_ok [OF 2(4)] by blast
    then have "dir_records dir = rs" by (simp add: dir_records_def 2(2) log_records_def)
    ultimately show ?thesis using 2(2) room' hd open_grow [OF n(2)] view
      by (auto simp: dir_last_def) (auto simp: db_def)
  qed
qed

section \<open>Reading a directory\<close>

lemma history_snapshots: "history_ok h \<Longrightarrow> (s, m) \<in> set h \<Longrightarrow> s \<le> MAX_SNAPSHOT_ID"
  by (induction h) auto

lemma history_pages: "history_ok h \<Longrightarrow> (s, m) \<in> set h \<Longrightarrow> m pa = Some p \<Longrightarrow> unat pa < 2 ^ 45"
  by (induction h) auto

text \<open>The abstract read is the newest save of the page up to the snapshot.\<close>

lemma abs_read_Some:
  assumes "history_ok h" "abs_read h pa s = Some p"
  shows "\<exists>s' m. (s', m) \<in> set h \<and> s' \<le> s \<and> m pa = Some p \<and>
    (\<forall>s'' m'' q. (s'', m'') \<in> set h \<longrightarrow> s'' \<le> s \<longrightarrow> m'' pa = Some q \<longrightarrow> s'' \<le> s')"
  using assms
proof (induction h)
  case (Cons a h)
  obtain t m where a: "a = (t, m)" by fastforce
  have older: "\<forall>(s'', m'') \<in> set h. s'' < t" "history_ok h" using Cons.prems(1) a by auto
  show ?case
  proof (cases "t \<le> s \<and> m pa \<noteq> None")
    case True
    with Cons.prems(2) a have "m pa = Some p" by auto
    with True older a show ?thesis by (intro exI [of _ t] exI [of _ m]) (auto intro: less_imp_le)
  next
    case False
    then have "abs_read h pa s = Some p" using Cons.prems(2) a by (auto split: if_splits option.splits)
    from Cons.IH [OF older(2) this] obtain s' m' where "(s', m') \<in> set h" "s' \<le> s" "m' pa = Some p"
      "\<forall>s'' m'' q. (s'', m'') \<in> set h \<longrightarrow> s'' \<le> s \<longrightarrow> m'' pa = Some q \<longrightarrow> s'' \<le> s'" by blast
    with False a show ?thesis by (intro exI [of _ s'] exI [of _ m']) auto
  qed
qed simp

lemma abs_read_None:
  "abs_read h pa s = None \<Longrightarrow> (s', m) \<in> set h \<Longrightarrow> s' \<le> s \<Longrightarrow> m pa = None"
  by (induction h pa s rule: abs_read.induct) (auto split: if_splits option.splits)

lemma set_canon_distinct:
  assumes "distinct (map f xs)"
  shows "set (canon f xs) = set xs"
proof
  show "set (canon f xs) \<subseteq> set xs" by (rule set_canon)
  show "set xs \<subseteq> set (canon f xs)"
  proof
    fix x assume x: "x \<in> set xs"
    then have "f x \<in> f ` set (canon f xs)" by simp
    then obtain y where y: "y \<in> set (canon f xs)" "f y = f x" by (auto simp del: keys_canon)
    have "y \<in> set xs" using y(1) set_canon [of f xs] by blast
    moreover have "inj_on f (set xs)" using assms by (simp add: distinct_map)
    ultimately have "y = x" using y(2) x by (auto dest: inj_onD)
    with y show "x \<in> set (canon f xs)" by simp
  qed
qed

text \<open>A store over the records of a history answers every query as the history does.\<close>

lemma read_page_upto:
  assumes st: "store_ok st" "set rs \<subseteq> set (store_records st)"
    and upto: "\<And>r. r \<in> set (store_records st) \<Longrightarrow> snapshot_of (r_key r) \<le> s \<Longrightarrow> r \<in> set rs"
    and hist: "history_ok h" "hist_match zd (ps_blobs st) rs h" and s: "s \<le> MAX_SNAPSHOT_ID"
  shows "read_page zd st pa s = Inr (abs_read h pa s)"
proof (cases "abs_read h pa s")
  case (Some p)
  obtain s' m where sm: "(s', m) \<in> set h" "s' \<le> s" "m pa = Some p"
    and "\<forall>s'' m'' q. (s'', m'') \<in> set h \<longrightarrow> s'' \<le> s \<longrightarrow> m'' pa = Some q \<longrightarrow> s'' \<le> s'"
    using abs_read_Some [OF hist(1) Some] by blast
  then have newest: "\<And>s'' m'' q. (s'', m'') \<in> set h \<Longrightarrow> s'' \<le> s \<Longrightarrow> m'' pa = Some q \<Longrightarrow> s'' \<le> s'"
    by blast
  obtain r where r: "r \<in> set rs" "rec_ok zd (ps_blobs st) (set rs) s' pa p r"
    by (rule hist_match_pageE [OF hist(2) sm(1,3)])
  have key: "pa_of (r_key r) = pa" "snapshot_of (r_key r) = s'"
    using r(2) history_snapshots [OF hist(1) sm(1)] history_pages [OF hist(1) sm(1,3)]
    by (simp_all add: rec_ok_def pa_of_encode_key_small)
  have "newest_version (store_records st) pa s r"
    unfolding newest_version_def
  proof (intro conjI ballI impI)
    fix r' assume "r' \<in> set (store_records st)" "pa_of (r_key r') = pa \<and> snapshot_of (r_key r') \<le> s"
    then have r': "r' \<in> set rs" "pa_of (r_key r') = pa \<and> snapshot_of (r_key r') \<le> s" using upto by blast+
    obtain t m' pa' q where t: "(t, m') \<in> set h" "m' pa' = Some q" "rec_ok zd (ps_blobs st) (set rs) t pa' q r'"
      by (rule hist_match_recE [OF hist(2) r'(1)])
    have "pa' = pa" "snapshot_of (r_key r') = t"
      using t(3) r'(2) history_snapshots [OF hist(1) t(1)] history_pages [OF hist(1) t(1,2)]
      by (auto simp: rec_ok_def pa_of_encode_key_small)
    with newest [OF t(1)] t(2) r'(2) key show "snapshot_of (r_key r') \<le> snapshot_of (r_key r)" by simp
  qed (use r key sm st(2) in auto)
  then have "store_floor st pa s = Inr (Some r)"
    unfolding store_floor_key by (simp add: store.floor_newest [OF st(1) s])
  moreover have "page_of zd st r = Inr p"
    using page_of_iff [OF st(1), of zd r p] rec_ok_grow [OF r(2) blobs_grow_refl st(2)] by (simp add: rec_ok_def)
  ultimately show ?thesis using s Some by (simp add: read_page_def)
next
  case None
  have "s < snapshot_of (r_key r)" if r: "r \<in> set (store_records st)" "pa_of (r_key r) = pa" for r
  proof (rule ccontr)
    assume old: "\<not> s < snapshot_of (r_key r)"
    then have "r \<in> set rs" using upto r(1) by (simp add: not_less)
    then obtain t m q pa' where t: "(t, m) \<in> set h" "m pa' = Some q" "rec_ok zd (ps_blobs st) (set rs) t pa' q r"
      by (rule hist_match_recE [OF hist(2)])
    then have "pa' = pa" "snapshot_of (r_key r) = t"
      using r(2) history_snapshots [OF hist(1) t(1)] history_pages [OF hist(1) t(1,2)]
      by (auto simp: rec_ok_def pa_of_encode_key_small)
    with abs_read_None [OF None t(1)] t(2) old show False by (auto simp: not_less)
  qed
  then have "store_floor st pa s = Inr None"
    unfolding store_floor_key by (simp add: store.floor_missing [OF st(1) s])
  with None s show ?thesis by (simp add: read_page_def)
qed

lemma read_page_history:
  assumes "store_ok st" "set (store_records st) = set rs" "history_ok h" "hist_match zd (ps_blobs st) rs h"
    and "s \<le> MAX_SNAPSHOT_ID"
  shows "read_page zd st pa s = Inr (abs_read h pa s)"
  by (rule read_page_upto [OF assms(1) _ _ assms(3-5)]) (simp_all add: assms(2))

lemma dir_inv_read:
  assumes "dir_inv zd h dir" "dd_index dir = None"
  obtains st where "page_store_open dir = Inr st" "store_ok st"
    "\<And>pa s. s \<le> MAX_SNAPSHOT_ID \<Longrightarrow> read_page zd st pa s = Inr (abs_read h pa s)"
proof -
  obtain hdr rs where log: "dd_log dir = Some (log_file hdr rs)" and hm: "hist_match zd (dd_blobs dir) rs h"
    and hok: "history_ok h" using assms(1) by (auto simp: dir_inv_def)
  have "\<forall>r \<in> set rs. log_record_ok r" using hist_match_log_ok [OF hm] by blast
  then obtain st where st: "page_store_open dir = Inr st" "store_ok st" "store_records st = canon r_key rs"
    "ps_blobs st = dd_blobs dir"
    by (rule open_log_store [OF assms(2) log])
  have "set (store_records st) = set rs"
    using hm st(3) by (simp add: hist_match_def set_canon_distinct)
  with st hm hok read_page_history [OF st(2)] show thesis by (intro that) auto
qed

section \<open>Sessions\<close>

text \<open>
  A process that opens the directory, saves and flushes, as another process sees its result;
  and a process that opens a directory and reads one page.
\<close>

definition write_session ::
  "compressor \<Rightarrow> nat \<Rightarrow> u16 \<Rightarrow> bool \<Rightarrow> (scheduler \<times> save_op) list \<Rightarrow> db_dir \<Rightarrow> db_dir res" where
  "write_session zc workers threshold use_shadow ops dir =
     rbind (append_open dir workers threshold use_shadow) (\<lambda>db.
       case run_saves zc ops db of
         (Inl e, db) \<Rightarrow> Inl e
       | (Inr _, db) \<Rightarrow> Inr (dir_of (append_flush db)))"

definition read_session :: "cpu \<Rightarrow> decoder \<Rightarrow> db_dir \<Rightarrow> bytes \<Rightarrow> u64 \<Rightarrow> u32 \<Rightarrow> bytes option res" where
  "read_session cpu zd dir out pa s =
     rbind (btree_db_open dir None []) (\<lambda>db. fst (load_page cpu zd db out pa s))"

lemma commit_jobs_index: "ad_index (snd (commit_jobs sched zc mem s n jobs db)) = ad_index db"
  by (simp add: commit_jobs_def Let_def split: prod.splits sum.splits)

lemma begin_save_index: "begin_save s db = (r, db') \<Longrightarrow> ad_index db' = ad_index db"
  by (auto simp: begin_save_def split: if_splits option.splits)

lemma run_save_index: "ad_index (snd (run_save sched zc op db)) = ad_index db"
  by (cases op)
    (auto simp: save_all_pages_def save_pages_with_bitmap_def Let_def commit_jobs_index
      split: prod.splits sum.splits dest: begin_save_index)

lemma run_saves_index: "ad_index (snd (run_saves zc ops db)) = ad_index db"
proof (induction ops arbitrary: db)
  case (Cons a ops)
  obtain sched op where a: "a = (sched, op)" by fastforce
  obtain r db' where step: "run_save sched zc op db = (r, db')" by fastforce
  then have "ad_index db' = ad_index db" using run_save_index by (metis snd_conv)
  with Cons.IH [of db'] a step show ?case by (cases r) auto
qed simp

lemma write_session_spec:
  assumes dir: "dir_holds zd h dir" and n: "0 < n" "n \<le> 255" and zstd: "zstd_ok zc zd"
    and ops: "saves_fit (dir_last dir) ops" and room: "dir_room (pages_saved ops) dir"
  shows "\<exists>dir' recs. write_session zc n thr use_shadow ops dir = Inr dir' \<and>
    dir_inv zd (abs_saves ops h) dir' \<and> dd_index dir' = dd_index dir \<and>
    dir_records dir' = dir_records dir @ recs \<and> blobs_grow (dd_blobs dir) (dd_blobs dir') \<and>
    map r_key recs = session_keys ops"
proof -
  obtain db where db: "append_open dir n thr use_shadow = Inr db" "db_inv zd h db (dir_records dir)"
    "ad_last db = dir_last dir" "blob_room (pages_saved ops) (ad_blobs db)"
    "blobs_grow (dd_blobs dir) (db_view db)" "ad_index db = dd_index dir"
    using append_open_inv [OF dir n room] by blast
  obtain db' recs where run: "run_saves zc ops db = (Inr (), db')"
    "db_inv zd (abs_saves ops h) db' (dir_records dir @ recs)" "blobs_grow (db_view db) (db_view db')"
    "map r_key recs = session_keys ops"
    using run_saves_spec [OF db(2) zstd _ db(4)] ops db(3) by auto
  let ?dir = "dir_of (append_flush db')"
  have inv: "dir_inv zd (abs_saves ops h) ?dir" by (rule flush_dir_inv [OF run(2)])
  have "\<forall>bf \<in> set (ad_blobs db'). blob_ok bf" using run(2) by (simp add: db_inv_def)
  then have blobs: "dd_blobs ?dir = db_view db'" by (rule flush_dir_blobs)
  obtain hdr where "log_inv (ad_log db') hdr (dir_records dir @ recs)" using run(2) by (auto simp: db_inv_def)
  then have "dd_log ?dir = Some (log_file hdr (dir_records dir @ recs))"
    by (simp add: dir_of_def append_flush_def flush_buf_def log_inv_def)
  moreover have "\<forall>r \<in> set (dir_records dir @ recs). log_record_ok r"
    using run(2) hist_match_log_ok by (metis db_inv_def)
  ultimately have "dir_records ?dir = dir_records dir @ recs" by (simp add: dir_records_def log_records_def)
  moreover have "dd_index ?dir = dd_index dir"
    using run_saves_index [of zc ops db] run(1) db(6) by (simp add: dir_of_def append_flush_def)
  ultimately show ?thesis
    using db(1,5) run inv blobs blobs_grow_trans by (auto simp: write_session_def)
qed

lemma read_session_eq:
  assumes "page_store_open dir = Inr st" "store_ok st" "length out = PAGE_SIZE"
  shows "read_session cpu zd dir out pa s = read_page zd st pa s"
proof -
  let ?db = "\<lparr>bd_store = st, bd_cache = None\<rparr>"
  have "cache_fits zd st None"
    by (simp add: cache_fits_def opt_cache.coherent_def opt_ok_def opt_held_def)
  moreover obtain r db' where load: "load_page cpu zd ?db out pa s = (r, db')" by fastforce
  ultimately have "r = read_page zd st pa s"
    using load_page_eq [of ?db zd out cpu pa s r db'] assms(2,3) by simp
  with load assms(1) show ?thesis
    by (simp add: read_session_def btree_db_open_def DISABLE_SHARED_CACHE_def)
qed

lemma read_session_history:
  assumes "dir_inv zd h dir" "dd_index dir = None" "s \<le> MAX_SNAPSHOT_ID" "length out = PAGE_SIZE"
  shows "read_session cpu zd dir out pa s = Inr (abs_read h pa s)"
proof -
  obtain st where st: "page_store_open dir = Inr st" "store_ok st"
    and rd: "read_page zd st pa s = Inr (abs_read h pa s)"
    by (rule dir_inv_read [OF assms(1,2)]) (use assms(3) in blast)
  show ?thesis unfolding read_session_eq [OF st assms(4)] by (rule rd)
qed

end
