(* ===== verification/Failures.thy ===== *)
theory Failures
  imports Saves
begin

text \<open>
  What the writer of \<open>append_only.rs\<close> does off the good path: saves it rejects, data that is
  not flushed, and the reopening of a log that no snapshot was saved to.
\<close>

section \<open>Rejected saves\<close>

lemma stale_begin:
  assumes "MAX_SNAPSHOT_ID < s \<or> (\<exists>l. ad_last db = Some l \<and> s \<le> l)"
  shows "begin_save s db = (Inl (IoErr InvalidInput), db)"
  using assms by (auto simp: begin_save_def)

lemma stale_save:
  assumes "MAX_SNAPSHOT_ID < op_snapshot op \<or> (\<exists>l. ad_last db = Some l \<and> op_snapshot op \<le> l)"
  shows "run_save sched zc op db = (Inl (IoErr InvalidInput), db)"
  using stale_begin [OF assms]
  by (cases op) (simp_all add: save_all_pages_def save_pages_with_bitmap_def)

text \<open>Buffer sizes a save refuses.\<close>

fun op_misfit :: "save_op \<Rightarrow> bool" where
  "op_misfit (SaveAll mem n s) \<longleftrightarrow> length mem \<noteq> unat n * PAGE_SIZE"
| "op_misfit (SaveDirty mem bm n s) \<longleftrightarrow> length mem \<noteq> unat n * PAGE_SIZE \<or> length bm < (unat n + 63) div 64"

lemma misfit_save:
  assumes "op_misfit op" "op_snapshot op \<le> MAX_SNAPSHOT_ID" "\<forall>l. ad_last db = Some l \<longrightarrow> l < op_snapshot op"
  shows "run_save sched zc op db = (Inl (IoErr InvalidInput), db\<lparr>ad_last := Some (op_snapshot op)\<rparr>)"
proof -
  have "begin_save (op_snapshot op) db = (Inr (), db\<lparr>ad_last := Some (op_snapshot op)\<rparr>)"
    using assms(2,3) by (auto simp: begin_save_def not_less [symmetric] split: option.splits)
  with assms(1) show ?thesis
    by (cases op) (auto simp: save_all_pages_def save_pages_with_bitmap_def Let_def)
qed

section \<open>One page in a new database\<close>

text \<open>A database of one worker in a new directory, and the first save of one page to it.\<close>

definition new_db :: "u16 \<Rightarrow> bool \<Rightarrow> append_db" where
  "new_db thr use_shadow =
     \<lparr>ad_threshold = unat (if thr = 0 then DEFAULT_DELTA_THRESHOLD else thr), ad_use_shadow = use_shadow,
      ad_shadow = shadow_new,
      ad_log = \<lparr>bw_file = log_file 0 [], bw_pos = HEADER_SIZE, bw_append = False, bw_buf = [], bw_cap = LOG_BUF\<rparr>,
      ad_blobs = [open_blob None], ad_last = None, ad_index = None, ad_other_blobs = (\<lambda>_. None)\<rparr>"

lemma open_new:
  "append_open \<lparr>dd_index = None, dd_log = None, dd_blobs = (\<lambda>_. None)\<rparr> 1 thr use_shadow = Inr (new_db thr use_shadow)"
  by (simp add: append_open_def new_db_def log_file_def Let_def)

lemma new_db_inv: "db_inv zd [] (new_db thr use_shadow) []" "k * COMPRESS_CAP < 2 ^ 64 \<Longrightarrow> blob_room k (ad_blobs (new_db thr use_shadow))"
proof -
  let ?dir = "\<lparr>dd_index = None, dd_log = None, dd_blobs = (\<lambda>_. None)\<rparr>"
  have dir: "dir_holds zd [] ?dir" by (simp add: dir_holds_def)
  have room: "dir_room n ?dir" if "n * COMPRESS_CAP < 2 ^ 64" for n using that by (simp add: dir_room_def)
  have "dir_records ?dir = []" by (simp add: dir_records_def)
  with append_open_inv [OF dir _ _ room [of 0], of 1 thr use_shadow] open_new [of thr use_shadow]
  show "db_inv zd [] (new_db thr use_shadow) []" by auto
  show "k * COMPRESS_CAP < 2 ^ 64 \<Longrightarrow> blob_room k (ad_blobs (new_db thr use_shadow))"
    using append_open_inv [OF dir _ _ room [of k], of 1 thr use_shadow] open_new [of thr use_shadow] by auto
qed

lemma new_log_inv: "log_inv (ad_log (new_db thr use_shadow)) 0 []"
  by (simp add: new_db_def log_inv_def appending_def LOG_BUF_def log_file_def)

lemma first_page:
  assumes page: "length page = PAGE_SIZE" "\<not> is_all_zero page" and z: "zc page = Some z" "length z < DEFAULT_BUF"
    and s: "s \<le> MAX_SNAPSHOT_ID"
  shows "\<exists>db. run_save id zc (SaveAll page 1 s) (new_db thr use_shadow) = (Inr (), db) \<and>
    ad_log db = update_header s (foldl write_all (ad_log (new_db thr use_shadow)) [write_to (new_full (encode_key 0 s) 0 0 (of_nat (length z)))]) \<and>
    ad_blobs db = [\<lparr>bf_writer = \<lparr>bw_file = [], bw_pos = 0, bw_append = True, bw_buf = z, bw_cap = DEFAULT_BUF\<rparr>,
      bf_offset = of_nat (length z)\<rparr>] \<and>
    ad_index db = None \<and> ad_last db = Some s"
proof -
  let ?db = "new_db thr use_shadow" and ?rec = "new_full (encode_key 0 s) 0 0 (of_nat (length z))"
  let ?blob = "\<lparr>bf_writer = \<lparr>bw_file = [], bw_pos = 0, bw_append = True, bw_buf = z, bw_cap = DEFAULT_BUF\<rparr>, bf_offset = of_nat (length z)\<rparr>"
  have fits: "op_fits (SaveAll page 1 s)" using page(1) s by simp
  have start: "begin_save (op_snapshot (SaveAll page 1 s)) ?db = (Inr (), ?db\<lparr>ad_last := Some s\<rparr>)"
    using s by (simp add: begin_save_def new_db_def not_less)
  have "shadow_get shadow_new 0 = None" by (rule bases.get_empty)
  moreover have "append_blob (open_blob None) z = (Inr (0, of_nat (length z)), ?blob)"
    using z(2) by (simp add: append_blob_def open_blob_def write_all_def DEFAULT_BUF_def Let_def)
  ultimately have "\<exists>sh. process_one zc 0 page s 0 shadow_new (open_blob None) (ad_threshold ?db) (ad_use_shadow ?db) = (Inr ?rec, sh, ?blob)"
    using page(2) z by (simp add: process_one_def write_full_def compress_to_buffer_def COMPRESS_CAP_def DEFAULT_BUF_def Let_def)
  then obtain sh where p: "process_one zc 0 page s 0 shadow_new (open_blob None) (ad_threshold ?db) (ad_use_shadow ?db) = (Inr ?rec, sh, ?blob)"
    by blast
  have "get_range page 0 PAGE_SIZE = Some page" using page(1) by (simp add: get_range_def rslice_full)
  with p have "run_job zc (?db\<lparr>ad_last := Some s\<rparr>) page s
      \<lparr>js_shadow = shadow_new, js_blobs = [open_blob None], js_buf = (\<lambda>_. None)\<rparr> (0, 0) =
    (Inr (), \<lparr>js_shadow = sh, js_blobs = [?blob], js_buf = [0 \<mapsto> ?rec]\<rparr>)"
    by (simp add: run_job_def Let_def)
  then have "commit_jobs id zc page s 1 [(0, 0)] (?db\<lparr>ad_last := Some s\<rparr>) =
    (Inr (), (?db\<lparr>ad_last := Some s\<rparr>)\<lparr>ad_shadow := sh, ad_blobs := [?blob],
      ad_log := update_header s (foldl write_all (ad_log ?db) [write_to ?rec])\<rparr>)"
    by (simp add: commit_jobs_def new_db_def Let_def)
  moreover have "op_pages (SaveAll page 1 s) = [0]" by simp
  ultimately show ?thesis
    using run_save_commit [OF fits start, of id zc] by (auto simp: new_db_def)
qed

section \<open>Properties\<close>

text \<open>C35: a save with a snapshot number that is too large or not above the last one is refused and
  changes nothing; but a save whose buffer or bitmap has the wrong length is refused only
  after its number has been taken, so that a corrected retry with the same number, or any
  below, fails too.\<close>

theorem refused_saves:
  assumes "op_snapshot op' \<le> op_snapshot op"
  shows "if MAX_SNAPSHOT_ID < op_snapshot op \<or> (\<exists>l. ad_last db = Some l \<and> op_snapshot op \<le> l)
    then run_save sched zc op db = (Inl (IoErr InvalidInput), db)
    else if op_misfit op
    then run_save sched zc op db = (Inl (IoErr InvalidInput), db\<lparr>ad_last := Some (op_snapshot op)\<rparr>) \<and>
      run_save sched' zc op' (db\<lparr>ad_last := Some (op_snapshot op)\<rparr>) =
        (Inl (IoErr InvalidInput), db\<lparr>ad_last := Some (op_snapshot op)\<rparr>)
    else begin_save (op_snapshot op) db = (Inr (), db\<lparr>ad_last := Some (op_snapshot op)\<rparr>)"
proof -
  have "run_save sched' zc op' (db\<lparr>ad_last := Some (op_snapshot op)\<rparr>) =
      (Inl (IoErr InvalidInput), db\<lparr>ad_last := Some (op_snapshot op)\<rparr>)"
    by (rule stale_save) (use assms in simp)
  then show ?thesis
    using stale_save [of op db sched zc] misfit_save [of op db sched zc]
    by (auto simp: not_less begin_save_def not_le split: option.splits)
qed

theorem refused_saves_witness:
  "snd (run_save id Some (SaveAll [] 1 7) (new_db 0 True)) = (new_db 0 True)\<lparr>ad_last := Some 7\<rparr> \<and>
   fst (run_save id Some (SaveAll (replicate PAGE_SIZE 1) 1 7) ((new_db 0 True)\<lparr>ad_last := Some 7\<rparr>)) = Inl (IoErr InvalidInput)"
proof -
  have le: "op_snapshot (SaveAll (replicate PAGE_SIZE 1) 1 7) \<le> op_snapshot (SaveAll [] 1 7)" by simp
  have "7 \<le> MAX_SNAPSHOT_ID" by (simp add: snapshot_le_max_unat)
  then have "\<not> (MAX_SNAPSHOT_ID < 7 \<or> (\<exists>l. ad_last (new_db 0 True) = Some l \<and> 7 \<le> l))"
    by (simp add: new_db_def not_less)
  moreover have "op_misfit (SaveAll [] 1 7)" by (simp add: PAGE_SIZE_def)
  ultimately show ?thesis
    using refused_saves [OF le, of "new_db 0 True" id Some id] by (simp only: op_snapshot.simps if_False if_True fst_conv snd_conv)
qed

text \<open>A database that was opened but never saved to reserves snapshot 0: the header it wrote
  says 0, so that a process that opens the directory again cannot save snapshot 0, which the
  first process could.\<close>

theorem reopening_empty_reserves_zero:
  assumes "0 < n" "n \<le> 255" "op_snapshot op = 0"
  shows "\<exists>db db'. append_open \<lparr>dd_index = None, dd_log = None, dd_blobs = bl\<rparr> n thr use_shadow = Inr db \<and>
    begin_save 0 db = (Inr (), db\<lparr>ad_last := Some 0\<rparr>) \<and>
    append_open (dir_of db) n' thr' use_shadow' = (if n' = 0 \<or> 255 < n' then Inl (IoErr InvalidInput) else Inr db') \<and>
    run_save sched zc op db' = (Inl (IoErr InvalidInput), db')"
proof -
  obtain db where db: "append_open \<lparr>dd_index = None, dd_log = None, dd_blobs = bl\<rparr> n thr use_shadow = Inr db"
    "bw_file (ad_log db) = log_file 0 []" "ad_last db = None"
    using assms(1,2) by (simp add: append_open_def log_file_def Let_def)
  have "append_open (dir_of db) n' thr' use_shadow' = Inl (IoErr InvalidInput)" if "n' = 0 \<or> 255 < n'"
    using that by (simp add: append_open_def)
  moreover have "\<exists>db'. append_open (dir_of db) n' thr' use_shadow' = Inr db' \<and> ad_last db' = Some 0" if "\<not> (n' = 0 \<or> 255 < n')"
  proof -
    have "dd_log (dir_of db) = Some (log_file 0 [])" using db(2) by (simp add: dir_of_def)
    moreover have "length (log_file 0 []) = HEADER_SIZE" by (simp add: log_file_def)
    then have "log_file 0 [] \<noteq> []" by (auto simp: HEADER_SIZE_def)
    moreover have "read_and_verify_header (log_file 0 []) MAGIC_LOG = Inr (0, encode_log [])"
      unfolding log_file_def by (rule read_log_header)
    ultimately show ?thesis using that by (simp add: append_open_def Let_def)
  qed
  ultimately obtain db' where "append_open (dir_of db) n' thr' use_shadow' = (if n' = 0 \<or> 255 < n' then Inl (IoErr InvalidInput) else Inr db')"
    "ad_last db' = Some 0"
    by (cases "n' = 0 \<or> 255 < n'") (auto intro: that [of "db\<lparr>ad_last := Some 0\<rparr>"])
  moreover from this(2) have "run_save sched zc op db' = (Inl (IoErr InvalidInput), db')"
    by (intro stale_save) (simp add: assms(3))
  moreover have "begin_save 0 db = (Inr (), db\<lparr>ad_last := Some 0\<rparr>)"
    using db(3) by (simp add: begin_save_def)
  ultimately show ?thesis using db(1) by blast
qed

theorem reopening_empty_reserves_zero_witness:
  "\<exists>db db'. append_open \<lparr>dd_index = None, dd_log = None, dd_blobs = (\<lambda>_. None)\<rparr> 2 0 True = Inr db \<and>
     append_open (dir_of db) 2 0 True = Inr db' \<and>
     run_save id Some (SaveAll [] 0 0) db' = (Inl (IoErr InvalidInput), db')"
proof -
  have n: "(0 :: nat) < 2" "(2 :: nat) \<le> 255" "op_snapshot (SaveAll [] 0 0) = 0" by simp_all
  from reopening_empty_reserves_zero [OF n, of "\<lambda>_. None" 0 True 2 0 True id Some] show ?thesis by auto
qed

text \<open>C36: a successful save is not durable before \<open>flush\<close>: the log with the new records reaches
  the file system, since its header is rewritten in place, but a small chunk stays in the
  blob writer's buffer. Another process opens the directory, finds the record and fails with
  an unexpected end of file; after the flush it reads the page.\<close>

theorem unflushed_page_unreadable:
  assumes "length page = PAGE_SIZE" "\<not> is_all_zero page" "zc page = Some z" "0 < length z" "length z < DEFAULT_BUF"
    and "zd z = Some page" "s \<le> MAX_SNAPSHOT_ID" "length out = PAGE_SIZE"
  shows "\<exists>db db'. append_open \<lparr>dd_index = None, dd_log = None, dd_blobs = (\<lambda>_. None)\<rparr> 1 thr use_shadow = Inr db \<and>
    run_save id zc (SaveAll page 1 s) db = (Inr (), db') \<and>
    read_session cpu zd (dir_of db') out 0 s = Inl (IoErr UnexpectedEof) \<and>
    read_session cpu zd (dir_of (append_flush db')) out 0 s = Inr (Some page)"
proof -
  let ?rec = "new_full (encode_key 0 s) 0 0 (of_nat (length z))"
  obtain db' where db': "run_save id zc (SaveAll page 1 s) (new_db thr use_shadow) = (Inr (), db')"
    "ad_log db' = update_header s (foldl write_all (ad_log (new_db thr use_shadow)) (map write_to [?rec]))"
    "ad_blobs db' = [\<lparr>bf_writer = \<lparr>bw_file = [], bw_pos = 0, bw_append = True, bw_buf = z, bw_cap = DEFAULT_BUF\<rparr>, bf_offset = of_nat (length z)\<rparr>]"
    "ad_index db' = None"
    using first_page [where zc = zc, OF assms(1-3,5,7), of thr use_shadow] by auto
  have log: "log_inv (ad_log db') s [?rec]"
    unfolding db'(2) using append_records_log [where s = s and recs = "[?rec]", OF new_log_inv] by simp
  then have flushed: "flush_buf (ad_log db') = ad_log db'" and on_disk: "bw_file (ad_log db') = log_file s [?rec]"
    by (simp_all add: log_inv_def flush_buf_def)
  have len: "unat (of_nat (length z) :: u32) = length z"
    using assms(5) by (simp add: DEFAULT_BUF_def unat_of_nat take_bit_nat_eq_self_iff)
  have key: "pa_of (r_key ?rec) = 0" "snapshot_of (r_key ?rec) = s"
    using assms(7) by (simp_all add: new_full_def pa_of_encode_key_small)
  have read: "read_session cpu zd d out 0 s = rbind (decompress_blob_into zd st ?rec (replicate PAGE_SIZE 0)) (\<lambda>p. Inr (Some p))"
    if "dd_index d = None" "dd_log d = Some (log_file s [?rec])" "page_store_open d = Inr st" "store_ok st"
      "store_records st = canon r_key [?rec]" for d st
  proof -
    have "newest_version (store_records st) 0 s ?rec"
      using key that(5) by (simp add: newest_version_def canon_id)
    then have "store_floor st 0 s = Inr (Some ?rec)"
      unfolding store_floor_key by (simp add: store.floor_newest [OF that(4) assms(7)])
    with leD [OF assms(7)] show ?thesis
      by (simp add: read_session_eq [OF that(3,4) assms(8)] read_page_def page_of_def resolve_uncached_def new_full_def)
  qed
  have rs: "\<forall>r \<in> set [?rec]. log_record_ok r" by (simp add: log_record_ok_def new_full_def)
  have "read_session cpu zd (dir_of db') out 0 s = Inl (IoErr UnexpectedEof)"
  proof -
    have d: "dd_index (dir_of db') = None" "dd_log (dir_of db') = Some (log_file s [?rec])" "dd_blobs (dir_of db') 0 = Some []"
      by (simp_all add: dir_of_def db'(3,4) on_disk)
    obtain st where st: "page_store_open (dir_of db') = Inr st" "store_ok st" "store_records st = canon r_key [?rec]"
      "ps_blobs st = dd_blobs (dir_of db')" by (rule open_log_store [OF d(1,2) rs])
    show ?thesis
      using assms(4,5) d(3) len by (simp add: read [OF d(1,2) st(1-3)] decompress_blob_into_def st(4) new_full_def DEFAULT_BUF_def)
  qed
  moreover have "read_session cpu zd (dir_of (append_flush db')) out 0 s = Inr (Some page)"
  proof -
    have d: "dd_index (dir_of (append_flush db')) = None" "dd_log (dir_of (append_flush db')) = Some (log_file s [?rec])"
      "dd_blobs (dir_of (append_flush db')) 0 = Some z"
      using assms(4) by (simp_all add: dir_of_def append_flush_def db'(3,4) flushed on_disk)
        (auto simp: flush_buf_def raw_write_def write_file_at_def Let_def)
    obtain st where st: "page_store_open (dir_of (append_flush db')) = Inr st" "store_ok st" "store_records st = canon r_key [?rec]"
      "ps_blobs st = dd_blobs (dir_of (append_flush db'))" by (rule open_log_store [OF d(1,2) rs])
    show ?thesis
      using assms(1,5,6) d(3) len
      by (simp add: read [OF d(1,2) st(1-3)] decompress_blob_into_def st(4) new_full_def DEFAULT_BUF_def
          rslice_full decompress_to_buffer_def copy_at_def)
  qed
  ultimately show ?thesis using db'(1) open_new by blast
qed

theorem unflushed_page_unreadable_witness:
  "\<exists>db db'. append_open \<lparr>dd_index = None, dd_log = None, dd_blobs = (\<lambda>_. None)\<rparr> 1 0 True = Inr db \<and>
     run_save id (\<lambda>_. Some [5]) (SaveAll (replicate PAGE_SIZE 1) 1 3) db = (Inr (), db') \<and>
     read_session Portable (\<lambda>_. Some (replicate PAGE_SIZE 1)) (dir_of db') (replicate PAGE_SIZE 9) 0 3 = Inl (IoErr UnexpectedEof)"
proof -
  have page: "length (replicate PAGE_SIZE (1 :: byte)) = PAGE_SIZE" "\<not> is_all_zero (replicate PAGE_SIZE 1)"
    "length (replicate PAGE_SIZE (9 :: byte)) = PAGE_SIZE"
    by (simp_all add: is_all_zero_def list_all_iff PAGE_SIZE_def)
  have z: "0 < length [5 :: byte]" "length [5 :: byte] < DEFAULT_BUF" by (simp_all add: DEFAULT_BUF_def)
  have s: "3 \<le> MAX_SNAPSHOT_ID" by (simp add: snapshot_le_max_unat)
  from unflushed_page_unreadable [OF page(1,2) refl z refl s page(3), of 0 True Portable] show ?thesis by blast
qed

end
