(* ===== verification/Text.thy ===== *)
theory Text
  imports Prelude
begin

text \<open>
  The string handling of the standard library the tools rely on: \<open>str::parse\<close> and
  \<open>from_str_radix\<close> for unsigned integers, formatting in base 10 and 16 with padding,
  \<open>strip_prefix\<close>, \<open>strip_suffix\<close> and \<open>split_whitespace\<close>. Strings are ASCII.
\<close>

section \<open>Digits\<close>

definition digit_char :: "nat \<Rightarrow> char" where
  "digit_char d = (if d < 10 then char_of (48 + d) else char_of (87 + d))"

definition digit_val :: "nat \<Rightarrow> char \<Rightarrow> nat option" where
  "digit_val radix c =
     (let n = of_char c :: nat;
          v = (if 48 \<le> n \<and> n \<le> 57 then Some (n - 48)
               else if 97 \<le> n \<and> n \<le> 122 then Some (n - 87)
               else if 65 \<le> n \<and> n \<le> 90 then Some (n - 55)
               else None)
      in case v of Some d \<Rightarrow> if d < radix then Some d else None | None \<Rightarrow> None)"

lemma digit_val_char: "d < radix \<Longrightarrow> radix \<le> 36 \<Longrightarrow> digit_val radix (digit_char d) = Some d"
  by (auto simp: digit_val_def digit_char_def Let_def)

lemma digit_char_not_sign: "d < 36 \<Longrightarrow> digit_char d \<noteq> CHR ''+''"
proof
  assume "d < 36" "digit_char d = CHR ''+''"
  then have "of_char (digit_char d) = (43 :: nat)" by simp
  with \<open>d < 36\<close> show False by (simp add: digit_char_def split: if_splits)
qed

section \<open>Parsing\<close>

text \<open>
  The digits are folded with checked multiplication and addition: a value of \<open>limit\<close> or
  more is an error. One leading \<open>+\<close> is accepted, an empty digit string is not.
\<close>

fun parse_digits :: "nat \<Rightarrow> nat \<Rightarrow> nat \<Rightarrow> string \<Rightarrow> nat option" where
  "parse_digits radix limit acc [] = Some acc"
| "parse_digits radix limit acc (c # cs) =
     (case digit_val radix c of
        None \<Rightarrow> None
      | Some d \<Rightarrow> if acc * radix + d < limit then parse_digits radix limit (acc * radix + d) cs else None)"

definition parse_uint :: "nat \<Rightarrow> nat \<Rightarrow> string \<Rightarrow> nat option" where
  "parse_uint radix limit s =
     (let digits = (case s of [] \<Rightarrow> [] | c # cs \<Rightarrow> if c = CHR ''+'' then cs else s)
      in if digits = [] then None else parse_digits radix limit 0 digits)"

definition parse_word :: "nat \<Rightarrow> string \<Rightarrow> 'a::len word option" where
  "parse_word radix s = map_option of_nat (parse_uint radix (2 ^ LENGTH('a)) s)"

section \<open>Formatting\<close>

function show_base :: "nat \<Rightarrow> nat \<Rightarrow> string" where
  "show_base radix n =
     (if radix < 2 \<or> n < radix then [digit_char n]
      else show_base radix (n div radix) @ [digit_char (n mod radix)])"
  by pat_completeness auto
termination by (relation "measure snd") auto

declare show_base.simps [simp del]

abbreviation show_dec :: "nat \<Rightarrow> string" where "show_dec \<equiv> show_base 10"
abbreviation show_hex :: "nat \<Rightarrow> string" where "show_hex \<equiv> show_base 16"

text \<open>\<open>{:0w$x}\<close> and \<open>{:<w$}\<close>.\<close>

definition pad_left :: "char \<Rightarrow> nat \<Rightarrow> string \<Rightarrow> string" where
  "pad_left c w s = replicate (w - length s) c @ s"

definition pad_right :: "nat \<Rightarrow> string \<Rightarrow> string" where
  "pad_right w s = s @ replicate (w - length s) CHR '' ''"

definition show_byte :: "byte \<Rightarrow> string" where
  "show_byte b = pad_left CHR ''0'' 2 (show_hex (unat b))"

lemma show_base_nonempty [simp]: "show_base radix n \<noteq> []"
  by (subst show_base.simps) simp

lemma parse_digits_append:
  "parse_digits radix limit acc (s @ t) =
     (case parse_digits radix limit acc s of None \<Rightarrow> None | Some v \<Rightarrow> parse_digits radix limit v t)"
  by (induction s arbitrary: acc) (auto split: option.splits)

lemma parse_digits_show:
  "2 \<le> radix \<Longrightarrow> radix \<le> 36 \<Longrightarrow> n < limit \<Longrightarrow> parse_digits radix limit 0 (show_base radix n) = Some n"
proof (induction radix n rule: show_base.induct)
  case (1 radix n)
  show ?case
  proof (cases "n < radix")
    case True
    with 1 show ?thesis by (simp add: show_base.simps [of radix n] digit_val_char)
  next
    case False
    have "n div radix < limit" using "1.prems"(3) by (rule le_less_trans [rotated]) simp
    then have "parse_digits radix limit 0 (show_base radix (n div radix)) = Some (n div radix)"
      using 1 False by simp
    moreover have "digit_val radix (digit_char (n mod radix)) = Some (n mod radix)"
      using 1 by (intro digit_val_char) simp_all
    moreover have "n div radix * radix + n mod radix = n" by simp
    ultimately show ?thesis using 1 False
      by (simp add: show_base.simps [of radix n] parse_digits_append)
  qed
qed

lemma hd_show_base: "2 \<le> radix \<Longrightarrow> radix \<le> 36 \<Longrightarrow> hd (show_base radix n) \<noteq> CHR ''+''"
proof (induction radix n rule: show_base.induct)
  case (1 radix n)
  then show ?case
    by (cases "n < radix") (simp_all add: show_base.simps [of radix n] digit_char_not_sign)
qed

text \<open>What is formatted parses back, in any base the code uses.\<close>

lemma parse_uint_show:
  assumes "2 \<le> radix" "radix \<le> 36" "n < limit"
  shows "parse_uint radix limit (show_base radix n) = Some n"
proof -
  obtain c cs where s: "show_base radix n = c # cs" by (cases "show_base radix n") simp_all
  with hd_show_base [OF assms(1,2), of n] have "c \<noteq> CHR ''+''" by simp
  with s parse_digits_show [OF assms] show ?thesis by (simp add: parse_uint_def)
qed

lemma parse_digits_less: "parse_digits radix limit acc s = Some n \<Longrightarrow> acc < limit \<Longrightarrow> n < limit"
  by (induction s arbitrary: acc) (auto split: option.splits if_splits)

lemma parse_uint_less: "parse_uint radix limit s = Some n \<Longrightarrow> 0 < limit \<Longrightarrow> n < limit"
  by (auto simp: parse_uint_def Let_def split: if_splits dest: parse_digits_less)

lemma show_base_chars: "2 \<le> radix \<Longrightarrow> c \<in> set (show_base radix n) \<Longrightarrow> \<exists>d < radix. c = digit_char d"
proof (induction radix n rule: show_base.induct)
  case (1 radix n)
  show ?case
  proof (cases "n < radix")
    case True
    with 1 show ?thesis by (auto simp: show_base.simps [of radix n])
  next
    case False
    then have "set (show_base radix n) = insert (digit_char (n mod radix)) (set (show_base radix (n div radix)))"
      using "1.prems"(1) by (subst show_base.simps) simp
    moreover have "n mod radix < radix" using "1.prems"(1) by simp
    moreover have "\<not> (radix < 2 \<or> n < radix)" using False "1.prems"(1) by simp
    note "1.IH" [OF this "1.prems"(1)]
    ultimately show ?thesis using "1.prems"(2) by (metis insert_iff)
  qed
qed

text \<open>What the digits of a number are not.\<close>

lemma digit_char_code: "d < 16 \<Longrightarrow> of_char (digit_char d) = (if d < 10 then 48 + d else 87 + d :: nat)"
  by (simp add: digit_char_def)

lemma parse_word_show: "2 \<le> radix \<Longrightarrow> radix \<le> 36 \<Longrightarrow> parse_word radix (show_base radix (unat (w :: 'a::len word))) = Some w"
  using unsigned_less [of w, where ?'a = nat] by (simp add: parse_word_def parse_uint_show)

lemma length_show_base: "2 \<le> radix \<Longrightarrow> n < radix ^ k \<Longrightarrow> 0 < k \<Longrightarrow> length (show_base radix n) \<le> k"
proof (induction radix n arbitrary: k rule: show_base.induct)
  case (1 radix n)
  show ?case
  proof (cases "n < radix")
    case True
    with 1 show ?thesis by (simp add: show_base.simps [of radix n])
  next
    case False
    with 1 have k: "1 < k" by (cases "k = 1") auto
    then have "n div radix < radix ^ (k - 1)"
      using "1.prems" by (cases k) (auto simp: less_mult_imp_div_less mult.commute)
    then have "length (show_base radix (n div radix)) \<le> k - 1"
      using 1 False k by simp
    with k False 1 show ?thesis by (simp add: show_base.simps [of radix n])
  qed
qed

lemma length_pad_left [simp]: "length s \<le> w \<Longrightarrow> length (pad_left c w s) = w"
  by (simp add: pad_left_def)

lemma length_show_byte [simp]: "length (show_byte b) = 2"
proof -
  have "unat b < 16 ^ 2" using unsigned_less [of b, where ?'a = nat] by simp
  then have "length (show_hex (unat b)) \<le> 2" by (intro length_show_base) simp_all
  then show ?thesis by (simp add: show_byte_def)
qed

lemma parse_digits_zeros:
  "parse_digits radix limit 0 (replicate k CHR ''0'' @ s) = parse_digits radix limit 0 s" if "0 < limit" "0 < radix"
proof -
  have "digit_val radix CHR ''0'' = Some 0" using that by (simp add: digit_val_def)
  with that show ?thesis by (induction k) simp_all
qed

lemma parse_show_byte: "parse_word 16 (show_byte b) = Some b"
proof -
  have lt: "unat b < 256" using unsigned_less [of b, where ?'a = nat] by simp
  let ?s = "show_byte b"
  have "?s = replicate (2 - length (show_hex (unat b))) CHR ''0'' @ show_hex (unat b)"
    by (simp add: show_byte_def pad_left_def)
  then have "parse_digits 16 256 0 ?s = Some (unat b)"
    using lt by (simp add: parse_digits_zeros parse_digits_show)
  moreover have "hd ?s \<noteq> CHR ''+''"
    using hd_show_base [of 16 "unat b"] by (simp add: show_byte_def pad_left_def hd_append)
  moreover obtain c cs where "?s = c # cs" using length_show_byte [of b] by (cases ?s) auto
  ultimately show ?thesis by (simp add: parse_word_def parse_uint_def)
qed

section \<open>Splitting\<close>

definition strip_prefix :: "string \<Rightarrow> string \<Rightarrow> string option" where
  "strip_prefix p s = (if take (length p) s = p then Some (drop (length p) s) else None)"

definition strip_suffix :: "string \<Rightarrow> string \<Rightarrow> string option" where
  "strip_suffix p s =
     (let k = length s - length p
      in if length p \<le> length s \<and> drop k s = p then Some (take k s) else None)"

lemma strip_prefix_append [simp]: "strip_prefix p (p @ s) = Some s"
  by (simp add: strip_prefix_def)

lemma strip_suffix_append [simp]: "strip_suffix p (s @ p) = Some s"
  by (simp add: strip_suffix_def)

lemma strip_prefix_Some: "strip_prefix p s = Some t \<longleftrightarrow> s = p @ t"
  by (auto simp: strip_prefix_def) (metis append_take_drop_id)

lemma strip_suffix_Some: "strip_suffix p s = Some t \<longleftrightarrow> s = t @ p"
  by (auto simp: strip_suffix_def Let_def) (metis append_take_drop_id)

definition is_space :: "char \<Rightarrow> bool" where
  "is_space c \<longleftrightarrow> of_char c \<in> {9, 10, 11, 12, 13, 32 :: nat}"

lemma is_space_digits: "2 \<le> radix \<Longrightarrow> radix \<le> 16 \<Longrightarrow> c \<in> set (show_base radix n) \<Longrightarrow> \<not> is_space c"
  by (frule (1) show_base_chars) (auto simp: is_space_def digit_char_code split: if_splits)

text \<open>The maximal runs of other characters, left to right.\<close>

function split_whitespace :: "string \<Rightarrow> string list" where
  "split_whitespace s =
     (let rest = dropWhile is_space s
      in if rest = [] then []
         else takeWhile (\<lambda>c. \<not> is_space c) rest # split_whitespace (dropWhile (\<lambda>c. \<not> is_space c) rest))"
  by pat_completeness auto
termination
proof (relation "measure length")
  fix s rest :: string
  assume "rest = dropWhile is_space s" "rest \<noteq> []"
  then have "\<not> is_space (hd rest)" using hd_dropWhile [of is_space s] by simp
  with \<open>rest \<noteq> []\<close> have "length (dropWhile (\<lambda>c. \<not> is_space c) rest) < length rest"
    by (cases rest) (auto intro: le_less_trans [OF length_dropWhile_le])
  also have "\<dots> \<le> length s" using \<open>rest = _\<close> by (simp add: length_dropWhile_le)
  finally show "(dropWhile (\<lambda>c. \<not> is_space c) rest, s) \<in> measure length" by simp
qed simp

declare split_whitespace.simps [simp del]

lemma split_whitespace_word:
  "s \<noteq> [] \<Longrightarrow> \<forall>c \<in> set s. \<not> is_space c \<Longrightarrow> split_whitespace s = [s]"
proof -
  assume s: "s \<noteq> []" "\<forall>c \<in> set s. \<not> is_space c"
  then have "dropWhile is_space s = s" by (cases s) auto
  moreover have "takeWhile (\<lambda>c. \<not> is_space c) s = s" using s(2) by simp
  moreover have "dropWhile (\<lambda>c. \<not> is_space c) s = []"
    using s(2) by (rule dropWhile_eq_Nil_conv [THEN iffD2])
  moreover have "split_whitespace [] = []" by (simp add: split_whitespace.simps)
  ultimately show ?thesis
    using s(1) by (subst split_whitespace.simps) (simp only: Let_def if_False)
qed

lemma split_whitespace_pair:
  assumes "s \<noteq> []" "\<forall>c \<in> set s. \<not> is_space c"
  shows "split_whitespace (s @ CHR '' '' # t) = s # split_whitespace t"
proof -
  have d: "dropWhile is_space (s @ CHR '' '' # t) = s @ CHR '' '' # t"
    using assms by (cases s) auto
  have sp: "is_space CHR '' ''" by (simp add: is_space_def)
  have tw: "takeWhile (\<lambda>c. \<not> is_space c) (s @ CHR '' '' # t) = s"
    "dropWhile (\<lambda>c. \<not> is_space c) (s @ CHR '' '' # t) = CHR '' '' # t"
    using assms(2) sp by (simp_all add: takeWhile_append2 dropWhile_append2)
  have "split_whitespace (CHR '' '' # t) = split_whitespace t"
    using sp by (subst (1 2) split_whitespace.simps) simp
  with assms(1) d tw show ?thesis by (subst split_whitespace.simps) simp
qed

text \<open>\<open>slice::chunks\<close>: runs of \<open>n\<close> elements, the last one may be shorter.\<close>

function chunks_of :: "nat \<Rightarrow> 'a list \<Rightarrow> 'a list list" where
  "chunks_of n xs = (if xs = [] \<or> n = 0 then [] else take n xs # chunks_of n (drop n xs))"
  by pat_completeness auto
termination by (relation "measure (\<lambda>(n, xs). length xs)") auto

declare chunks_of.simps [simp del]

lemma nth_chunks_of:
  assumes "0 < n" "j < length xs"
  shows "j div n < length (chunks_of n xs) \<and> j mod n < length (chunks_of n xs ! (j div n)) \<and>
    chunks_of n xs ! (j div n) ! (j mod n) = xs ! j \<and> length (chunks_of n xs ! (j div n)) \<le> n"
  using assms
proof (induction n xs arbitrary: j rule: chunks_of.induct)
  case (1 n xs)
  then have unfold: "chunks_of n xs = take n xs # chunks_of n (drop n xs)"
    by (subst chunks_of.simps) auto
  show ?case
  proof (cases "j < n")
    case True
    with 1 show ?thesis by (simp add: unfold)
  next
    case False
    with 1 have "\<not> (xs = [] \<or> n = 0)" "j - n < length (drop n xs)" by auto
    note IH = "1.IH" [OF this(1) "1.prems"(1) this(2)]
    from False "1.prems"(1) have "j div n = Suc ((j - n) div n)" "j mod n = (j - n) mod n"
      by (simp_all add: le_div_geq le_mod_geq)
    with IH False 1 show ?thesis by (simp add: unfold)
  qed
qed

end
