(* ===== verification/Load.thy ===== *)
theory Load
  imports Saves
begin

text \<open>
  Bulk loading (\<open>load_all_pages\<close>, \<open>load_all_btree\<close>, \<open>load_all_scan\<close> of
  \<open>append_only.rs\<close>): the output is cut into one region per worker thread, each worker fills
  its pages, and in append-only mode one linear scan of the log finds the newest record of
  every page first. The workers write disjoint slices and run one after the other
  here; \<open>Workers\<close> lets them run in any interleaving. Their results are joined in order.
\<close>

section \<open>Workers\<close>

text \<open>
  A worker's loop over \<open>chunks_exact_mut(PAGE_SIZE)\<close> of its region, from page index \<open>idx\<close>:
  \<open>f\<close> fills one slot and says whether the page was found.
\<close>

function fill_slice :: "(nat \<Rightarrow> bytes \<Rightarrow> (bytes \<times> bool) res) \<Rightarrow> nat \<Rightarrow> bytes \<Rightarrow> (bytes \<times> bool) res" where
  "fill_slice f idx region =
     (if length region < PAGE_SIZE then Inr (region, True)
      else rbind (f idx (take PAGE_SIZE region)) (\<lambda>(slot, found).
           rbind (fill_slice f (idx + 1) (drop PAGE_SIZE region)) (\<lambda>(rest, all_found).
             Inr (slot @ rest, found \<and> all_found))))"
  by pat_completeness auto
termination
  by (relation "measure (\<lambda>(f, idx, region). length region)") (auto simp: PAGE_SIZE_def)

declare fill_slice.simps [simp del]

text \<open>The cutting loop: start index and region of each worker, and what is left over.\<close>

fun split_work :: "nat \<Rightarrow> nat \<Rightarrow> nat \<Rightarrow> nat \<Rightarrow> bytes \<Rightarrow> (nat \<times> bytes) list \<times> bytes" where
  "split_work 0 pages pages_per_worker cursor remaining = ([], remaining)"
| "split_work (Suc workers) pages pages_per_worker cursor remaining =
     (if pages \<le> cursor then ([], remaining)
      else
        let pages_here = min pages_per_worker (pages - cursor);
            split = pages_here * PAGE_SIZE
        in case split_work workers pages pages_per_worker (cursor + pages_here) (drop split remaining) of
             (starts, left) \<Rightarrow> ((cursor, take split remaining) # starts, left))"

text \<open>
  Joining in order: the first failed worker decides, a panicked one as an I/O error. The
  workers after it are not joined by hand: \<open>thread::scope\<close> waits for them, and panics
  itself when one of those panicked.
\<close>

fun join_workers :: "(bytes \<times> bool) res list \<Rightarrow> (bytes \<times> bool) res" where
  "join_workers [] = Inr ([], True)"
| "join_workers (r # rs) =
     (case r of
        Inl e \<Rightarrow> if Inl Panic \<in> set rs then Inl Panic else Inl (if e = Panic then IoErr OtherError else e)
      | Inr (region, found) \<Rightarrow> rbind (join_workers rs) (\<lambda>(rest, all_found). Inr (region @ rest, found \<and> all_found)))"

definition run_workers ::
  "(nat \<Rightarrow> bytes \<Rightarrow> (bytes \<times> bool) res) \<Rightarrow> nat \<Rightarrow> nat \<Rightarrow> bytes \<Rightarrow> (bytes \<times> bool) res" where
  "run_workers f worker_count pages out =
     (let pages_per_worker = (pages + worker_count - 1) div worker_count
      in case split_work worker_count pages pages_per_worker 0 out of
           (starts, left) \<Rightarrow>
             rbind (join_workers (map (\<lambda>(start_idx, region). fill_slice f start_idx region) starts))
               (\<lambda>(filled, success). Inr (filled @ left, success)))"

section \<open>The two bulk loads\<close>

definition btree_slot :: "decoder \<Rightarrow> page_store \<Rightarrow> u64 \<Rightarrow> u32 \<Rightarrow> nat \<Rightarrow> bytes \<Rightarrow> (bytes \<times> bool) res" where
  "btree_slot zd st pa_offset snapshot_id idx slot =
     (let pa = pa_offset + of_nat idx
      in rbind (store_floor st pa snapshot_id) (\<lambda>r.
           case r of
             Some rec \<Rightarrow> rbind (resolve_uncached zd st rec slot) (\<lambda>page. Inr (page, True))
           | None \<Rightarrow> Inr (slot, False)))"

definition load_all_btree ::
  "decoder \<Rightarrow> page_store \<Rightarrow> bytes \<Rightarrow> u64 \<Rightarrow> u64 \<Rightarrow> u32 \<Rightarrow> nat \<Rightarrow> (bytes \<times> bool) res" where
  "load_all_btree zd st out pa_offset total_page_count snapshot_id worker_count =
     run_workers (btree_slot zd st pa_offset snapshot_id) worker_count (unat total_page_count) out"

text \<open>One record of the scan: \<open>latest\<close> keeps the highest snapshot up to the requested one.\<close>

definition scan_step :: "u64 \<Rightarrow> u64 \<Rightarrow> u32 \<Rightarrow> chunk_record option list \<Rightarrow> chunk_record \<Rightarrow> chunk_record option list" where
  "scan_step pa_offset end_pa snapshot_id latest rec =
     (let pa = pa_of (r_key rec); snap = snapshot_of (r_key rec)
      in if pa < pa_offset \<or> end_pa \<le> pa then latest
         else if snapshot_id < snap then latest
         else
           let slot = unat (pa - pa_offset)
           in case latest ! slot of
                None \<Rightarrow> latest[slot := Some rec]
              | Some prev \<Rightarrow> if snapshot_of (r_key prev) < snap then latest[slot := Some rec] else latest)"

definition scan_slot :: "decoder \<Rightarrow> page_store \<Rightarrow> chunk_record option list \<Rightarrow> nat \<Rightarrow> bytes \<Rightarrow> (bytes \<times> bool) res" where
  "scan_slot zd st latest idx slot =
     (case latest ! idx of
        Some rec \<Rightarrow> rbind (resolve_uncached zd st rec slot) (\<lambda>page. Inr (page, True))
      | None \<Rightarrow> Inr (slot, False))"

definition load_all_scan ::
  "decoder \<Rightarrow> page_store \<Rightarrow> bytes \<Rightarrow> bytes \<Rightarrow> u64 \<Rightarrow> u64 \<Rightarrow> u32 \<Rightarrow> nat \<Rightarrow> (bytes \<times> bool) res" where
  "load_all_scan zd st log out pa_offset total_page_count snapshot_id worker_count =
     (let end_pa = pa_offset + total_page_count
      in rbind (read_log_records log) (\<lambda>records.
           let latest = foldl (scan_step pa_offset end_pa snapshot_id)
                 (replicate (unat total_page_count) None) records
           in run_workers (scan_slot zd st latest) worker_count (unat total_page_count) out))"

text \<open>
  \<open>load_all_pages\<close>: \<open>aligned\<close> says whether the buffer's address is a multiple of the
  system page size, \<open>discard\<close> is the effect of \<open>madvise(MADV_DONTNEED)\<close> on its bytes.
\<close>

definition load_all_pages ::
  "decoder \<Rightarrow> (bytes \<Rightarrow> bytes) \<Rightarrow> db_dir \<Rightarrow> bytes \<Rightarrow> bool \<Rightarrow> u64 \<Rightarrow> u64 \<Rightarrow> u32 \<Rightarrow> nat \<Rightarrow> (bytes \<times> bool) res" where
  "load_all_pages zd discard dir out aligned pa_offset total_page_count snapshot_id worker_count =
     (if MAX_SNAPSHOT_ID < snapshot_id then Inl (IoErr InvalidInput)
      else if length out \<noteq> unat total_page_count * PAGE_SIZE then Inl (IoErr InvalidInput)
      else if \<not> aligned then Inl (IoErr InvalidInput)
      else
        let out = (if out = [] then out else discard out);
            worker_count = max worker_count 1
        in rbind (page_store_open dir) (\<lambda>store.
             case ps_mode store of
               BTree \<Rightarrow> load_all_btree zd store out pa_offset total_page_count snapshot_id worker_count
             | AppendOnly \<Rightarrow>
                 (case ps_source store of
                    AppendOnlySource log _ \<Rightarrow>
                      load_all_scan zd store log out pa_offset total_page_count snapshot_id worker_count
                  | BTreeSource _ _ \<Rightarrow> Inl Panic)))"

section \<open>Every page is visited once\<close>

text \<open>The sequential loop over all pages, as the specification of the parallel one.\<close>

lemma fill_slice_short: "length region < PAGE_SIZE \<Longrightarrow> fill_slice f idx region = Inr (region, True)"
  by (simp add: fill_slice.simps)

lemma fill_slice_append:
  assumes "length a = k * PAGE_SIZE"
  shows "fill_slice f idx (a @ b) = rbind (fill_slice f idx a) (\<lambda>(x, p).
     rbind (fill_slice f (idx + k) b) (\<lambda>(y, q). Inr (x @ y, p \<and> q)))"
  using assms
proof (induction k arbitrary: a idx)
  case 0
  then have "fill_slice f idx a = Inr (a, True)" by (intro fill_slice_short) (simp add: PAGE_SIZE_def)
  with 0 show ?case by (simp add: rbind_def split: sum.splits)
next
  case (Suc k)
  have ge: "\<not> length a < PAGE_SIZE" "\<not> length (a @ b) < PAGE_SIZE" using Suc.prems by auto
  have "length (drop PAGE_SIZE a) = k * PAGE_SIZE" using Suc.prems by simp
  note IH = Suc.IH [OF this, of "idx + 1"]
  have "fill_slice f idx (a @ b) = rbind (f idx (take PAGE_SIZE a)) (\<lambda>(slot, found).
      rbind (fill_slice f (idx + 1) (drop PAGE_SIZE a @ b)) (\<lambda>(rest, all_found). Inr (slot @ rest, found \<and> all_found)))"
    using ge by (subst fill_slice.simps) simp
  also have "\<dots> = rbind (fill_slice f idx a) (\<lambda>(x, p). rbind (fill_slice f (idx + Suc k) b) (\<lambda>(y, q). Inr (x @ y, p \<and> q)))"
    unfolding IH using ge
    by (subst (2) fill_slice.simps)
      (auto simp: rbind_assoc split_def conj_assoc intro!: arg_cong2 [where f = rbind] ext)
  finally show ?case .
qed

lemma split_work_join:
  assumes "length rem = (pages - cursor) * PAGE_SIZE" "cursor \<le> pages" "pages \<le> cursor + workers * ppw"
    and "fill_slice f cursor rem = Inr res"
  shows "\<exists>starts. split_work workers pages ppw cursor rem = (starts, []) \<and>
    join_workers (map (\<lambda>(i, sl). fill_slice f i sl) starts) = Inr res"
  using assms
proof (induction workers arbitrary: cursor rem res)
  case 0
  then show ?case by (simp add: fill_slice_short PAGE_SIZE_def)
next
  case (Suc workers)
  show ?case
  proof (cases "pages \<le> cursor")
    case True
    with Suc.prems show ?thesis by (simp add: fill_slice_short PAGE_SIZE_def)
  next
    case False
    define t where "t = min ppw (pages - cursor)"
    have len: "length (drop (t * PAGE_SIZE) rem) = (pages - (cursor + t)) * PAGE_SIZE"
      using Suc.prems by (simp add: diff_mult_distrib add_mult_distrib)
    have head: "length (take (t * PAGE_SIZE) rem) = t * PAGE_SIZE"
      using Suc.prems by (simp add: t_def)
    have bounds: "cursor + t \<le> pages" "pages \<le> cursor + t + workers * ppw"
      using Suc.prems False by (auto simp: t_def min_def)
    have "fill_slice f cursor rem = rbind (fill_slice f cursor (take (t * PAGE_SIZE) rem)) (\<lambda>(x, p).
        rbind (fill_slice f (cursor + t) (drop (t * PAGE_SIZE) rem)) (\<lambda>(y, q). Inr (x @ y, p \<and> q)))"
      using fill_slice_append [OF head, of f cursor "drop (t * PAGE_SIZE) rem"] by simp
    with Suc.prems(4) obtain x p y q where parts: "fill_slice f cursor (take (t * PAGE_SIZE) rem) = Inr (x, p)"
      "fill_slice f (cursor + t) (drop (t * PAGE_SIZE) rem) = Inr (y, q)" "res = (x @ y, p \<and> q)"
      by (auto simp: rbind_eq_Inr_iff)
    from Suc.IH [OF len bounds parts(2)] obtain starts where
      "split_work workers pages ppw (cursor + t) (drop (t * PAGE_SIZE) rem) = (starts, [])"
      "join_workers (map (\<lambda>(i, sl). fill_slice f i sl) starts) = Inr (y, q)"
      by blast
    with False parts show ?thesis by (simp add: Let_def flip: t_def)
  qed
qed

text \<open>When one sequential pass over the pages succeeds, any number of workers computes the same.\<close>

lemma run_workers_eq:
  assumes "length out = pages * PAGE_SIZE" "0 < workers" "fill_slice f 0 out = Inr res"
  shows "run_workers f workers pages out = Inr res"
proof -
  define ppw where "ppw = (pages + workers - 1) div workers"
  have "pages \<le> workers * ppw"
  proof -
    have "pages + workers - 1 = workers * ppw + (pages + workers - 1) mod workers"
      by (simp add: ppw_def)
    moreover have "(pages + workers - 1) mod workers \<le> workers - 1"
      using assms(2) by (metis Suc_pred' less_Suc_eq_le mod_less_divisor)
    ultimately show ?thesis using assms(2) by linarith
  qed
  then obtain starts where "split_work workers pages ppw 0 out = (starts, [])"
    "join_workers (map (\<lambda>(i, sl). fill_slice f i sl) starts) = Inr res"
    using split_work_join [of out pages 0 workers ppw f res] assms by auto
  then show ?thesis
    unfolding run_workers_def Let_def ppw_def [symmetric] by (cases res) simp
qed

text \<open>The regions are whole pages inside the buffer.\<close>

lemma split_work_regions:
  assumes "length rem = (pages - cursor) * PAGE_SIZE" "cursor \<le> pages"
    and "(i, sl) \<in> set (fst (split_work workers pages ppw cursor rem))"
  shows "\<exists>k. length sl = k * PAGE_SIZE \<and> i + k \<le> pages"
  using assms
proof (induction workers arbitrary: cursor rem)
  case (Suc workers)
  define t where "t = min ppw (pages - cursor)"
  have "length (drop (t * PAGE_SIZE) rem) = (pages - (cursor + t)) * PAGE_SIZE"
    using Suc.prems(1,2) by (simp add: diff_mult_distrib add_mult_distrib)
  moreover have "length (take (t * PAGE_SIZE) rem) = t * PAGE_SIZE"
    using Suc.prems(1) by (simp add: t_def)
  moreover have "cursor + t \<le> pages" using Suc.prems(2) by (simp add: t_def)
  ultimately have len: "length (drop (t * PAGE_SIZE) rem) = (pages - (cursor + t)) * PAGE_SIZE"
    "length (take (t * PAGE_SIZE) rem) = t * PAGE_SIZE" "cursor + t \<le> pages" .
  from Suc.prems(3) have "(i, sl) = (cursor, take (t * PAGE_SIZE) rem) \<or>
      (i, sl) \<in> set (fst (split_work workers pages ppw (cursor + t) (drop (t * PAGE_SIZE) rem)))"
    by (auto simp: Let_def t_def [symmetric] split_def split: if_splits)
  with len Suc.IH [OF len(1,3)] show ?case by auto
qed simp

definition slot_at :: "nat \<Rightarrow> bytes \<Rightarrow> bytes" where
  "slot_at i out = take PAGE_SIZE (drop (i * PAGE_SIZE) out)"

lemma fill_slice_cong:
  assumes "length out = n * PAGE_SIZE" "\<And>i slot. i < n \<Longrightarrow> length slot = PAGE_SIZE \<Longrightarrow> f (idx + i) slot = g (idx + i) slot"
  shows "fill_slice f idx out = fill_slice g idx out"
  using assms
proof (induction n arbitrary: idx out)
  case 0
  then show ?case by (simp add: fill_slice_short PAGE_SIZE_def)
next
  case (Suc n)
  have "fill_slice f (idx + 1) (drop PAGE_SIZE out) = fill_slice g (idx + 1) (drop PAGE_SIZE out)"
  proof (rule Suc.IH)
    show "f (idx + 1 + i) slot = g (idx + 1 + i) slot" if "i < n" "length slot = PAGE_SIZE" for i slot
      using Suc.prems(2) [of "Suc i" slot] that by simp
  qed (use Suc.prems in simp)
  moreover have "f idx (take PAGE_SIZE out) = g idx (take PAGE_SIZE out)"
    using Suc.prems(2) [of 0 "take PAGE_SIZE out"] Suc.prems(1) by simp
  ultimately show ?case by (subst (1 2) fill_slice.simps) simp
qed

lemma run_workers_cong:
  assumes "length out = pages * PAGE_SIZE"
    and "\<And>i slot. i < pages \<Longrightarrow> length slot = PAGE_SIZE \<Longrightarrow> f i slot = g i slot"
  shows "run_workers f workers pages out = run_workers g workers pages out"
proof -
  have "fill_slice f i sl = fill_slice g i sl"
    if region: "(i, sl) \<in> set (fst (split_work workers pages ppw 0 out))" for i sl ppw
  proof -
    obtain k where "length sl = k * PAGE_SIZE" "i + k \<le> pages"
      using split_work_regions [OF _ _ region] assms(1) by auto
    with assms(2) show ?thesis by (intro fill_slice_cong [of sl k]) auto
  qed
  then show ?thesis
    by (auto simp: run_workers_def Let_def split_def intro!: arg_cong2 [where f = rbind] arg_cong [where f = join_workers] map_cong)
qed

lemma fill_slice_pointwise:
  assumes "length out = n * PAGE_SIZE"
    and "\<And>i slot. i < n \<Longrightarrow> length slot = PAGE_SIZE \<Longrightarrow> f (idx + i) slot = Inr (g i slot, found i) \<and> length (g i slot) = PAGE_SIZE"
  shows "\<exists>out'. fill_slice f idx out = Inr (out', \<forall>i < n. found i) \<and> length out' = length out \<and>
    (\<forall>i < n. slot_at i out' = g i (slot_at i out))"
  using assms
proof (induction n arbitrary: idx out g found)
  case 0
  then show ?case by (simp add: fill_slice_short PAGE_SIZE_def)
next
  case (Suc n)
  have len: "length (drop PAGE_SIZE out) = n * PAGE_SIZE" "length (take PAGE_SIZE out) = PAGE_SIZE"
    using Suc.prems(1) by simp_all
  have "\<exists>out'. fill_slice f (idx + 1) (drop PAGE_SIZE out) = Inr (out', \<forall>i < n. found (Suc i)) \<and>
      length out' = length (drop PAGE_SIZE out) \<and>
      (\<forall>i < n. slot_at i out' = g (Suc i) (slot_at i (drop PAGE_SIZE out)))"
    by (rule Suc.IH [OF len(1)]) (use Suc.prems(2) [of "Suc _"] in simp)
  then obtain rest where rest: "fill_slice f (idx + 1) (drop PAGE_SIZE out) = Inr (rest, \<forall>i < n. found (Suc i))"
    "length rest = n * PAGE_SIZE" "\<forall>i < n. slot_at i rest = g (Suc i) (slot_at i (drop PAGE_SIZE out))"
    using len by auto
  have hd: "f idx (take PAGE_SIZE out) = Inr (g 0 (take PAGE_SIZE out), found 0)" "length (g 0 (take PAGE_SIZE out)) = PAGE_SIZE"
    using Suc.prems(2) [of 0 "take PAGE_SIZE out"] len(2) by simp_all
  let ?out' = "g 0 (take PAGE_SIZE out) @ rest"
  have "fill_slice f idx out = Inr (?out', \<forall>i < Suc n. found i)"
    using Suc.prems(1) rest(1) hd(1) by (subst fill_slice.simps) (auto simp: less_Suc_eq_0_disj)
  moreover have "slot_at i ?out' = g i (slot_at i out)" if "i < Suc n" for i
  proof (cases i)
    case 0
    with hd show ?thesis by (simp add: slot_at_def)
  next
    case (Suc j)
    with rest(3) that hd(2) show ?thesis by (simp add: slot_at_def add.commute)
  qed
  moreover have "length ?out' = length out" using hd rest Suc.prems(1) by simp
  ultimately show ?case by blast
qed

section \<open>The scan finds the newest record\<close>

text \<open>What a slot of \<open>latest\<close> holds after the records \<open>rs\<close>.\<close>

definition scan_best :: "chunk_record list \<Rightarrow> u64 \<Rightarrow> u32 \<Rightarrow> chunk_record option \<Rightarrow> bool" where
  "scan_best rs pa s best \<longleftrightarrow>
     (case best of
        None \<Rightarrow> \<forall>r \<in> set rs. pa_of (r_key r) = pa \<longrightarrow> s < snapshot_of (r_key r)
      | Some b \<Rightarrow> newest_version rs pa s b \<and> find (\<lambda>r. r_key r = r_key b) rs = Some b)"

lemma find_append_None: "find P xs = None \<Longrightarrow> find P (xs @ ys) = find P ys"
  by (induction xs) auto

lemma find_append_Some: "find P xs = Some x \<Longrightarrow> find P (xs @ ys) = Some x"
  by (induction xs) (auto split: if_splits)

lemma scan_best_skip:
  assumes "scan_best rs pa s b" "pa_of (r_key r) \<noteq> pa \<or> s < snapshot_of (r_key r)"
  shows "scan_best (rs @ [r]) pa s b"
  using assms by (auto simp: scan_best_def newest_version_def find_append_Some split: option.splits)

lemma scan_best_first:
  assumes "scan_best rs pa s None" "pa_of (r_key r) = pa" "snapshot_of (r_key r) \<le> s"
  shows "scan_best (rs @ [r]) pa s (Some r)"
proof -
  have old: "s < snapshot_of (r_key r')" if "r' \<in> set rs" "pa_of (r_key r') = pa" for r'
    using assms(1) that by (simp add: scan_best_def)
  have "r_key r' \<noteq> r_key r" if "r' \<in> set rs" for r'
    using old [OF that] assms(2,3) by auto
  then have "find (\<lambda>x. r_key x = r_key r) rs = None" by (simp add: find_None_iff)
  with old assms(2,3) show ?thesis
    by (auto simp: scan_best_def newest_version_def find_append_None) (metis leD)
qed

lemma scan_best_newer:
  assumes "scan_best rs pa s (Some b)" "pa_of (r_key r) = pa" "snapshot_of (r_key r) \<le> s"
  shows "scan_best (rs @ [r]) pa s (Some (if snapshot_of (r_key b) < snapshot_of (r_key r) then r else b))"
proof (cases "snapshot_of (r_key b) < snapshot_of (r_key r)")
  case True
  have old: "snapshot_of (r_key r') \<le> snapshot_of (r_key b)"
    if "r' \<in> set rs" "pa_of (r_key r') = pa" "snapshot_of (r_key r') \<le> s" for r'
    using assms(1) that by (auto simp: scan_best_def newest_version_def)
  have "r_key r' \<noteq> r_key r" if "r' \<in> set rs" for r'
  proof
    assume eq: "r_key r' = r_key r"
    with old [OF that] assms(2,3) have "snapshot_of (r_key r) \<le> snapshot_of (r_key b)" by simp
    with True show False by simp
  qed
  then have "find (\<lambda>x. r_key x = r_key r) rs = None" by (simp add: find_None_iff)
  then have "scan_best (rs @ [r]) pa s (Some r)"
    unfolding scan_best_def newest_version_def
    using old True assms(2,3) by (auto simp: find_append_None intro: order_trans less_imp_le)
  with True show ?thesis by simp
next
  case False
  with assms show ?thesis
    by (auto simp: scan_best_def newest_version_def find_append_Some not_less)
qed

lemma scan_step_best:
  assumes range: "unat off + n < 2 ^ 64" and len: "length latest = n"
    and inv: "\<And>i. i < n \<Longrightarrow> scan_best rs (off + of_nat i) s (latest ! i)"
  shows "length (scan_step off (off + of_nat n) s latest r) = n \<and>
    (\<forall>i < n. scan_best (rs @ [r]) (off + of_nat i) s (scan_step off (off + of_nat n) s latest r ! i))"
proof -
  let ?pa = "pa_of (r_key r)"
  have n64: "n < 2 ^ 64" using range by simp
  have un: "unat (off + of_nat i) = unat off + i" if "i \<le> n" for i
    using that range by (simp add: unat_word_ariths unat_of_nat take_bit_nat_eq_self_iff)
  have ne: "off + of_nat i \<noteq> off + of_nat j" if "i \<noteq> j" "i \<le> n" "j \<le> n" for i j
    using un [OF that(2)] un [OF that(3)] that(1) by (metis add_left_imp_eq)
  show ?thesis
  proof (cases "?pa < off \<or> off + of_nat n \<le> ?pa \<or> s < snapshot_of (r_key r)")
    case True
    have "?pa \<noteq> off + of_nat i \<or> s < snapshot_of (r_key r)" if "i < n" for i
      using True un [of i] un [of n] that by (auto simp: word_less_nat_alt word_le_nat_alt)
    with True len inv show ?thesis
      by (auto simp: scan_step_def Let_def intro: scan_best_skip)
  next
    case False
    define k where "k = unat (?pa - off)"
    have le: "off \<le> ?pa" "unat ?pa < unat off + n" using False un [of n] by (auto simp: word_le_nat_alt word_less_nat_alt)
    then have k: "k = unat ?pa - unat off" by (simp add: k_def unat_sub)
    then have kn: "k < n" using le by (simp add: word_le_nat_alt)
    have pa: "?pa = off + of_nat k"
      using un [of k] kn k le by (simp add: word_unat_eq_iff word_le_nat_alt)
    have skip: "scan_best (rs @ [r]) (off + of_nat i) s (latest ! i)" if "i < n" "i \<noteq> k" for i
      by (rule scan_best_skip [OF inv [OF that(1)]]) (use ne [of k i] that kn pa in auto)
    have step: "scan_step off (off + of_nat n) s latest r =
        (case latest ! k of
           None \<Rightarrow> latest[k := Some r]
         | Some prev \<Rightarrow> if snapshot_of (r_key prev) < snapshot_of (r_key r) then latest[k := Some r] else latest)"
      using False unfolding scan_step_def Let_def k_def [symmetric] by simp
    have "scan_best (rs @ [r]) (off + of_nat k) s (scan_step off (off + of_nat n) s latest r ! k)"
    proof (cases "latest ! k")
      case None
      with scan_best_first [of rs "off + of_nat k" s r] inv [OF kn] pa False kn len show ?thesis
        by (simp add: step not_less)
    next
      case (Some b)
      have "snapshot_of (r_key r) \<le> s" using False by (simp add: not_less)
      from scan_best_newer [OF _ pa this, of rs b] inv [OF kn] Some
      have best: "scan_best (rs @ [r]) (off + of_nat k) s (Some (if snapshot_of (r_key b) < snapshot_of (r_key r) then r else b))"
        by simp
      show ?thesis
      proof (cases "snapshot_of (r_key b) < snapshot_of (r_key r)")
        case True
        with best Some kn len show ?thesis by (simp add: step)
      next
        case False
        with best Some show ?thesis by (simp add: step)
      qed
    qed
    moreover have "scan_step off (off + of_nat n) s latest r ! i = latest ! i" if "i \<noteq> k" for i
      using that by (auto simp: step split: option.splits)
    moreover have "length (scan_step off (off + of_nat n) s latest r) = n"
      using len by (auto simp: step split: option.splits)
    ultimately show ?thesis using skip by metis
  qed
qed

lemma scan_all_best:
  assumes "unat off + n < 2 ^ 64"
  shows "length (foldl (scan_step off (off + of_nat n) s) (replicate n None) rs) = n \<and>
    (\<forall>i < n. scan_best rs (off + of_nat i) s (foldl (scan_step off (off + of_nat n) s) (replicate n None) rs ! i))"
proof (induction rs rule: rev_induct)
  case Nil
  then show ?case by (simp add: scan_best_def)
next
  case (snoc r rs)
  with scan_step_best [OF assms(1), of "foldl (scan_step off (off + of_nat n) s) (replicate n None) rs" rs s r]
  show ?case by simp
qed

text \<open>On the records of a log, that is the answer of the lazy index.\<close>

lemma scan_best_floor:
  assumes "scan_best rs pa s b" "s \<le> MAX_SNAPSHOT_ID"
  shows "floor_answer (canon r_key rs) (encode_key pa s) pa = b"
proof (cases b)
  case None
  then have "\<forall>r \<in> set (canon r_key rs). pa_of (r_key r) = pa \<longrightarrow> s < snapshot_of (r_key r)"
    using assms(1) set_canon [of r_key rs] by (auto simp: scan_best_def)
  with None floor_answer_None [OF sorted_canon [of r_key rs] assms(2), of pa] show ?thesis by simp
next
  case (Some r)
  with assms(1) have nv: "newest_version rs pa s r" and fd: "find (\<lambda>x. r_key x = r_key r) rs = Some r"
    by (simp_all add: scan_best_def)
  have "find (\<lambda>x. r_key x = r_key r) (canon r_key rs) = Some r" by (simp add: find_key_canon fd)
  then have "r \<in> set (canon r_key rs)" by (auto dest: find_eq_Some)
  with nv set_canon [of r_key rs] have "newest_version (canon r_key rs) pa s r"
    by (auto simp: newest_version_def)
  with Some floor_answer_newest [OF sorted_canon [of r_key rs] assms(2), of pa r] show ?thesis by simp
qed

section \<open>Both bulk loads read every page of the snapshot\<close>

text \<open>
  The page a slot should get, as the specification: what the single-page reader answers,
  or the old bytes when the page does not exist yet.
\<close>

definition spec_slot :: "decoder \<Rightarrow> page_store \<Rightarrow> u64 \<Rightarrow> u32 \<Rightarrow> nat \<Rightarrow> bytes \<Rightarrow> (bytes \<times> bool) res" where
  "spec_slot zd st off s i slot =
     rbind (read_page zd st (off + of_nat i) s) (\<lambda>r. case r of Some p \<Rightarrow> Inr (p, True) | None \<Rightarrow> Inr (slot, False))"

lemma btree_slot_spec:
  assumes "s \<le> MAX_SNAPSHOT_ID" "length slot = PAGE_SIZE"
  shows "btree_slot zd st off s i slot = spec_slot zd st off s i slot"
proof (cases "store_floor st (off + of_nat i) s")
  case (Inr r)
  with assms show ?thesis
    by (cases r) (auto simp: btree_slot_def spec_slot_def read_page_def rbind_assoc resolve_uncached_eq)
qed (use assms leD in \<open>auto simp: btree_slot_def spec_slot_def read_page_def\<close>)

lemma scan_slot_spec:
  assumes st: "store_ok st" "store_records st = canon r_key rs" and s: "s \<le> MAX_SNAPSHOT_ID" "length slot = PAGE_SIZE"
    and best: "scan_best rs (off + of_nat i) s (latest ! i)"
  shows "scan_slot zd st latest i slot = spec_slot zd st off s i slot"
proof -
  have "store_floor st (off + of_nat i) s = Inr (latest ! i)"
    using store_query [OF st(1), of "off + of_nat i" s] scan_best_floor [OF best s(1)] by (simp add: st(2))
  with s show ?thesis
    by (cases "latest ! i") (auto simp: scan_slot_def spec_slot_def read_page_def rbind_assoc resolve_uncached_eq)
qed

lemma load_all_btree_eq:
  assumes "s \<le> MAX_SNAPSHOT_ID" "length out = unat n * PAGE_SIZE"
  shows "load_all_btree zd st out off n s workers = run_workers (spec_slot zd st off s) workers (unat n) out"
  unfolding load_all_btree_def by (rule run_workers_cong [OF assms(2)]) (simp add: btree_slot_spec assms(1))

lemma load_all_scan_eq:
  assumes "store_ok st" "read_log_records log = Inr rs" "store_records st = canon r_key rs"
    and s: "s \<le> MAX_SNAPSHOT_ID" and out: "length out = unat n * PAGE_SIZE"
    and range: "unat off + unat n < 2 ^ 64"
  shows "load_all_scan zd st log out off n s workers = run_workers (spec_slot zd st off s) workers (unat n) out"
proof -
  define latest where "latest = foldl (scan_step off (off + n) s) (replicate (unat n) None) rs"
  have best: "\<forall>i < unat n. scan_best rs (off + of_nat i) s (latest ! i)"
    using scan_all_best [OF range, of s rs] by (simp add: latest_def)
  have "run_workers (scan_slot zd st latest) workers (unat n) out = run_workers (spec_slot zd st off s) workers (unat n) out"
    by (rule run_workers_cong [OF out]) (use best in \<open>simp add: scan_slot_spec [OF assms(1,3) s]\<close>)
  then show ?thesis
    using assms(2) by (simp add: load_all_scan_def Let_def flip: latest_def)
qed

text \<open>The bulk load of an opened directory, in either mode.\<close>

lemma load_all_pages_eq:
  assumes opened: "page_store_open dir = Inr st" "store_ok st" and s: "s \<le> MAX_SNAPSHOT_ID"
    and out: "length out = unat n * PAGE_SIZE" "length (discard out) = length out"
    and range: "unat off + unat n < 2 ^ 64"
  shows "load_all_pages zd discard dir out True off n s workers =
    run_workers (spec_slot zd st off s) (max workers 1) (unat n) (if out = [] then out else discard out)"
proof -
  let ?out = "if out = [] then out else discard out"
  have len: "length ?out = unat n * PAGE_SIZE" using out by (cases "out = []") simp_all
  have range_s: "\<not> MAX_SNAPSHOT_ID < s" using s by simp
  show ?thesis
  proof (cases "ps_source st")
    case (BTreeSource f k)
    then have "ps_mode st = BTree"
      using opened(1) by (auto simp: page_store_open_def Let_def rbind_eq_Inr_iff split: option.splits if_splits)
    with opened(1) range_s out(1) load_all_btree_eq [OF s len, of zd st off "max workers 1"] show ?thesis
      by (simp add: load_all_pages_def Let_def)
  next
    case (AppendOnlySource log slot)
    then have mode: "ps_mode st = AppendOnly"
      using opened(1) by (auto simp: page_store_open_def Let_def rbind_eq_Inr_iff split: option.splits if_splits)
    obtain rs where rs: "read_log_records log = Inr rs"
      using opened(2) AppendOnlySource by (auto simp: store_ok_def split: sum.splits)
    then have "store_records st = canon r_key rs"
      using AppendOnlySource by (simp add: store_records_def log_records_def)
    from load_all_scan_eq [OF opened(2) rs this s len range, of zd "max workers 1"] mode opened(1) range_s out(1) AppendOnlySource
    show ?thesis by (simp add: load_all_pages_def Let_def)
  qed
qed

section \<open>Bulk loads of a history\<close>

lemma apply_delta_xor_length:
  "apply_delta_xor blob out = Inr p \<Longrightarrow> length out = PAGE_SIZE \<Longrightarrow> length p = PAGE_SIZE"
proof (induction blob out rule: apply_delta_xor.induct)
  case (1 blob out)
  let ?idx = "unat (from_le (rslice 0 2 (take 10 blob)) :: u16)"
  have unfold: "apply_delta_xor blob out = (if length blob < 10 then Inr out
      else if PAGE_WORDS \<le> ?idx then Inl (IoErr InvalidData)
      else apply_delta_xor (drop 10 blob) (copy_at (?idx * 8) (to_le 8
        ((from_le (rslice (?idx * 8) ((?idx + 1) * 8) out) :: u64) XOR from_le (rslice 2 10 (take 10 blob)))) out))"
    by (subst apply_delta_xor.simps) (simp only: Let_def)
  show ?case
  proof (cases "length blob < 10 \<or> PAGE_WORDS \<le> ?idx")
    case True
    with "1.prems" show ?thesis unfolding unfold by (simp split: if_splits)
  next
    case False
    let ?out = "copy_at (?idx * 8) (to_le 8 ((from_le (rslice (?idx * 8) ((?idx + 1) * 8) out) :: u64) XOR from_le (rslice 2 10 (take 10 blob)))) out"
    have "apply_delta_xor (drop 10 blob) ?out = Inr p"
      using "1.prems"(1) False unfolding unfold by simp
    moreover have "length ?out = PAGE_SIZE"
      using False "1.prems"(2) by (simp add: PAGE_SIZE_words)
    ultimately show ?thesis using "1.IH" False by (auto simp: Let_def)
  qed
qed

lemma chunk_at_length: "chunk_at zd bl R r p \<Longrightarrow> length p = PAGE_SIZE"
  by (auto simp: chunk_at_def full_at_def apply_delta_patch_in_place_def apply_delta_xor_length
      split: chunk_kind.splits if_splits)

lemma abs_read_length:
  assumes "history_ok h" "hist_match zd bl rs h" "abs_read h pa s = Some p"
  shows "length p = PAGE_SIZE"
proof -
  obtain s' m where sm: "(s', m) \<in> set h" "m pa = Some p"
    using abs_read_Some [OF assms(1,3)] by blast
  obtain r where "rec_ok zd bl (set rs) s' pa p r"
    by (rule hist_match_pageE [OF assms(2) sm])
  then show ?thesis using chunk_at_length by (auto simp: rec_ok_def)
qed

lemma load_all_history:
  assumes dir: "dir_inv zd h dir" "dd_index dir = None" and s: "s \<le> MAX_SNAPSHOT_ID"
    and out: "length out = unat n * PAGE_SIZE" "length (discard out) = length out"
    and range: "unat off + unat n < 2 ^ 64"
  shows "\<exists>out'. load_all_pages zd discard dir out True off n s workers =
      Inr (out', \<forall>i < unat n. abs_read h (off + of_nat i) s \<noteq> None) \<and> length out' = length out \<and>
    (\<forall>i < unat n. slot_at i out' =
      (case abs_read h (off + of_nat i) s of Some p \<Rightarrow> p | None \<Rightarrow> slot_at i (discard out)))"
proof -
  obtain st where st: "page_store_open dir = Inr st" "store_ok st"
    and rd: "\<And>pa. read_page zd st pa s = Inr (abs_read h pa s)"
    by (rule dir_inv_read [OF dir]) (use s in blast)
  obtain rs where hm: "hist_match zd (dd_blobs dir) rs h" "history_ok h" using dir(1) by (auto simp: dir_inv_def)
  let ?g = "\<lambda>i slot. case abs_read h (off + of_nat i) s of Some p \<Rightarrow> p | None \<Rightarrow> slot"
  have len: "length (discard out) = unat n * PAGE_SIZE" using out by simp
  have "spec_slot zd st off s (0 + i) slot = Inr (?g i slot, abs_read h (off + of_nat i) s \<noteq> None) \<and>
      length (?g i slot) = PAGE_SIZE" if "length slot = PAGE_SIZE" for i slot
    using that abs_read_length [OF hm(2,1)]
    by (auto simp: spec_slot_def rd split: option.splits)
  from fill_slice_pointwise [where g = ?g, OF len this]
  obtain out' where out': "fill_slice (spec_slot zd st off s) 0 (discard out) =
      Inr (out', \<forall>i < unat n. abs_read h (off + of_nat i) s \<noteq> None)" "length out' = length (discard out)"
    "\<forall>i < unat n. slot_at i out' = ?g i (slot_at i (discard out))" by blast
  have "(if out = [] then out else discard out) = discard out" using out(2) by (cases out) simp_all
  with load_all_pages_eq [where discard = discard and zd = zd and workers = workers, OF st s out range]
    run_workers_eq [OF len _ out'(1), of "max workers 1"] out' out(2) show ?thesis by simp
qed

section \<open>Regions are their slots\<close>

lemma slots_eq:
  assumes "length a = n * PAGE_SIZE" "length b = n * PAGE_SIZE" "\<And>i. i < n \<Longrightarrow> slot_at i a = slot_at i b"
  shows "a = b"
proof (rule nth_equalityI)
  fix j assume j: "j < length a"
  let ?i = "j div PAGE_SIZE"
  have P: "0 < PAGE_SIZE" by (simp add: PAGE_SIZE_def)
  have i: "?i < n" using j assms(1) by (simp add: less_mult_imp_div_less)
  have m: "j mod PAGE_SIZE < PAGE_SIZE" using P by simp
  have nth: "slot_at ?i xs ! (j mod PAGE_SIZE) = xs ! j" if "length xs = n * PAGE_SIZE" for xs
  proof -
    have "?i * PAGE_SIZE + PAGE_SIZE \<le> length xs"
      using i that by (metis Suc_leI add.commute mult_Suc mult_le_mono1)
    with m show ?thesis by (simp add: slot_at_def rslice_def)
  qed
  from nth [OF assms(1)] nth [OF assms(2)] assms(3) [OF i] show "a ! j = b ! j" by simp
qed (use assms in simp)

end
