(* ===== verification/Convert.thy ===== *)
theory Convert
  imports Load
begin

text \<open>
  Conversion between the two index formats (\<open>bxdb-core/src/convert.rs\<close>). Each writes a
  temporary file and renames it over the target, so the target changes in one step; the
  blob files are shared by both formats and are not touched.
\<close>

section \<open>The two conversions\<close>

text \<open>\<open>iter().map(|r| snapshot_of(r.key)).max().unwrap_or(0)\<close>.\<close>

definition max_snapshot :: "chunk_record list \<Rightarrow> u32" where
  "max_snapshot records = foldr (\<lambda>r m. max (snapshot_of (r_key r)) m) records 0"

text \<open>
  The hash map from snapshot to its records in their order, its keys sorted
  (\<open>sort_unstable\<close> on distinct numbers), and the records of one snapshot after the other.
\<close>

definition snap_keys :: "chunk_record list \<Rightarrow> u32 list" where
  "snap_keys records = sort (remdups (map (\<lambda>r. snapshot_of (r_key r)) records))"

definition snap_group :: "chunk_record list \<Rightarrow> u32 \<Rightarrow> chunk_record list" where
  "snap_group records snap = filter (\<lambda>r. snapshot_of (r_key r) = snap) records"

definition to_btree :: "db_dir \<Rightarrow> db_dir res" where
  "to_btree dir =
     (case dd_log dir of
        None \<Rightarrow> Inl (IoErr NotFound)
      | Some log \<Rightarrow>
          rbind (read_log_records log) (\<lambda>records.
            let records = dedup_by_key r_key (sort_key r_key records);
                max_snap = max_snapshot records
            in Inr (dir\<lparr>dd_index := Some (index_file max_snap records)\<rparr>)))"

definition to_log :: "db_dir \<Rightarrow> db_dir res" where
  "to_log dir =
     (case dd_index dir of
        None \<Rightarrow> Inl (IoErr NotFound)
      | Some idx \<Rightarrow>
          rbind (read_and_verify_header idx MAGIC_IDX) (\<lambda>(_, rest).
          rbind (read_fixed_records rest) (\<lambda>records.
            let max_snap = max_snapshot records;
                out = concat (map (\<lambda>snap. sort_key r_key (snap_group records snap)) (snap_keys records))
            in Inr (dir\<lparr>dd_log := Some (log_file max_snap out)\<rparr>))))"

section \<open>Grouping keeps the records\<close>

lemma set_snap_groups:
  "set (concat (map (\<lambda>snap. sort_key r_key (snap_group rs snap)) (snap_keys rs))) = set rs"
  "set (concat (map (snap_group rs) (snap_keys rs))) = set rs"
  by (auto simp: snap_group_def snap_keys_def)

lemma distinct_concat_groups:
  assumes "distinct ss" "\<And>s. s \<in> set ss \<Longrightarrow> distinct (map f (g s))"
    and "\<And>s t. s \<in> set ss \<Longrightarrow> t \<in> set ss \<Longrightarrow> s \<noteq> t \<Longrightarrow> f ` set (g s) \<inter> f ` set (g t) = {}"
  shows "distinct (map f (concat (map g ss)))"
  using assms
proof (induction ss)
  case (Cons s ss)
  have "distinct (map f (concat (map g ss)))"
    by (rule Cons.IH) (use Cons.prems in auto)
  moreover have "f ` set (g s) \<inter> f ` set (concat (map g ss)) = {}"
  proof -
    have "f ` set (g s) \<inter> f ` set (g t) = {}" if "t \<in> set ss" for t
      using Cons.prems(1) Cons.prems(3) [of s t] that by auto
    then show ?thesis by fastforce
  qed
  moreover have "distinct (map f (g s))" by (rule Cons.prems(2)) simp
  ultimately show ?case by simp
qed simp

lemma distinct_snap_keys [simp]: "distinct (snap_keys rs)"
  by (simp add: snap_keys_def)

lemma snap_group_keys_disjoint:
  "s \<noteq> t \<Longrightarrow> r_key ` set (snap_group rs s) \<inter> r_key ` set (snap_group rs t) = {}"
  by (auto simp: snap_group_def)

lemma distinct_map_sort_key: "distinct (map f (sort_key g xs)) \<longleftrightarrow> distinct (map f xs)"
  using distinct_map [of f xs] distinct_map [of f "sort_key g xs"] by simp

lemma distinct_snap_groups:
  assumes "distinct (map r_key rs)"
  shows "distinct (map r_key (concat (map (\<lambda>snap. sort_key r_key (snap_group rs snap)) (snap_keys rs))))"
    and "distinct (map r_key (concat (map (snap_group rs) (snap_keys rs))))"
proof -
  have "distinct (map r_key (snap_group rs s))" for s
    using assms by (simp add: snap_group_def distinct_map_filter)
  then show "distinct (map r_key (concat (map (\<lambda>snap. sort_key r_key (snap_group rs snap)) (snap_keys rs))))"
    and "distinct (map r_key (concat (map (snap_group rs) (snap_keys rs))))"
    by (intro distinct_concat_groups; simp add: distinct_map_sort_key snap_group_keys_disjoint)+
qed

text \<open>A strictly sorted list of records is determined by its set.\<close>

lemma canon_of_set:
  assumes "sorted_wrt (<) (map r_key rs)" "distinct (map r_key ys)" "set ys = set rs"
  shows "canon r_key ys = rs"
proof -
  have set: "set (canon r_key ys) = set rs" using assms(2,3) by (simp add: set_canon_distinct)
  have "map r_key (canon r_key ys) = map r_key rs"
    by (rule sorted_distinct_set_unique)
      (use sorted_canon [of r_key ys] assms(1,3) in \<open>simp_all add: strict_sorted_iff\<close>)
  moreover have "inj_on r_key (set rs)"
    using assms(1) by (simp add: strict_sorted_iff distinct_map)
  ultimately show ?thesis using set by (metis Un_absorb map_inj_on)
qed

section \<open>Stores with the same records answer alike\<close>

lemma same_answers:
  assumes "store_ok st" "store_ok st'" "store_records st' = store_records st" "ps_blobs st' = ps_blobs st"
  shows "store_floor st' pa s = store_floor st pa s" "exact_lookup st' k = exact_lookup st k"
    "page_of zd st' rec = page_of zd st rec" "read_page zd st' pa s = read_page zd st pa s"
proof -
  show floor: "store_floor st' pa s = store_floor st pa s" for pa s
    using store_query [OF assms(1), of pa s] store_query [OF assms(2), of pa s] assms(3) by simp
  show exact: "exact_lookup st' k = exact_lookup st k" for k
    using store_query [OF assms(1)] store_query [OF assms(2)] assms(3) by simp
  have full: "decompress_blob_into zd st' r out = decompress_blob_into zd st r out" for r out
    using assms(4) by (simp add: decompress_blob_into_def)
  show page: "page_of zd st' rec = page_of zd st rec" for rec
  proof -
    have "lookup_base st' k = lookup_base st k" for k by (simp add: lookup_base_def exact)
    moreover have "delta_blob_of st' rec = delta_blob_of st rec" using assms(4) by (simp add: delta_blob_of_def)
    ultimately show ?thesis by (cases "r_kind rec") (simp_all add: page_of_def resolve_uncached_def full)
  qed
  show "read_page zd st' pa s = read_page zd st pa s"
    by (simp add: read_page_def floor page)
qed

text \<open>Opening after a conversion.\<close>

lemma to_btree_opens:
  assumes "dd_log dir = Some log" "read_log_records log = Inr rs"
  obtains dir' st where "to_btree dir = Inr dir'" "dd_log dir' = dd_log dir" "dd_blobs dir' = dd_blobs dir"
    "page_store_open dir' = Inr st" "store_ok st" "store_records st = canon r_key rs" "ps_blobs st = dd_blobs dir"
    "ps_mode st = BTree" "dd_index dir' = Some (index_file (max_snapshot (canon r_key rs)) (canon r_key rs))"
proof -
  let ?rs = "canon r_key rs"
  let ?dir = "dir\<lparr>dd_index := Some (index_file (max_snapshot ?rs) ?rs)\<rparr>"
  have conv: "to_btree dir = Inr ?dir" using assms by (simp add: to_btree_def canon_def Let_def)
  have "dd_index ?dir = Some (index_file (max_snapshot ?rs) ?rs)" by simp
  then obtain st where "page_store_open ?dir = Inr st" "store_ok st" "store_records st = ?rs"
    "ps_blobs st = dd_blobs ?dir" "ps_mode st = BTree"
    by (rule open_index_store [OF _ sorted_canon])
  with conv show thesis by (intro that [of ?dir st]) simp_all
qed

lemma open_log_any:
  assumes "dd_index dir = None" "dd_log dir = Some log" "read_log_records log = Inr rs"
  obtains st where "page_store_open dir = Inr st" "store_ok st" "store_records st = canon r_key rs"
    "ps_blobs st = dd_blobs dir"
proof -
  have "verify_log_header log = Inr ()"
    using assms(3) by (auto simp: read_log_records_def verify_log_header_def rbind_eq_Inr_iff)
  with assms show thesis
    by (intro that [of "\<lparr>ps_source = AppendOnlySource log None, ps_blobs = dd_blobs dir, ps_mode = AppendOnly\<rparr>"])
      (simp_all add: page_store_open_def store_ok_def store_records_def log_records_def)
qed

lemma to_log_records:
  assumes "dd_index dir = Some (index_file m rs)" "sorted_wrt (<) (map r_key rs)" "\<forall>r \<in> set rs. log_record_ok r"
  shows "\<exists>hdr ys. to_log dir = Inr (dir\<lparr>dd_log := Some (log_file hdr ys)\<rparr>) \<and>
    read_log_records (log_file hdr ys) = Inr ys \<and> canon r_key ys = rs"
proof -
  let ?out = "concat (map (\<lambda>snap. sort_key r_key (snap_group rs snap)) (snap_keys rs))"
  have "to_log dir = Inr (dir\<lparr>dd_log := Some (log_file (max_snapshot rs) ?out)\<rparr>)"
    using assms(1) by (simp add: to_log_def index_file_def read_fixed_records_encode_index Let_def)
  moreover have "\<forall>r \<in> set ?out. log_record_ok r" unfolding set_snap_groups by (rule assms(3))
  then have "read_log_records (log_file (max_snapshot rs) ?out) = Inr ?out" by simp
  moreover have "distinct (map r_key rs)" using assms(2) by (simp add: strict_sorted_iff)
  then have "canon r_key ?out = rs"
    by (intro canon_of_set [OF assms(2)] distinct_snap_groups set_snap_groups)
  ultimately show ?thesis by blast
qed

lemma to_log_opens:
  assumes "dd_index dir = Some (index_file m rs)" "sorted_wrt (<) (map r_key rs)" "\<forall>r \<in> set rs. log_record_ok r"
  obtains dir' st where "to_log dir = Inr dir'" "dd_index dir' = dd_index dir" "dd_blobs dir' = dd_blobs dir"
    "page_store_open (dir'\<lparr>dd_index := None\<rparr>) = Inr st" "store_ok st" "store_records st = rs" "ps_blobs st = dd_blobs dir"
proof -
  obtain hdr ys where conv: "to_log dir = Inr (dir\<lparr>dd_log := Some (log_file hdr ys)\<rparr>)"
    and rd: "read_log_records (log_file hdr ys) = Inr ys" "canon r_key ys = rs"
    using to_log_records [OF assms] by blast
  let ?dir = "dir\<lparr>dd_log := Some (log_file hdr ys)\<rparr>"
  have "dd_index (?dir\<lparr>dd_index := None\<rparr>) = None"
    "dd_log (?dir\<lparr>dd_index := None\<rparr>) = Some (log_file hdr ys)" by simp_all
  then obtain st where "page_store_open (?dir\<lparr>dd_index := None\<rparr>) = Inr st" "store_ok st"
    "store_records st = canon r_key ys" "ps_blobs st = dd_blobs (?dir\<lparr>dd_index := None\<rparr>)"
    by (rule open_log_any [OF _ _ rd(1)])
  then show thesis using conv rd(2) by (intro that [of ?dir st]) simp_all
qed

end
