(* ===== verification/Purge.thy ===== *)
theory Purge
  imports Convert "HOL-Library.Multiset"
begin

text \<open>
  Removing every snapshot above a threshold (\<open>bxdb-core/src/purge.rs\<close>): the records are
  filtered, the blob files cut after the last byte still referenced, unused blob files
  removed, and the index files present rewritten. An I/O error ends the purge with that
  error; the states in between are in \<open>Interrupt\<close>.
\<close>

section \<open>Reading the records\<close>

text \<open>\<open>read_index\<close> reads exactly \<open>count\<close> fixed records.\<close>

definition read_index :: "bytes \<Rightarrow> chunk_record list res" where
  "read_index idx =
     rbind (read_and_verify_header idx MAGIC_IDX) (\<lambda>(_, rest).
       let body_len = length idx - HEADER_SIZE
       in if body_len mod FIXED_RECORD_SIZE \<noteq> 0 then Inl (IoErr InvalidData)
          else read_fixed_records rest)"

definition read_log :: "bytes \<Rightarrow> chunk_record list res" where
  "read_log log = rbind (read_log_records log) (\<lambda>records. Inr (dedup_by_key r_key (sort_key r_key records)))"

section \<open>Blob files\<close>

text \<open>The hash map from worker to the highest end of a referenced chunk.\<close>

definition note_end :: "(byte \<Rightarrow> u64 option) \<Rightarrow> chunk_record \<Rightarrow> (byte \<Rightarrow> u64 option)" where
  "note_end m rec =
     (if r_kind rec = Zero then m
      else
        let stop = r_offset rec + ucast (r_len rec)
        in m(r_worker_id rec \<mapsto> (case m (r_worker_id rec) of None \<Rightarrow> stop | Some e \<Rightarrow> max e stop)))"

definition worker_max_end :: "chunk_record list \<Rightarrow> byte \<Rightarrow> u64 option" where
  "worker_max_end records = foldl note_end (\<lambda>_. None) records"

text \<open>\<open>set_len\<close> cuts a file, or extends it with zeros.\<close>

definition set_len :: "nat \<Rightarrow> bytes \<Rightarrow> bytes" where
  "set_len n f = take n f @ replicate (n - length f) 0"

definition worker_ids :: "byte list" where
  "worker_ids = map of_nat [0..<256]"

definition truncate_blobs :: "blobs \<Rightarrow> chunk_record list \<Rightarrow> blobs res" where
  "truncate_blobs bl records =
     (let ends = worker_max_end records
      in if \<exists>w \<in> set worker_ids. ends w \<noteq> None \<and> bl w = None then Inl (IoErr NotFound)
         else Inr (\<lambda>w. case ends w of None \<Rightarrow> bl w | Some n \<Rightarrow> map_option (set_len (unat n)) (bl w)))"

definition cleanup_unused_blob_files :: "blobs \<Rightarrow> chunk_record list \<Rightarrow> blobs" where
  "cleanup_unused_blob_files bl records =
     (let used = map r_worker_id records
      in (\<lambda>w. if w \<in> set used then bl w else None))"

section \<open>Purging\<close>

definition write_log_file :: "chunk_record list \<Rightarrow> u32 \<Rightarrow> bytes" where
  "write_log_file records max_snap =
     log_file max_snap (concat (map (snap_group records) (snap_keys records)))"

definition write_index_file :: "chunk_record list \<Rightarrow> u32 \<Rightarrow> bytes" where
  "write_index_file records max_snap = index_file max_snap records"

definition purge :: "db_dir \<Rightarrow> u32 \<Rightarrow> (nat \<times> db_dir) res" where
  "purge dir snapshot_threshold =
     (case (dd_index dir, dd_log dir) of
        (None, None) \<Rightarrow> Inl (IoErr NotFound)
      | (idx, log) \<Rightarrow>
          rbind (case idx of Some i \<Rightarrow> read_index i | None \<Rightarrow> read_log (the log)) (\<lambda>records.
            let before = length records;
                records = filter (\<lambda>r. snapshot_of (r_key r) \<le> snapshot_threshold) records;
                removed = before - length records
            in if removed = 0 then Inr (0, dir)
               else
                 let max_snap = max_snapshot records
                 in rbind (truncate_blobs (dd_blobs dir) records) (\<lambda>bl.
                      Inr (removed,
                        \<lparr>dd_index = map_option (\<lambda>_. write_index_file records max_snap) idx,
                         dd_log = map_option (\<lambda>_. write_log_file records max_snap) log,
                         dd_blobs = cleanup_unused_blob_files bl records\<rparr>))))"

section \<open>What is kept stays readable\<close>

lemma max_snapshot_ge: "r \<in> set rs \<Longrightarrow> snapshot_of (r_key r) \<le> max_snapshot rs"
  by (induction rs) (auto simp: max_snapshot_def max_def)

lemma note_end_mono:
  assumes "m w = Some a"
  shows "\<exists>b. foldl note_end m rs w = Some b \<and> a \<le> b"
  using assms
proof (induction rs arbitrary: m a)
  case (Cons r rs)
  have "\<exists>b. note_end m r w = Some b \<and> a \<le> b"
    using Cons.prems by (auto simp: note_end_def Let_def)
  then obtain b where "note_end m r w = Some b" "a \<le> b" by blast
  with Cons.IH [of "note_end m r" b] show ?case by (auto intro: order_trans)
qed simp

lemma worker_max_end_ge:
  assumes "r \<in> set rs" "r_kind r \<noteq> Zero"
  shows "\<exists>n. worker_max_end rs (r_worker_id r) = Some n \<and> r_offset r + ucast (r_len r) \<le> n"
proof -
  obtain xs ys where rs: "rs = xs @ r # ys" using assms(1) by (metis split_list)
  let ?m = "note_end (foldl note_end (\<lambda>_. None) xs) r"
  have "\<exists>a. ?m (r_worker_id r) = Some a \<and> r_offset r + ucast (r_len r) \<le> a"
    using assms(2) by (auto simp: note_end_def Let_def split: option.splits)
  then obtain a where a: "?m (r_worker_id r) = Some a" "r_offset r + ucast (r_len r) \<le> a" by blast
  from note_end_mono [where m = ?m and rs = ys, OF a(1)] a(2) show ?thesis
    by (auto simp: worker_max_end_def rs intro: order_trans)
qed

lemma worker_max_end_from:
  "worker_max_end rs w = Some n \<Longrightarrow> \<exists>r \<in> set rs. r_kind r \<noteq> Zero \<and> r_worker_id r = w"
proof -
  have "foldl note_end m rs w = Some n \<Longrightarrow> m w = None \<Longrightarrow> \<exists>r \<in> set rs. r_kind r \<noteq> Zero \<and> r_worker_id r = w" for m
  proof (induction rs arbitrary: m)
    case (Cons r rs)
    show ?case
    proof (cases "r_kind r \<noteq> Zero \<and> r_worker_id r = w")
      case False
      then have "note_end m r w = None" using Cons.prems(2) by (auto simp: note_end_def Let_def)
      with Cons.IH [of "note_end m r"] Cons.prems(1) show ?thesis by auto
    qed auto
  qed simp
  then show "worker_max_end rs w = Some n \<Longrightarrow> \<exists>r \<in> set rs. r_kind r \<noteq> Zero \<and> r_worker_id r = w"
    by (simp add: worker_max_end_def)
qed

text \<open>The blob files after a purge keep the bytes of every kept chunk.\<close>

definition purged_blobs :: "blobs \<Rightarrow> chunk_record list \<Rightarrow> blobs" where
  "purged_blobs bl rs =
     cleanup_unused_blob_files
       (\<lambda>w. case worker_max_end rs w of None \<Rightarrow> bl w | Some n \<Rightarrow> map_option (set_len (unat n)) (bl w)) rs"

lemma purged_range:
  assumes "r \<in> set rs" "r_kind r \<noteq> Zero" "blob_range bl r = Some z"
  shows "blob_range (purged_blobs bl rs) r = Some z"
proof -
  let ?a = "unat (r_offset r)" and ?b = "unat (r_offset r) + unat (r_len r)"
  obtain f where f: "bl (r_worker_id r) = Some f" "?b < 2 ^ 64" "get_range f ?a ?b = Some z"
    using assms(3) by (auto simp: blob_range_def split: option.splits if_splits)
  obtain n where n: "worker_max_end rs (r_worker_id r) = Some n" "r_offset r + ucast (r_len r) \<le> n"
    using worker_max_end_ge [OF assms(1,2)] by blast
  have "unat (r_offset r + ucast (r_len r)) = ?b" using f(2) by (simp add: unat_word_ariths)
  with n(2) have "?b \<le> unat n" by (simp add: word_le_nat_alt)
  from get_range_append [OF get_range_take [OF f(3) this]] have "get_range (set_len (unat n) f) ?a ?b = Some z"
    by (simp add: set_len_def)
  with f n assms(1) show ?thesis
    by (simp add: blob_range_def purged_blobs_def cleanup_unused_blob_files_def)
qed

lemma purged_full: "r \<in> set rs \<Longrightarrow> full_at zd bl r p \<Longrightarrow> full_at zd (purged_blobs bl rs) r p"
  using purged_range by (auto simp: full_at_def)

lemma purged_rec:
  assumes r: "r \<in> set rs" and ok: "rec_ok zd bl R s pa p r"
    and bases: "\<And>b. b \<in> R \<Longrightarrow> r_kind r = Delta \<Longrightarrow> r_key b = r_base_key r \<Longrightarrow> b \<in> set rs"
  shows "rec_ok zd (purged_blobs bl rs) (set rs) s pa p r"
proof (cases "r_kind r")
  case Delta
  with ok obtain b q d where b: "b \<in> R" "r_key b = r_base_key r" "full_at zd bl b q"
    "blob_range bl r = Some d" "apply_delta_patch_in_place d q = Inr p"
    by (auto simp: rec_ok_def chunk_at_def)
  then have "b \<in> set rs" using bases Delta by blast
  then have "full_at zd (purged_blobs bl rs) b q" using b(3) by (rule purged_full)
  moreover have "blob_range (purged_blobs bl rs) r = Some d"
    by (rule purged_range [OF r _ b(4)]) (simp add: Delta)
  ultimately show ?thesis
    using b(2,5) \<open>b \<in> set rs\<close> Delta ok by (auto simp: rec_ok_def chunk_at_def)
qed (use r ok purged_full in \<open>auto simp: rec_ok_def chunk_at_def\<close>)

text \<open>
  The history keeps the saves up to the threshold. A delta's base is never newer than the
  delta, so the base of a kept delta is kept too.
\<close>

lemma purge_hist_match:
  assumes hm: "hist_match zd bl rs h" and h: "history_ok h"
    and ks: "set ks = {r \<in> set rs. snapshot_of (r_key r) \<le> t}" "distinct (map r_key ks)"
  shows "hist_match zd (purged_blobs bl ks) ks (filter (\<lambda>(s, m). s \<le> t) h)"
proof -
  have snap: "snapshot_of (r_key r) = s" if "(s, m) \<in> set h" "rec_ok zd bl R s pa p r" for s m R pa p r
    using that history_snapshots [OF h] by (auto simp: rec_ok_def)
  have keep: "rec_ok zd (purged_blobs bl ks) (set ks) s pa p r" if "r \<in> set ks" "rec_ok zd bl (set rs) s pa p r" for s pa p r
  proof (rule purged_rec [OF that])
    show "b \<in> set ks" if b: "b \<in> set rs" "r_kind r = Delta" "r_key b = r_base_key r" for b
    proof -
      have "based r" "snapshot_of (r_key r) \<le> t"
        using \<open>rec_ok zd bl (set rs) s pa p r\<close> \<open>r \<in> set ks\<close> ks(1) by (auto simp: rec_ok_def)
      then have "snapshot_of (r_key b) \<le> t" using b by (auto simp: based_def)
      with b(1) ks(1) show ?thesis by simp
    qed
  qed
  have "\<exists>(s, m) \<in> set (filter (\<lambda>(s, m). s \<le> t) h). \<exists>pa p. m pa = Some p \<and>
      rec_ok zd (purged_blobs bl ks) (set ks) s pa p r" if r: "r \<in> set ks" for r
  proof -
    have "r \<in> set rs" "snapshot_of (r_key r) \<le> t" using r ks(1) by auto
    obtain s m pa p where sm: "(s, m) \<in> set h" "m pa = Some p" "rec_ok zd bl (set rs) s pa p r"
      by (rule hist_match_recE [OF hm \<open>r \<in> set rs\<close>])
    have "s \<le> t" using snap [OF sm(1,3)] \<open>snapshot_of (r_key r) \<le> t\<close> by simp
    with sm(1,2) keep [OF r sm(3)] show ?thesis by (intro bexI [of _ "(s, m)"]) auto
  qed
  moreover have "\<exists>r \<in> set ks. rec_ok zd (purged_blobs bl ks) (set ks) s pa p r"
    if sm: "(s, m) \<in> set (filter (\<lambda>(s, m). s \<le> t) h)" "m pa = Some p" for s m pa p
  proof -
    have h': "(s, m) \<in> set h" "s \<le> t" using sm(1) by auto
    obtain r where r: "r \<in> set rs" "rec_ok zd bl (set rs) s pa p r"
      by (rule hist_match_pageE [OF hm h'(1) sm(2)])
    then have "r \<in> set ks" using ks(1) snap [OF h'(1) r(2)] h'(2) by simp
    with keep [OF this r(2)] show ?thesis by blast
  qed
  ultimately show ?thesis
    using ks(2) unfolding hist_match_def by (intro conjI ballI) (auto simp only: split_beta fst_conv snd_conv)
qed

lemma hist_match_set:
  assumes "hist_match zd bl rs h" "set ks = set rs" "distinct (map r_key ks)"
  shows "hist_match zd bl ks h"
  using assms unfolding hist_match_def by simp

lemma hist_match_filter:
  assumes hm: "hist_match zd bl rs h" and h: "history_ok h" and all: "\<forall>r \<in> set rs. snapshot_of (r_key r) \<le> t"
  shows "filter (\<lambda>(s, m). s \<le> t) h = h"
proof -
  have "s \<le> t" if sm: "(s, m) \<in> set h" for s m
  proof -
    have "\<exists>pa p. m pa = Some p" using h sm by (induction h) auto
    then obtain pa p where "m pa = Some p" by blast
    then obtain r where r: "r \<in> set rs" "rec_ok zd bl (set rs) s pa p r"
      by (rule hist_match_pageE [OF hm sm])
    then have "snapshot_of (r_key r) = s" using history_snapshots [OF h sm] by (simp add: rec_ok_def)
    with all r(1) show ?thesis by auto
  qed
  then show ?thesis by (auto intro!: filter_True)
qed

lemma history_ok_filter: "history_ok h \<Longrightarrow> history_ok (filter (\<lambda>(s, m). s \<le> t) h)"
  by (induction h) auto

lemma truncate_purged:
  assumes "\<And>r. r \<in> set rs \<Longrightarrow> r_kind r \<noteq> Zero \<Longrightarrow> bl (r_worker_id r) \<noteq> None"
  shows "\<exists>bl'. truncate_blobs bl rs = Inr bl' \<and> cleanup_unused_blob_files bl' rs = purged_blobs bl rs"
proof -
  have "\<not> (\<exists>w \<in> set worker_ids. worker_max_end rs w \<noteq> None \<and> bl w = None)"
    using worker_max_end_from [of rs] assms by fastforce
  then show ?thesis by (simp add: truncate_blobs_def purged_blobs_def Let_def)
qed

lemma hist_match_blob:
  assumes "hist_match zd bl rs h" "r \<in> set rs" "r_kind r \<noteq> Zero"
  shows "bl (r_worker_id r) \<noteq> None"
proof -
  obtain s m pa p where "rec_ok zd bl (set rs) s pa p r" by (rule hist_match_recE [OF assms(1,2)])
  then show ?thesis using assms(3)
    by (auto simp: rec_ok_def chunk_at_def full_at_def blob_range_def split: chunk_kind.splits option.splits)
qed

text \<open>Purging a log database: it then holds the history up to the threshold.\<close>

lemma purge_log_inv:
  assumes dir: "dir_inv zd h dir" "dd_index dir = None"
  shows "\<exists>n dir'. purge dir t = Inr (n, dir') \<and> dir_inv zd (filter (\<lambda>(s, m). s \<le> t) h) dir' \<and>
    dd_index dir' = None \<and> n = length (filter (\<lambda>r. t < snapshot_of (r_key r)) (log_records (the (dd_log dir))))"
proof -
  obtain hdr rs where log: "dd_log dir = Some (log_file hdr rs)" and hdr: "\<forall>(s, m) \<in> set h. s \<le> hdr"
    and hm: "hist_match zd (dd_blobs dir) rs h" and hok: "history_ok h" using dir(1) by (auto simp: dir_inv_def)
  have "\<forall>r \<in> set rs. log_record_ok r" using hist_match_log_ok [OF hm] by blast
  then have rd: "read_log_records (log_file hdr rs) = Inr rs" by simp
  have dist: "distinct (map r_key rs)" using hm by (simp add: hist_match_def)
  let ?cs = "canon r_key rs"
  let ?ks = "filter (\<lambda>r. snapshot_of (r_key r) \<le> t) ?cs"
  let ?out = "concat (map (snap_group ?ks) (snap_keys ?ks))"
  have cs: "set ?cs = set rs" by (rule set_canon_distinct [OF dist])
  have dcs: "distinct (map r_key ?cs)" using sorted_canon [of r_key rs] by (simp add: strict_sorted_iff)
  have ks: "set ?ks = {r \<in> set rs. snapshot_of (r_key r) \<le> t}" "distinct (map r_key ?ks)"
    using cs dcs by (auto simp: distinct_map_filter)
  have "mset ?cs = mset rs"
    using cs dist dcs set_eq_iff_mset_eq_distinct [of ?cs rs] by (simp add: distinct_map)
  then have "mset (filter (\<lambda>r. t < snapshot_of (r_key r)) ?cs) = mset (filter (\<lambda>r. t < snapshot_of (r_key r)) rs)"
    by (metis mset_filter)
  then have "length (filter (\<lambda>r. t < snapshot_of (r_key r)) ?cs) = length (filter (\<lambda>r. t < snapshot_of (r_key r)) rs)"
    by (rule mset_eq_length)
  moreover have "length ?cs - length ?ks = length (filter (\<lambda>r. t < snapshot_of (r_key r)) ?cs)"
    using sum_length_filter_compl [of "\<lambda>r. snapshot_of (r_key r) \<le> t" ?cs] by (simp add: not_le)
  ultimately have n: "length ?cs - length ?ks = length (filter (\<lambda>r. t < snapshot_of (r_key r)) rs)" by simp
  have read: "read_log (log_file hdr rs) = Inr ?cs" by (simp add: read_log_def rd canon_def)
  have lr: "log_records (the (dd_log dir)) = rs" by (simp add: log log_records_def rd)
  show ?thesis
  proof (cases "length ?cs - length ?ks = 0")
    case True
    then have "\<forall>r \<in> set rs. snapshot_of (r_key r) \<le> t" using n by (auto simp: filter_empty_conv not_less)
    then have "filter (\<lambda>(s, m). s \<le> t) h = h" by (rule hist_match_filter [OF hm hok])
    moreover have "purge dir t = Inr (0, dir)"
      using True dir(2) log read by (simp add: purge_def Let_def)
    ultimately show ?thesis using dir n True by (simp add: lr)
  next
    case False
    have "\<And>r. r \<in> set ?ks \<Longrightarrow> r_kind r \<noteq> Zero \<Longrightarrow> dd_blobs dir (r_worker_id r) \<noteq> None"
      using hist_match_blob [OF hm] ks(1) by blast
    then obtain bl' where bl': "truncate_blobs (dd_blobs dir) ?ks = Inr bl'"
      "cleanup_unused_blob_files bl' ?ks = purged_blobs (dd_blobs dir) ?ks"
      using truncate_purged by blast
    let ?dir = "\<lparr>dd_index = None, dd_log = Some (log_file (max_snapshot ?ks) ?out), dd_blobs = purged_blobs (dd_blobs dir) ?ks\<rparr>"
    have "purge dir t = Inr (length ?cs - length ?ks, ?dir)"
      using False dir(2) log read bl' by (simp add: purge_def Let_def write_log_file_def)
    moreover have hm': "hist_match zd (purged_blobs (dd_blobs dir) ?ks) ?out (filter (\<lambda>(s, m). s \<le> t) h)"
      by (rule hist_match_set [OF purge_hist_match [OF hm hok ks]])
        (rule set_snap_groups distinct_snap_groups ks(2))+
    moreover have "s \<le> max_snapshot ?ks" if sm: "(s, m) \<in> set (filter (\<lambda>(s, m). s \<le> t) h)" for s m
    proof -
      have hf: "history_ok (filter (\<lambda>(s, m). s \<le> t) h)" by (rule history_ok_filter [OF hok])
      then have "\<exists>pa p. m pa = Some p" using sm by (induction h) (auto split: if_splits)
      then obtain pa p where "m pa = Some p" by blast
      then obtain r where r: "r \<in> set ?out" "rec_ok zd (purged_blobs (dd_blobs dir) ?ks) (set ?out) s pa p r"
        by (rule hist_match_pageE [OF hm' sm])
      have "snapshot_of (r_key r) = s" using r(2) history_snapshots [OF hf sm] by (simp add: rec_ok_def)
      moreover have "r \<in> set ?ks" using r(1) unfolding set_snap_groups .
      ultimately show ?thesis using max_snapshot_ge by metis
    qed
    ultimately show ?thesis
      using n history_ok_filter [OF hok, of t] by (intro exI [of _ "length ?cs - length ?ks"] exI [of _ ?dir]) (auto simp: lr dir_inv_def)
  qed
qed

text \<open>What a purge keeps of an index, and the log it writes beside it.\<close>

lemma kept_log:
  assumes "\<forall>r \<in> set ks. log_record_ok r"
  shows "\<exists>hdr out. write_log_file ks m = log_file hdr out \<and> set out = set ks \<and> read_log_records (log_file hdr out) = Inr out"
proof -
  let ?out = "concat (map (snap_group ks) (snap_keys ks))"
  have "set ?out = set ks" by (rule set_snap_groups)
  moreover have "\<forall>r \<in> set ?out. log_record_ok r" unfolding set_snap_groups by (rule assms)
  then have "read_log_records (log_file m ?out) = Inr ?out" by simp
  ultimately show ?thesis unfolding write_log_file_def by blast
qed

lemma read_index_file: "read_index (index_file m rs) = Inr rs"
  by (simp add: read_index_def index_file_def read_fixed_records_encode_index HEADER_SIZE_def Let_def)

lemma purge_index_eq:
  fixes t :: u32
  assumes idx: "dd_index dir = Some (index_file m rs)"
    and blobs: "\<And>r. r \<in> set rs \<Longrightarrow> r_kind r \<noteq> Zero \<Longrightarrow> dd_blobs dir (r_worker_id r) \<noteq> None"
  defines "ks \<equiv> filter (\<lambda>r. snapshot_of (r_key r) \<le> t) rs"
  shows "purge dir t = Inr (length (filter (\<lambda>r. t < snapshot_of (r_key r)) rs), if ks = rs then dir else
      \<lparr>dd_index = Some (index_file (max_snapshot ks) ks),
       dd_log = map_option (\<lambda>_. write_log_file ks (max_snapshot ks)) (dd_log dir),
       dd_blobs = purged_blobs (dd_blobs dir) ks\<rparr>)"
proof -
  have "r \<in> set ks \<Longrightarrow> r_kind r \<noteq> Zero \<Longrightarrow> dd_blobs dir (r_worker_id r) \<noteq> None" for r
    using blobs by (simp add: ks_def)
  then obtain bl' where bl': "truncate_blobs (dd_blobs dir) ks = Inr bl'"
    "cleanup_unused_blob_files bl' ks = purged_blobs (dd_blobs dir) ks"
    using truncate_purged by blast
  have n: "length (filter (\<lambda>r. t < snapshot_of (r_key r)) rs) = length rs - length ks"
    using sum_length_filter_compl [of "\<lambda>r. snapshot_of (r_key r) \<le> t" rs] by (simp add: ks_def not_le)
  have eq: "ks = rs \<longleftrightarrow> length rs - length ks = 0"
    unfolding ks_def by (auto simp: filter_id_conv) (metis diff_is_0_eq length_filter_less not_le)
  show ?thesis
    unfolding n using idx bl' eq by (simp add: purge_def read_index_file write_index_file_def Let_def ks_def split: option.split)
qed

text \<open>Purging an index database.\<close>

lemma purge_index_inv:
  fixes t :: u32
  assumes idx: "dd_index dir = Some (index_file m rs)" "sorted_wrt (<) (map r_key rs)"
    and h: "history_ok h" "hist_match zd (dd_blobs dir) rs h"
  defines "ks \<equiv> filter (\<lambda>r. snapshot_of (r_key r) \<le> t) rs"
  shows "\<exists>dir'. purge dir t = Inr (length (filter (\<lambda>r. t < snapshot_of (r_key r)) rs), dir') \<and>
    dd_index dir' = Some (index_file (if ks = rs then m else max_snapshot ks) ks) \<and>
    sorted_wrt (<) (map r_key ks) \<and> history_ok (filter (\<lambda>(s, m). s \<le> t) h) \<and>
    hist_match zd (dd_blobs dir') ks (filter (\<lambda>(s, m). s \<le> t) h)"
proof -
  note p = purge_index_eq [OF idx(1) hist_match_blob [OF h(2)], of t, folded ks_def]
  have srt: "sorted_wrt (<) (map r_key ks)"
    using idx(2) unfolding sorted_wrt_map ks_def by (rule sorted_wrt_filter)
  show ?thesis
  proof (cases "ks = rs")
    case True
    then have "filter (\<lambda>(s, m). s \<le> t) h = h"
      by (intro hist_match_filter [OF h(2,1)]) (metis filter_id_conv ks_def)
    with True p idx h show ?thesis by (auto simp: ks_def)
  next
    case False
    have "distinct (map r_key ks)" using srt by (simp add: strict_sorted_iff)
    then have "hist_match zd (purged_blobs (dd_blobs dir) ks) ks (filter (\<lambda>(s, m). s \<le> t) h)"
      by (intro purge_hist_match [OF h(2,1)]) (auto simp: ks_def)
    with False p srt history_ok_filter [OF h(1)] show ?thesis by auto
  qed
qed

lemma abs_read_purged: "abs_read (filter (\<lambda>(s, m). s \<le> t) h) pa s = abs_read h pa (min s t)"
  by (induction h) (auto simp: min_def split: option.splits)

end
