(* ===== verification/Check.thy ===== *)
theory Check
  imports Purge
begin

text \<open>
  The integrity check of a log database (\<open>bxdb-core/src/check.rs\<close>): one pass over the log
  that checks every record against the blob files and collects the possible delta bases,
  then a pass over the deltas. An error is a constructor instead of its message.
\<close>

section \<open>Reports\<close>

datatype check_error =
    NoBlobFile chunk_record
  | FullOutOfRange chunk_record
  | FullWrongSize chunk_record nat
  | FullCorrupt chunk_record
  | DeltaOutOfRange chunk_record
  | DeltaBadLength chunk_record
  | DeltaBadIndex chunk_record nat
  | BaseKeyZero chunk_record
  | BaseMissing chunk_record
  | BaseNotFull chunk_record chunk_kind

record check_report =
  cr_total :: nat
  cr_full :: nat
  cr_delta :: nat
  cr_zero :: nat
  cr_errors :: "check_error list"
  cr_sizes :: "(byte \<times> u64) list"

definition report_ok :: "check_report \<Rightarrow> bool" where
  "report_ok rep \<longleftrightarrow> cr_errors rep = []"

definition push_errors :: "check_report \<Rightarrow> check_error list \<Rightarrow> check_report" where
  "push_errors rep es = rep\<lparr>cr_errors := cr_errors rep @ es\<rparr>"

definition saturating_add :: "u64 \<Rightarrow> u64 \<Rightarrow> u64" where
  "saturating_add a b = (if 2 ^ 64 \<le> unat a + unat b then - 1 else a + b)"

section \<open>One record\<close>

text \<open>The errors \<open>check_full\<close> and \<open>check_delta\<close> push.\<close>

definition check_full :: "decoder \<Rightarrow> blobs \<Rightarrow> chunk_record \<Rightarrow> u64 \<Rightarrow> check_error list res" where
  "check_full zd readers rec blob_len =
     (if r_len rec = 0 then Inr []
      else if blob_len < saturating_add (r_offset rec) (ucast (r_len rec)) then Inr [FullOutOfRange rec]
      else
        case readers (r_worker_id rec) of
          None \<Rightarrow> Inl Panic
        | Some f \<Rightarrow>
            rbind (ok_or (get_range f (unat (r_offset rec)) (unat (r_offset rec + ucast (r_len rec)))) (IoErr UnexpectedEof)) (\<lambda>blob.
              case zd blob of
                None \<Rightarrow> Inr [FullCorrupt rec]
              | Some d \<Rightarrow>
                  if PAGE_SIZE + 1 < length d then Inr [FullCorrupt rec]
                  else if length d = PAGE_SIZE then Inr [] else Inr [FullWrongSize rec (length d)]))"

text \<open>The first word index out of range among the 10-byte chunks.\<close>

function bad_index :: "bytes \<Rightarrow> nat option" where
  "bad_index blob =
     (if length blob < 10 then None
      else
        let idx = unat (from_le (rslice 0 2 (take 10 blob)) :: u16)
        in if PAGE_WORDS \<le> idx then Some idx else bad_index (drop 10 blob))"
  by pat_completeness auto
termination by (relation "measure length") auto

declare bad_index.simps [simp del]

definition check_delta :: "blobs \<Rightarrow> chunk_record \<Rightarrow> u64 \<Rightarrow> check_error list res" where
  "check_delta readers rec blob_len =
     (if r_len rec = 0 then Inr []
      else if blob_len < saturating_add (r_offset rec) (ucast (r_len rec)) then Inr [DeltaOutOfRange rec]
      else if unat (r_len rec) mod 10 \<noteq> 0 then Inr [DeltaBadLength rec]
      else
        case readers (r_worker_id rec) of
          None \<Rightarrow> Inl Panic
        | Some f \<Rightarrow>
            rbind (ok_or (get_range f (unat (r_offset rec)) (unat (r_offset rec + ucast (r_len rec)))) (IoErr UnexpectedEof)) (\<lambda>blob.
              case bad_index blob of None \<Rightarrow> Inr [] | Some idx \<Rightarrow> Inr [DeltaBadIndex rec idx]))"

text \<open>The state of the first loop: the report and the Full and Zero records by key.\<close>

type_synonym full_index = "u64 \<Rightarrow> chunk_record option"

definition check_record :: "decoder \<Rightarrow> blobs \<Rightarrow> check_report \<times> full_index \<Rightarrow> chunk_record \<Rightarrow> (check_report \<times> full_index) res" where
  "check_record zd readers = (\<lambda>(rep, full_index) rec.
     let missing = (if readers (r_worker_id rec) = None then [NoBlobFile rec] else []);
         blob_len = (case readers (r_worker_id rec) of None \<Rightarrow> 0 | Some f \<Rightarrow> of_nat (length f));
         rep = push_errors rep missing
     in rbind
          (case r_kind rec of
             Full \<Rightarrow> rbind (check_full zd readers rec blob_len) (\<lambda>es.
               Inr ((push_errors rep es)\<lparr>cr_full := cr_full rep + 1\<rparr>, full_index(r_key rec \<mapsto> rec)))
           | Delta \<Rightarrow> rbind (check_delta readers rec blob_len) (\<lambda>es.
               Inr ((push_errors rep es)\<lparr>cr_delta := cr_delta rep + 1\<rparr>, full_index))
           | Zero \<Rightarrow> Inr (rep\<lparr>cr_zero := cr_zero rep + 1\<rparr>, full_index(r_key rec \<mapsto> rec)))
          (\<lambda>(rep, full_index). Inr (rep\<lparr>cr_total := cr_total rep + 1\<rparr>, full_index)))"

section \<open>The whole check\<close>

text \<open>The loop reads a record, checks it, and goes on; it also keeps all records.\<close>

function check_scan :: "decoder \<Rightarrow> blobs \<Rightarrow> bytes \<Rightarrow> check_report \<times> full_index \<Rightarrow>
    (check_report \<times> full_index \<times> chunk_record list) res" where
  "check_scan zd readers s st =
     (case read_from s of
        Inl e \<Rightarrow> Inl e
      | Inr None \<Rightarrow> Inr (fst st, snd st, [])
      | Inr (Some (rec, rest)) \<Rightarrow>
          rbind (check_record zd readers st rec) (\<lambda>st.
          rbind (check_scan zd readers rest st) (\<lambda>(rep, idx, recs). Inr (rep, idx, rec # recs))))"
  by pat_completeness auto
termination
  by (relation "measure (\<lambda>(zd, readers, s, st). length s)") (auto dest: read_from_consumes)

declare check_scan.simps [simp del]

definition base_errors :: "full_index \<Rightarrow> chunk_record \<Rightarrow> check_error list" where
  "base_errors full_index rec =
     (if r_kind rec \<noteq> Delta then []
      else if r_base_key rec = 0 then [BaseKeyZero rec]
      else case full_index (r_base_key rec) of
          None \<Rightarrow> [BaseMissing rec]
        | Some base \<Rightarrow> if r_kind base \<noteq> Full then [BaseNotFull rec (r_kind base)] else [])"

definition check_db :: "decoder \<Rightarrow> db_dir \<Rightarrow> check_report res" where
  "check_db zd dir =
     (case dd_log dir of
        None \<Rightarrow> Inl (IoErr NotFound)
      | Some log \<Rightarrow>
          rbind (read_and_verify_header log MAGIC_LOG) (\<lambda>(_, rest).
            let sizes = concat (map (\<lambda>w. case dd_blobs dir w of None \<Rightarrow> [] | Some f \<Rightarrow> [(w, of_nat (length f))]) worker_ids);
                rep = \<lparr>cr_total = 0, cr_full = 0, cr_delta = 0, cr_zero = 0, cr_errors = [], cr_sizes = sizes\<rparr>
            in rbind (check_scan zd (dd_blobs dir) rest (rep, \<lambda>_. None)) (\<lambda>(rep, full_index, all_records).
                 Inr (push_errors rep (concat (map (base_errors full_index) all_records))))))"

section \<open>The report as a function of the records\<close>

definition rec_errors :: "decoder \<Rightarrow> blobs \<Rightarrow> chunk_record \<Rightarrow> check_error list res" where
  "rec_errors zd bl rec =
     (let missing = (if bl (r_worker_id rec) = None then [NoBlobFile rec] else []);
          blob_len = (case bl (r_worker_id rec) of None \<Rightarrow> 0 | Some f \<Rightarrow> of_nat (length f))
      in rbind (case r_kind rec of
             Full \<Rightarrow> check_full zd bl rec blob_len | Delta \<Rightarrow> check_delta bl rec blob_len | Zero \<Rightarrow> Inr [])
           (\<lambda>es. Inr (missing @ es)))"

definition index_add :: "full_index \<Rightarrow> chunk_record \<Rightarrow> full_index" where
  "index_add idx rec = (if r_kind rec = Delta then idx else idx(r_key rec \<mapsto> rec))"

definition count_kind :: "chunk_kind \<Rightarrow> chunk_record list \<Rightarrow> nat" where
  "count_kind k rs = length (filter (\<lambda>r. r_kind r = k) rs)"

lemma check_record_eq:
  "check_record zd bl (rep, idx) rec = rbind (rec_errors zd bl rec) (\<lambda>es.
     Inr (rep\<lparr>cr_errors := cr_errors rep @ es, cr_total := cr_total rep + 1,
       cr_full := cr_full rep + count_kind Full [rec], cr_delta := cr_delta rep + count_kind Delta [rec],
       cr_zero := cr_zero rep + count_kind Zero [rec]\<rparr>, index_add idx rec))"
  by (cases "r_kind rec")
    (auto simp: check_record_def rec_errors_def Let_def rbind_assoc push_errors_def index_add_def count_kind_def
      intro!: arg_cong2 [where f = rbind])

text \<open>All errors of the records in order, unless one of them stops the check.\<close>

fun all_rec_errors :: "decoder \<Rightarrow> blobs \<Rightarrow> chunk_record list \<Rightarrow> check_error list res" where
  "all_rec_errors zd bl [] = Inr []"
| "all_rec_errors zd bl (r # rs) =
     rbind (rec_errors zd bl r) (\<lambda>es. rbind (all_rec_errors zd bl rs) (\<lambda>es'. Inr (es @ es')))"

lemma check_scan_eq:
  "read_records s = Inr rs \<Longrightarrow> check_scan zd bl s (rep, idx) = rbind (all_rec_errors zd bl rs) (\<lambda>es.
     Inr (rep\<lparr>cr_errors := cr_errors rep @ es, cr_total := cr_total rep + length rs,
       cr_full := cr_full rep + count_kind Full rs, cr_delta := cr_delta rep + count_kind Delta rs,
       cr_zero := cr_zero rep + count_kind Zero rs\<rparr>, foldl index_add idx rs, rs))"
proof (induction s arbitrary: rs rep idx rule: read_records.induct)
  case (1 s)
  from "1.prems" show ?case
  proof (cases rule: read_records_cases)
    case eof
    then show ?thesis by (simp add: check_scan.simps [of zd bl s] count_kind_def)
  next
    case (rec r rest rs')
    note IH = "1.IH" [OF rec(1) refl refl rec(2)]
    show ?thesis
      unfolding rec(3) check_scan.simps [of zd bl s] rec(1)
      by (auto simp: check_record_eq rbind_assoc IH count_kind_def intro!: arg_cong2 [where f = rbind])
  qed
qed

lemma check_db_eq:
  assumes "dd_log dir = Some log" "read_log_records log = Inr rs"
  shows "map_sum id cr_errors (check_db zd dir) =
    rbind (all_rec_errors zd (dd_blobs dir) rs) (\<lambda>es. Inr (es @ concat (map (base_errors (foldl index_add (\<lambda>_. None) rs)) rs)))"
proof -
  obtain m rest where hd: "read_and_verify_header log MAGIC_LOG = Inr (m, rest)" and rd: "read_records rest = Inr rs"
    using assms(2) by (auto simp: read_log_records_def rbind_eq_Inr_iff)
  show ?thesis
    using assms(1) hd
    by (cases "all_rec_errors zd (dd_blobs dir) rs")
      (simp_all add: check_db_def check_scan_eq [OF rd] push_errors_def Let_def)
qed

section \<open>What an empty error list means\<close>

definition files_small :: "blobs \<Rightarrow> bool" where
  "files_small bl \<longleftrightarrow> (\<forall>w f. bl w = Some f \<longrightarrow> length f < 2 ^ 63)"

lemma in_file_iff:
  assumes "length f < 2 ^ 63"
  shows "of_nat (length f) < saturating_add (r_offset r) (ucast (r_len r)) \<longleftrightarrow>
    length f < unat (r_offset r) + unat (r_len r)"
proof -
  have f: "unat (of_nat (length f) :: u64) = length f"
    using assms by (simp add: unat_of_nat take_bit_nat_eq_self_iff)
  show ?thesis
  proof (cases "2 ^ 64 \<le> unat (r_offset r) + unat (r_len r)")
    case True
    have "unat (- 1 :: u64) = 2 ^ 64 - 1" by (simp add: unsigned_minus_1_eq_mask mask_eq_exp_minus_1)
    with True assms f show ?thesis by (simp add: saturating_add_def word_less_nat_alt)
  next
    case False
    then have "unat (r_offset r + ucast (r_len r)) = unat (r_offset r) + unat (r_len r)"
      by (simp add: unat_word_ariths)
    with False f show ?thesis by (simp add: saturating_add_def word_less_nat_alt)
  qed
qed

lemma checked_range:
  assumes "bl (r_worker_id r) = Some f" "length f < 2 ^ 63" "unat (r_offset r) + unat (r_len r) \<le> length f"
  shows "get_range f (unat (r_offset r)) (unat (r_offset r + ucast (r_len r))) = blob_range bl r"
    "blob_range bl r = Some (rslice (unat (r_offset r)) (unat (r_offset r) + unat (r_len r)) f)"
proof -
  have small: "unat (r_offset r) + unat (r_len r) < 2 ^ 64" using assms by simp
  then have "unat (r_offset r + ucast (r_len r)) = unat (r_offset r) + unat (r_len r)"
    by (simp add: unat_word_ariths)
  with assms small show "get_range f (unat (r_offset r)) (unat (r_offset r + ucast (r_len r))) = blob_range bl r"
    "blob_range bl r = Some (rslice (unat (r_offset r)) (unat (r_offset r) + unat (r_len r)) f)"
    by (simp_all add: blob_range_def get_range_def)
qed

lemma length_blob_range: "blob_range bl r = Some z \<Longrightarrow> length z = unat (r_len r)"
  by (auto simp: blob_range_def get_range_def split: option.splits if_splits)

lemma apply_delta_xor_total:
  "bad_index blob = None \<Longrightarrow> \<exists>p. apply_delta_xor blob out = Inr p"
proof (induction blob out rule: apply_delta_xor.induct)
  case (1 blob out)
  let ?idx = "unat (from_le (rslice 0 2 (take 10 blob)) :: u16)"
  show ?case
  proof (cases "length blob < 10")
    case True
    then show ?thesis by (simp add: apply_delta_xor.simps [of blob])
  next
    case False
    then have "\<not> PAGE_WORDS \<le> ?idx" "bad_index (drop 10 blob) = None"
      using "1.prems" by (auto simp: bad_index.simps [of blob] Let_def split: if_splits)
    with False "1.IH" show ?thesis by (subst apply_delta_xor.simps) (simp add: Let_def)
  qed
qed

lemma apply_delta_xor_no_bad:
  "apply_delta_xor blob out = Inr p \<Longrightarrow> bad_index blob = None"
proof (induction blob out rule: apply_delta_xor.induct)
  case (1 blob out)
  let ?idx = "unat (from_le (rslice 0 2 (take 10 blob)) :: u16)"
  show ?case
  proof (cases "length blob < 10")
    case True
    then show ?thesis by (simp add: bad_index.simps [of blob])
  next
    case False
    then have idx: "\<not> PAGE_WORDS \<le> ?idx"
      using "1.prems" by (subst (asm) apply_delta_xor.simps) (auto simp: Let_def)
    then have "bad_index (drop 10 blob) = None"
      using "1.IH" [OF False refl refl refl] "1.prems" False by (subst (asm) (2) apply_delta_xor.simps) (auto simp: Let_def)
    with False idx show ?thesis by (simp add: bad_index.simps [of blob] Let_def)
  qed
qed

lemma checked_full:
  assumes "rec_errors zd bl r = Inr []" "r_kind r = Full" "r_len r \<noteq> 0" "files_small bl"
  shows "\<exists>p. full_at zd bl r p"
proof -
  obtain f where f: "bl (r_worker_id r) = Some f" "length f < 2 ^ 63"
    and chk: "check_full zd bl r (of_nat (length f)) = Inr []"
    using assms by (auto simp: rec_errors_def files_small_def rbind_eq_Inr_iff Let_def split: if_splits)
  have le: "unat (r_offset r) + unat (r_len r) \<le> length f"
    using chk assms(3) in_file_iff [OF f(2), of r] by (auto simp: check_full_def split: if_splits)
  obtain z where z: "blob_range bl r = Some z" using checked_range(2) [of bl r f, OF f le] by blast
  show ?thesis
    using chk assms(2,3) f le checked_range(1) [of bl r f, OF f le] z in_file_iff [OF f(2), of r]
    by (auto simp: check_full_def full_at_def split: option.splits if_splits)
qed

lemma checked_delta:
  assumes "rec_errors zd bl r = Inr []" "r_kind r = Delta" "files_small bl"
    and "r_len r = 0 \<longrightarrow> (\<exists>f. bl (r_worker_id r) = Some f \<and> unat (r_offset r) \<le> length f)"
  shows "\<exists>d. blob_range bl r = Some d \<and> length d mod 10 = 0 \<and> bad_index d = None"
proof -
  obtain f where f: "bl (r_worker_id r) = Some f" "length f < 2 ^ 63"
    and chk: "check_delta bl r (of_nat (length f)) = Inr []"
    using assms by (auto simp: rec_errors_def files_small_def rbind_eq_Inr_iff Let_def split: if_splits)
  show ?thesis
  proof (cases "r_len r = 0")
    case True
    then have "unat (r_offset r) + unat (r_len r) \<le> length f" using assms(4) f by simp
    from checked_range(2) [of bl r f, OF f this] True show ?thesis
      by (simp add: rslice_def bad_index.simps [of "[]"])
  next
    case False
    have le: "unat (r_offset r) + unat (r_len r) \<le> length f"
      using chk False in_file_iff [OF f(2), of r] by (auto simp: check_delta_def split: if_splits)
    obtain z where z: "blob_range bl r = Some z" using checked_range(2) [of bl r f, OF f le] by blast
    have "unat (r_len r) mod 10 = 0 \<and> bad_index z = None"
      using chk False f le checked_range(1) [of bl r f, OF f le] z in_file_iff [OF f(2), of r]
      by (auto simp: check_delta_def split: option.splits if_splits)
    with z length_blob_range [OF z] show ?thesis by simp
  qed
qed

lemma all_rec_errors_nil:
  "all_rec_errors zd bl rs = Inr [] \<longleftrightarrow> (\<forall>r \<in> set rs. rec_errors zd bl r = Inr [])"
  by (induction rs) (auto simp: rbind_eq_Inr_iff)

lemma index_fold_in:
  "foldl index_add idx rs k = Some b \<Longrightarrow> idx k = Some b \<or> b \<in> set rs \<and> r_key b = k"
proof (induction rs arbitrary: idx)
  case (Cons r rs)
  from Cons.prems have "index_add idx r k = Some b \<or> b \<in> set rs \<and> r_key b = k" by (intro Cons.IH) simp
  then show ?case
  proof
    assume "index_add idx r k = Some b"
    then show ?thesis by (auto simp: index_add_def split: if_splits)
  qed simp
qed simp

lemma index_fold_get:
  assumes "distinct (map r_key rs)" "b \<in> set rs" "r_kind b \<noteq> Delta"
  shows "foldl index_add idx rs (r_key b) = Some b"
proof -
  obtain xs ys where rs: "rs = xs @ b # ys" using assms(2) by (metis split_list)
  have keep: "foldl index_add i ys (r_key b) = i (r_key b)" for i
  proof -
    have "r_key b \<notin> r_key ` set ys" using assms(1) rs by auto
    then show ?thesis by (induction ys arbitrary: i) (auto simp: index_add_def)
  qed
  show ?thesis using assms(3) by (simp add: rs keep index_add_def)
qed

text \<open>A clean report: every record of the log can be read.\<close>

lemma check_sound:
  assumes "dd_log dir = Some log" "read_log_records log = Inr rs" "distinct (map r_key rs)"
    and chk: "check_db zd dir = Inr rep" "report_ok rep" and small: "files_small (dd_blobs dir)"
    and full: "\<And>r. r \<in> set rs \<Longrightarrow> r_kind r = Full \<Longrightarrow> r_len r \<noteq> 0"
    and empty: "\<And>r. r \<in> set rs \<Longrightarrow> r_kind r = Delta \<Longrightarrow> r_len r = 0 \<Longrightarrow>
      \<exists>f. dd_blobs dir (r_worker_id r) = Some f \<and> unat (r_offset r) \<le> length f"
    and r: "r \<in> set rs"
  shows "\<exists>p. chunk_at zd (dd_blobs dir) (set rs) r p"
proof -
  let ?idx = "foldl index_add (\<lambda>_. None) rs"
  have errs: "all_rec_errors zd (dd_blobs dir) rs = Inr []" "\<forall>r \<in> set rs. base_errors ?idx r = []"
    using sym [OF check_db_eq [OF assms(1,2), of zd]] chk by (auto simp: report_ok_def rbind_eq_Inr_iff)
  then have each: "rec_errors zd (dd_blobs dir) r' = Inr []" if "r' \<in> set rs" for r'
    using that by (simp add: all_rec_errors_nil)
  show ?thesis
  proof (cases "r_kind r")
    case Full
    with checked_full [OF each [OF r] Full full [OF r Full] small] show ?thesis by (auto simp: chunk_at_def)
  next
    case Delta
    obtain d where d: "blob_range (dd_blobs dir) r = Some d" "length d mod 10 = 0" "bad_index d = None"
      using checked_delta [OF each [OF r] Delta small] empty [OF r Delta] by metis
    have "base_errors ?idx r = []" using errs(2) r by blast
    then obtain b where idx: "?idx (r_base_key r) = Some b" "r_kind b = Full"
      using Delta by (auto simp: base_errors_def split: if_splits option.splits)
    from index_fold_in [OF idx(1)] idx(2) have b: "b \<in> set rs" "r_key b = r_base_key r" "r_kind b = Full"
      by simp_all
    obtain q where q: "full_at zd (dd_blobs dir) b q"
      using checked_full [OF each [OF b(1)] b(3) full [OF b(1,3)] small] by blast
    obtain p where "apply_delta_xor d q = Inr p" using apply_delta_xor_total [OF d(3)] by blast
    with d have "apply_delta_patch_in_place d q = Inr p" by (simp add: apply_delta_patch_in_place_def)
    with b q d Delta show ?thesis by (auto simp: chunk_at_def)
  qed (simp add: chunk_at_def)
qed

text \<open>A database a writer produced: clean, unless a base is key 0 or a blob file is missing.\<close>

lemma history_rec_errors:
  assumes rec: "rec_ok zd bl R s pa p r" and blob: "bl (r_worker_id r) \<noteq> None" and small: "files_small bl"
  shows "rec_errors zd bl r = Inr []"
proof -
  obtain f where f: "bl (r_worker_id r) = Some f" "length f < 2 ^ 63"
    using blob small by (auto simp: files_small_def)
  have range: "unat (r_offset r) + unat (r_len r) \<le> length f" if "blob_range bl r = Some z" for z
    using that f by (auto simp: blob_range_def get_range_def split: if_splits)
  show ?thesis
  proof (cases "r_kind r")
    case Full
    with rec obtain z where z: "blob_range bl r = Some z" "zd z = Some p" "length p = PAGE_SIZE"
      by (auto simp: rec_ok_def chunk_at_def full_at_def)
    note le = range [OF z(1)]
    have "check_full zd bl r (of_nat (length f)) = Inr []"
      using z f in_file_iff [OF f(2), of r] le checked_range(1) [of bl r f, OF f le] by (simp add: check_full_def)
    with f Full show ?thesis by (simp add: rec_errors_def)
  next
    case Delta
    with rec obtain q d where d: "blob_range bl r = Some d" "apply_delta_patch_in_place d q = Inr p"
      by (auto simp: rec_ok_def chunk_at_def)
    note le = range [OF d(1)]
    have "length d mod 10 = 0" "bad_index d = None"
      using d(2) apply_delta_xor_no_bad by (auto simp: apply_delta_patch_in_place_def split: if_splits)
    then have "check_delta bl r (of_nat (length f)) = Inr []"
      using d(1) f in_file_iff [OF f(2), of r] le checked_range(1) [of bl r f, OF f le] length_blob_range [OF d(1)]
      by (simp add: check_delta_def)
    with f Delta show ?thesis by (simp add: rec_errors_def)
  next
    case Zero
    with f show ?thesis by (simp add: rec_errors_def)
  qed
qed

lemma check_complete:
  assumes hm: "hist_match zd (dd_blobs dir) rs h" and log: "dd_log dir = Some (log_file hdr rs)"
    and blob: "\<And>r. r \<in> set rs \<Longrightarrow> dd_blobs dir (r_worker_id r) \<noteq> None" and small: "files_small (dd_blobs dir)"
  shows "\<exists>rep. check_db zd dir = Inr rep \<and>
    cr_errors rep = map BaseKeyZero (filter (\<lambda>r. r_kind r = Delta \<and> r_base_key r = 0) rs)"
proof -
  have "\<forall>r \<in> set rs. log_record_ok r" using hist_match_log_ok [OF hm] by blast
  then have rd: "read_log_records (log_file hdr rs) = Inr rs" by simp
  have dist: "distinct (map r_key rs)" using hm by (simp add: hist_match_def)
  let ?idx = "foldl index_add (\<lambda>_. None) rs"
  have errs: "rec_errors zd (dd_blobs dir) r = Inr []" if r: "r \<in> set rs" for r
  proof -
    obtain s m pa p where "rec_ok zd (dd_blobs dir) (set rs) s pa p r" by (rule hist_match_recE [OF hm r])
    then show ?thesis by (rule history_rec_errors [OF _ blob [OF r] small])
  qed
  have base: "base_errors ?idx r = (if r_kind r = Delta \<and> r_base_key r = 0 then [BaseKeyZero r] else [])" if r: "r \<in> set rs" for r
  proof (cases "r_kind r = Delta \<and> r_base_key r \<noteq> 0")
    case True
    obtain s m pa p where "rec_ok zd (dd_blobs dir) (set rs) s pa p r" by (rule hist_match_recE [OF hm r])
    with True obtain b q where b: "b \<in> set rs" "r_key b = r_base_key r" "full_at zd (dd_blobs dir) b q"
      by (auto simp: rec_ok_def chunk_at_def)
    then have "r_kind b = Full" by (simp add: full_at_def)
    with index_fold_get [OF dist b(1)] b(2) True show ?thesis by (simp add: base_errors_def)
  qed (auto simp: base_errors_def)
  have "concat (map (base_errors ?idx) xs) = map BaseKeyZero (filter (\<lambda>r. r_kind r = Delta \<and> r_base_key r = 0) xs)"
    if "set xs \<subseteq> set rs" for xs
    using that by (induction xs) (simp_all add: base)
  moreover have "all_rec_errors zd (dd_blobs dir) rs = Inr []"
    by (simp add: all_rec_errors_nil errs)
  ultimately have "map_sum id cr_errors (check_db zd dir) = Inr (map BaseKeyZero (filter (\<lambda>r. r_kind r = Delta \<and> r_base_key r = 0) rs))"
    using check_db_eq [OF log rd, of zd] by simp
  then show ?thesis by (cases "check_db zd dir") auto
qed

section \<open>Properties\<close>

text \<open>C9: a clean report means the database can be read: if \<open>check\<close> finds no error then every
  load of any page at any encodable snapshot returns, with a page or the answer that there is
  none. What the check leaves out is asked for: there is no \<open>index.bxdb\<close> (the check reads the
  log alone, the loads would read the index), no key occurs twice in the log, no Full chunk
  has length 0, length-0 deltas point into their file, and no blob file has 2^63 bytes or
  more.\<close>

theorem clean_check_reads:
  assumes "dd_index dir = None" "dd_log dir = Some log" "read_log_records log = Inr rs" "distinct (map r_key rs)"
    and "check_db zd dir = Inr rep" "report_ok rep" "files_small (dd_blobs dir)"
    and full: "\<forall>r \<in> set rs. r_kind r = Full \<longrightarrow> r_len r \<noteq> 0"
    and empty: "\<forall>r \<in> set rs. r_kind r = Delta \<and> r_len r = 0 \<longrightarrow>
      (\<exists>f. dd_blobs dir (r_worker_id r) = Some f \<and> unat (r_offset r) \<le> length f)"
    and "s \<le> MAX_SNAPSHOT_ID" "length out = PAGE_SIZE"
  shows "\<exists>answer. read_session cpu zd dir out pa s = Inr answer"
proof -
  obtain st where st: "page_store_open dir = Inr st" "store_ok st" "store_records st = canon r_key rs"
    "ps_blobs st = dd_blobs dir"
    by (rule open_log_any [OF assms(1-3)])
  have set: "set (store_records st) = set rs" using assms(4) st(3) by (simp add: set_canon_distinct)
  have page: "\<exists>p. page_of zd st r = Inr p" if r: "r \<in> set rs" for r
  proof -
    have "\<exists>p. chunk_at zd (dd_blobs dir) (set rs) r p"
      by (rule check_sound [OF assms(2-7) _ _ r]) (use full empty in blast)+
    then show ?thesis by (simp add: page_of_iff [OF st(2)] st(4) set)
  qed
  have "read_page zd st pa s = Inr None \<or> (\<exists>p. read_page zd st pa s = Inr (Some p))"
  proof (cases "floor_answer (store_records st) (encode_key pa s) pa")
    case None
    with store_query [OF st(2), of pa s] leD [OF assms(10)] show ?thesis by (simp add: read_page_def)
  next
    case (Some r)
    with floor_answer_in set have "r \<in> set rs" by blast
    with page obtain p where "page_of zd st r = Inr p" by blast
    with Some store_query [OF st(2), of pa s] leD [OF assms(10)] show ?thesis by (simp add: read_page_def)
  qed
  then show ?thesis by (auto simp: read_session_eq [OF st(1,2) assms(11)])
qed

text \<open>A Full chunk of one page, and a Delta chunk with one patch entry for its first word.\<close>

definition patched_recs :: "chunk_record list" where
  "patched_recs = [new_full 1 0 0 4096, new_delta 2 0 4096 10 1]"

definition patched_dir :: db_dir where
  "patched_dir = \<lparr>dd_index = None, dd_log = Some (log_file 2 patched_recs),
     dd_blobs = [0 \<mapsto> replicate PAGE_SIZE 5 @ [0, 0, 9, 0, 0, 0, 0, 0, 0, 0]]\<rparr>"

lemma patched_check: "map_sum id cr_errors (check_db Some patched_dir) = Inr []"
proof -
  let ?patch = "[0, 0, 9, 0, 0, 0, 0, 0, 0, 0] :: bytes" and ?bl = "dd_blobs patched_dir"
  let ?f = "replicate PAGE_SIZE 5 @ ?patch"
  have bl: "?bl 0 = Some ?f" "length ?f = 4106" by (simp_all add: patched_dir_def PAGE_SIZE_def)
  have rs: "read_log_records (log_file 2 patched_recs) = Inr patched_recs"
    by (simp add: patched_recs_def log_record_ok_def new_record_defs)
  have full: "get_range ?f 0 4096 = Some (replicate PAGE_SIZE 5)"
    by (simp add: get_range_def rslice_append_left rslice_full PAGE_SIZE_def)
  have "rslice 4096 4106 ?f = ?patch" by (simp add: rslice_def PAGE_SIZE_def)
  then have delta: "get_range ?f 4096 4106 = Some ?patch" using bl(2) by (simp add: get_range_def)
  have "bad_index ?patch = None"
    by (simp add: bad_index.simps [of ?patch] bad_index.simps [of "[]"] rslice_def PAGE_WORDS_val Let_def)
  then have "rec_errors Some ?bl r = Inr []" if "r \<in> set patched_recs" for r
    using that bl full delta
    by (auto simp: patched_recs_def rec_errors_def check_full_def check_delta_def new_record_defs saturating_add_def PAGE_SIZE_def)
  then have "all_rec_errors Some ?bl patched_recs = Inr []" by (simp add: all_rec_errors_nil)
  moreover have "base_errors (foldl index_add (\<lambda>_. None) patched_recs) r = []" if "r \<in> set patched_recs" for r
    using that by (auto simp: patched_recs_def base_errors_def index_add_def new_record_defs)
  then have "concat (map (base_errors (foldl index_add (\<lambda>_. None) patched_recs)) patched_recs) = []" by simp
  ultimately show ?thesis
    using check_db_eq [of patched_dir, OF _ rs, of Some] by (simp add: patched_dir_def)
qed

theorem clean_check_reads_witness:
  "\<exists>answer. read_session Portable Some patched_dir (replicate PAGE_SIZE 9) 0 2 = Inr answer"
proof -
  have rs: "read_log_records (log_file 2 patched_recs) = Inr patched_recs"
    by (simp add: patched_recs_def log_record_ok_def new_record_defs)
  have dir: "dd_index patched_dir = None" "dd_log patched_dir = Some (log_file 2 patched_recs)" "distinct (map r_key patched_recs)"
    "files_small (dd_blobs patched_dir)" "2 \<le> MAX_SNAPSHOT_ID" "length (replicate PAGE_SIZE (9 :: byte)) = PAGE_SIZE"
    by (simp_all add: patched_dir_def patched_recs_def new_record_defs files_small_def PAGE_SIZE_def snapshot_le_max_unat)
  obtain rep where rep: "check_db Some patched_dir = Inr rep" "report_ok rep"
    using patched_check by (cases "check_db Some patched_dir") (auto simp: report_ok_def)
  have kinds: "\<forall>r \<in> set patched_recs. r_kind r = Full \<longrightarrow> r_len r \<noteq> 0"
    "\<forall>r \<in> set patched_recs. r_kind r = Delta \<and> r_len r = 0 \<longrightarrow>
       (\<exists>f. dd_blobs patched_dir (r_worker_id r) = Some f \<and> unat (r_offset r) \<le> length f)"
    by (simp_all add: patched_recs_def new_record_defs)
  from clean_check_reads [OF dir(1,2) rs dir(3) rep dir(4) kinds dir(5,6)] show ?thesis .
qed

text \<open>C33: on a database as saves leave it the check reports no error but one kind of false alarm:
  a delta whose base is the chunk of page 0 at snapshot 0, because the key of that chunk is 0,
  which the check takes for a missing base. Every load of the database succeeds all the same.\<close>

theorem check_of_saved_database:
  assumes "dir_inv zd h dir" "dd_index dir = None" "files_small (dd_blobs dir)"
    and "\<forall>r \<in> set (dir_records dir). dd_blobs dir (r_worker_id r) \<noteq> None"
  shows "\<exists>rep. check_db zd dir = Inr rep \<and>
    cr_errors rep = map BaseKeyZero (filter (\<lambda>r. r_kind r = Delta \<and> r_base_key r = 0) (dir_records dir)) \<and>
    (\<forall>cpu out pa s. s \<le> MAX_SNAPSHOT_ID \<longrightarrow> length out = PAGE_SIZE \<longrightarrow>
       read_session cpu zd dir out pa s = Inr (abs_read h pa s))"
proof -
  obtain hdr rs where log: "dd_log dir = Some (log_file hdr rs)" and hm: "hist_match zd (dd_blobs dir) rs h"
    using assms(1) by (auto simp: dir_inv_def)
  have "\<forall>r \<in> set rs. log_record_ok r" using hist_match_log_ok [OF hm] by blast
  then have "dir_records dir = rs" by (simp add: dir_records_def log log_records_def)
  with check_complete [OF hm log _ assms(3)] assms(4) read_session_history [OF assms(1,2)] show ?thesis by auto
qed

theorem check_of_saved_database_witness:
  "\<exists>rep. check_db (\<lambda>_. Some (replicate PAGE_SIZE 5))
       \<lparr>dd_index = None, dd_log = Some (log_file 1 [new_full 0 0 0 1, new_delta 1 0 1 0 0]), dd_blobs = [0 \<mapsto> [7]]\<rparr> = Inr rep \<and>
     \<not> report_ok rep \<and>
     read_session Portable (\<lambda>_. Some (replicate PAGE_SIZE 5))
       \<lparr>dd_index = None, dd_log = Some (log_file 1 [new_full 0 0 0 1, new_delta 1 0 1 0 0]), dd_blobs = [0 \<mapsto> [7]]\<rparr>
       (replicate PAGE_SIZE 9) 0 1 = Inr (Some (replicate PAGE_SIZE 5))"
proof -
  let ?rs = "[new_full 0 0 0 1, new_delta 1 0 1 0 0]" and ?p = "replicate PAGE_SIZE (5 :: byte)"
  let ?zd = "\<lambda>_. Some ?p" and ?bl = "[0 \<mapsto> [7]] :: blobs"
  let ?dir = "\<lparr>dd_index = None, dd_log = Some (log_file 1 ?rs), dd_blobs = ?bl\<rparr>"
  let ?h = "[(1, [0 \<mapsto> ?p]), (0, [0 \<mapsto> ?p])] :: history"
  have s: "0 \<le> MAX_SNAPSHOT_ID" "1 \<le> MAX_SNAPSHOT_ID" by (simp_all add: snapshot_le_max_unat)
  have key: "encode_key 0 0 = 0" "encode_key 0 1 = 1"
    by (simp_all add: encode_key_def SNAPSHOT_MASK_def SNAPSHOT_BITS_def)
  have parts: "pa_of 0 = 0" "pa_of 1 = 0" "snapshot_of 0 = 0" "snapshot_of 1 = 1"
    by (simp_all add: pa_of_def snapshot_of_def SNAPSHOT_MASK_def SNAPSHOT_BITS_def)
  have full: "full_at ?zd ?bl (new_full 0 0 0 1) ?p"
    by (simp add: full_at_def new_full_def blob_range_def get_range_def)
  have delta: "apply_delta_patch_in_place [] ?p = Inr ?p" by (simp add: apply_delta_patch_in_place_def)
  have nonzero: "\<not> is_all_zero ?p" by (simp add: is_all_zero_def PAGE_SIZE_def list_all_iff)
  have "rec_ok ?zd ?bl (set ?rs) 0 0 ?p (new_full 0 0 0 1)"
    using full key nonzero by (auto simp: rec_ok_def chunk_at_def new_full_def log_record_ok_def based_def)
  moreover have "rec_ok ?zd ?bl (set ?rs) 1 0 ?p (new_delta 1 0 1 0 0)"
  proof -
    have range: "blob_range ?bl (new_delta 1 0 1 0 0) = Some []"
      by (simp add: blob_range_def get_range_def new_delta_def rslice_def)
    have "new_full 0 0 0 1 \<in> set ?rs" "r_key (new_full 0 0 0 1) = r_base_key (new_delta 1 0 1 0 0)"
      by (simp_all add: new_record_defs)
    with full range delta have "\<exists>base q d. base \<in> set ?rs \<and> r_key base = r_base_key (new_delta 1 0 1 0 0) \<and>
        full_at ?zd ?bl base q \<and> blob_range ?bl (new_delta 1 0 1 0 0) = Some d \<and> apply_delta_patch_in_place d q = Inr ?p"
      by blast
    moreover have "r_kind (new_delta 1 0 1 0 0) = Delta" by (simp add: new_delta_def)
    ultimately have "chunk_at ?zd ?bl (set ?rs) (new_delta 1 0 1 0 0) ?p"
      by (simp only: chunk_at_def chunk_kind.case)
    moreover have "r_key (new_delta 1 0 1 0 0) = encode_key 0 1" "log_record_ok (new_delta 1 0 1 0 0)" "based (new_delta 1 0 1 0 0)"
      using key parts by (simp_all add: new_delta_def log_record_ok_def based_def)
    moreover have "(r_kind (new_delta 1 0 1 0 0) = Zero) = is_all_zero ?p" using nonzero by (simp add: new_delta_def)
    ultimately show ?thesis by (simp only: rec_ok_def)
  qed
  ultimately have "hist_match ?zd ?bl ?rs ?h"
    unfolding hist_match_def by (auto simp: new_record_defs)
  moreover have "history_ok ?h" using s by auto
  ultimately have inv: "dir_inv ?zd ?h ?dir" by (auto simp: dir_inv_def)
  have recs: "dir_records ?dir = ?rs"
    by (simp add: dir_records_def log_records_def log_record_ok_def new_record_defs)
  have small: "dd_index ?dir = None" "files_small (dd_blobs ?dir)" "\<forall>r \<in> set (dir_records ?dir). dd_blobs ?dir (r_worker_id r) \<noteq> None"
    unfolding recs by (simp_all add: files_small_def new_record_defs)
  have out: "length (replicate PAGE_SIZE (9 :: byte)) = PAGE_SIZE" by simp
  from check_of_saved_database [OF inv small] obtain rep where rep: "check_db ?zd ?dir = Inr rep"
    "cr_errors rep = map BaseKeyZero (filter (\<lambda>r. r_kind r = Delta \<and> r_base_key r = 0) ?rs)"
    and reads: "\<forall>cpu out pa s. s \<le> MAX_SNAPSHOT_ID \<longrightarrow> length out = PAGE_SIZE \<longrightarrow>
       read_session cpu ?zd ?dir out pa s = Inr (abs_read ?h pa s)"
    unfolding recs by blast
  have "\<not> report_ok rep" by (simp add: report_ok_def rep(2) new_record_defs)
  moreover have "read_session Portable ?zd ?dir (replicate PAGE_SIZE 9) 0 1 = Inr (Some ?p)"
    using reads s(2) out by simp
  ultimately show ?thesis using rep(1) by blast
qed

text \<open>The patch applier accepts exactly the blobs the check accepts: a delta applies to a page
  exactly when its length is a multiple of 10 and no entry's word index is 512 or more, and
  the page keeps its size.\<close>

theorem delta_accepted_iff_checked:
  assumes "length page = PAGE_SIZE"
  shows "(\<exists>p. apply_delta_patch_in_place blob page = Inr p) = (length blob mod 10 = 0 \<and> bad_index blob = None) \<and>
    (\<forall>p. apply_delta_patch_in_place blob page = Inr p \<longrightarrow> length p = PAGE_SIZE)"
  using apply_delta_xor_total [of blob page] apply_delta_xor_no_bad [of blob page] apply_delta_xor_length [OF _ assms, of blob]
  by (auto simp: apply_delta_patch_in_place_def)

theorem delta_accepted_iff_checked_witness:
  "\<not> (\<exists>p. apply_delta_patch_in_place [0, 2, 1, 0, 0, 0, 0, 0, 0, 0] (replicate PAGE_SIZE 5) = Inr p)"
proof -
  have "bad_index [0, 2, 1, 0, 0, 0, 0, 0, 0, 0] = Some 512"
    by (subst bad_index.simps) (simp add: rslice_def PAGE_WORDS_val Let_def)
  moreover have "length (replicate PAGE_SIZE (5 :: byte)) = PAGE_SIZE" by simp
  ultimately show ?thesis
    using delta_accepted_iff_checked [of "replicate PAGE_SIZE 5" "[0, 2, 1, 0, 0, 0, 0, 0, 0, 0]"] by simp
qed

end
