(* ===== verification/Names.thy ===== *)
theory Names
  imports Text Check
begin

text \<open>
  Blob files by name. The other theories see a database directory as a map from worker
  number to blob file; the code finds the files by listing \<open>blobs/\<close> and parsing
  \<open>worker_<id>.blob\<close> (\<open>BlobReaders\<close> in \<open>btree.rs\<close>, the size table of \<open>check.rs\<close>,
  \<open>cleanup_unused_blob_files\<close> in \<open>purge.rs\<close>). This theory models the listing and shows when
  the map is what the code sees.
\<close>

section \<open>Directory listings\<close>

text \<open>The entries of \<open>blobs/\<close> in the order \<open>read_dir\<close> yields them, with their contents.\<close>

type_synonym listing = "(string \<times> bytes) list"

definition worker_name :: "byte \<Rightarrow> string" where
  "worker_name i = ''worker_'' @ show_dec (unat i) @ ''.blob''"

definition worker_file_id :: "string \<Rightarrow> byte option" where
  "worker_file_id name =
     (case strip_prefix ''worker_'' name of
        None \<Rightarrow> None
      | Some rest \<Rightarrow>
          (case strip_suffix ''.blob'' rest of
             None \<Rightarrow> None
           | Some digits \<Rightarrow> parse_word 10 digits))"

definition worker_files :: "listing \<Rightarrow> (byte \<times> bytes) list" where
  "worker_files l = concat (map (\<lambda>(name, f). case worker_file_id name of Some i \<Rightarrow> [(i, f)] | None \<Rightarrow> []) l)"

section \<open>The three users of the listing\<close>

record blob_readers =
  br_files :: "bytes list"
  br_by_id :: "byte \<Rightarrow> nat option"

definition add_reader :: "blob_readers \<Rightarrow> byte \<times> bytes \<Rightarrow> blob_readers" where
  "add_reader br = (\<lambda>(i, f).
     \<lparr>br_files = br_files br @ [f], br_by_id = (br_by_id br)(i \<mapsto> length (br_files br))\<rparr>)"

definition blob_readers_new :: "listing \<Rightarrow> blob_readers" where
  "blob_readers_new l =
     (let paths = sort_key fst (worker_files l)
      in foldl add_reader \<lparr>br_files = [], br_by_id = (\<lambda>_. None)\<rparr> paths)"

definition blob_mmap :: "blob_readers \<Rightarrow> byte \<Rightarrow> bytes res" where
  "blob_mmap br worker_id =
     rbind (ok_or (br_by_id br worker_id) Panic) (\<lambda>idx. if idx < length (br_files br) then Inr (br_files br ! idx) else Inl Panic)"

definition check_blob_sizes :: "listing \<Rightarrow> byte \<Rightarrow> u64 option" where
  "check_blob_sizes l =
     foldl (\<lambda>m (name, f). case worker_file_id name of Some i \<Rightarrow> m(i \<mapsto> of_nat (length f)) | None \<Rightarrow> m) (\<lambda>_. None) l"

definition remove_unused :: "listing \<Rightarrow> chunk_record list \<Rightarrow> listing" where
  "remove_unused l records =
     (let used = r_worker_id ` set records
      in filter (\<lambda>(name, f). case worker_file_id name of Some i \<Rightarrow> i \<in> used | None \<Rightarrow> True) l)"

text \<open>The directory as the rest of the development sees it: a file by its canonical name.\<close>

definition listed_blobs :: "listing \<Rightarrow> blobs" where
  "listed_blobs l i = map_of l (worker_name i)"

definition canonical_names :: "listing \<Rightarrow> bool" where
  "canonical_names l \<longleftrightarrow> distinct (map fst l) \<and>
     (\<forall>(name, f) \<in> set l. case worker_file_id name of Some i \<Rightarrow> name = worker_name i | None \<Rightarrow> True)"

section \<open>The last listed file of a worker is the one that counts\<close>

lemma worker_file_id_name [simp]: "worker_file_id (worker_name i) = Some i"
proof -
  have "parse_word 10 (show_dec (unat i)) = Some i" by (rule parse_word_show) simp_all
  then show ?thesis
    by (simp only: worker_file_id_def worker_name_def strip_prefix_append strip_suffix_append option.case)
qed

lemma worker_name_inject: "worker_name i = worker_name j \<Longrightarrow> i = j"
  by (metis worker_file_id_name option.inject)

lemma map_of_filter_key: "map_of (filter (\<lambda>p. fst p = k) xs) k = map_of xs k"
  by (induction xs) auto

lemma map_of_rev_sort: "map_of (rev (sort_key fst xs)) k = map_of (rev xs) k"
proof -
  have "filter (\<lambda>p. fst p = k) (rev (sort_key fst xs)) = filter (\<lambda>p. fst p = k) (rev xs)"
    by (simp add: rev_filter [symmetric] sort_key_stable)
  with map_of_filter_key [of k "rev (sort_key fst xs)"] map_of_filter_key [of k "rev xs"] show ?thesis by simp
qed

lemma add_reader_simps [simp]:
  "br_files (add_reader br (i, f)) = br_files br @ [f]"
  "br_by_id (add_reader br (i, f)) = (br_by_id br)(i \<mapsto> length (br_files br))"
  by (simp_all add: add_reader_def)

lemma blob_mmap_fold:
  fixes xs :: "(byte \<times> bytes) list"
  defines "br \<equiv> foldl add_reader \<lparr>br_files = [], br_by_id = (\<lambda>_. None)\<rparr> xs"
  shows "blob_mmap br w = ok_or (map_of (rev xs) w) Panic \<and> (\<forall>k. br_by_id br w = Some k \<longrightarrow> k < length (br_files br))"
  unfolding br_def
proof (induction xs rule: rev_induct)
  case Nil
  then show ?case by (simp add: blob_mmap_def)
next
  case (snoc p xs)
  obtain i f where p: "p = (i, f)" by fastforce
  show ?case
  proof (cases "w = i")
    case True
    then show ?thesis by (simp add: p blob_mmap_def)
  next
    case False
    let ?br = "foldl add_reader \<lparr>br_files = [], br_by_id = (\<lambda>_. None)\<rparr> xs"
    from False snoc show ?thesis
      by (cases "br_by_id ?br w") (auto simp: p blob_mmap_def nth_append)
  qed
qed

lemma blob_mmap_last: "blob_mmap (blob_readers_new l) w = ok_or (map_of (rev (worker_files l)) w) Panic"
  by (simp add: blob_readers_new_def blob_mmap_fold map_of_rev_sort)

lemma check_blob_sizes_last:
  "check_blob_sizes l w = map_option (\<lambda>f. of_nat (length f)) (map_of (rev (worker_files l)) w)"
  unfolding check_blob_sizes_def
proof (induction l rule: rev_induct)
  case (snoc p l)
  obtain name f where p: "p = (name, f)" by fastforce
  with snoc show ?case by (cases "worker_file_id name") (auto simp: worker_files_def)
qed (simp add: worker_files_def)

lemma map_of_worker_files:
  assumes "canonical_names l"
  shows "map_of (rev (worker_files l)) w = listed_blobs l w"
  using assms
proof (induction l)
  case Nil
  then show ?case by (simp add: worker_files_def listed_blobs_def)
next
  case (Cons p l)
  obtain name f where p: "p = (name, f)" by fastforce
  have can: "canonical_names l" using Cons.prems by (auto simp: canonical_names_def)
  show ?case
  proof (cases "worker_file_id name")
    case None
    then have "name \<noteq> worker_name w" by auto
    with None Cons.IH [OF can] show ?thesis by (simp add: p worker_files_def listed_blobs_def)
  next
    case (Some i)
    then have name: "name = worker_name i" using Cons.prems by (auto simp: canonical_names_def p)
    have "listed_blobs l i = None"
      using Cons.prems by (auto simp: canonical_names_def p listed_blobs_def name map_of_eq_None_iff)
    with Cons.IH [OF can] Some show ?thesis
      by (auto simp: p worker_files_def listed_blobs_def name map_add_def dest: worker_name_inject split: option.splits)
  qed
qed

lemma canonical_filter: "canonical_names l \<Longrightarrow> canonical_names (filter P l)"
  by (auto simp: canonical_names_def distinct_map_filter)

lemma map_of_filter_name: "map_of (filter (\<lambda>(n, f). P n) l) n = (if P n then map_of l n else None)"
  by (induction l) auto

section \<open>Properties\<close>

text \<open>Parsing the names gives the blob map the development works with. In a directory
  whose worker files have the names the writer gives them, the readers serve for every worker
  exactly its file and panic without one, the integrity check sees its size, and removing the
  unused files is the purge's map operation. Names such as \<open>worker_007.blob\<close> or
  \<open>worker_+7.blob\<close>, which also parse, are excluded by the hypothesis.\<close>

theorem blob_files_by_name:
  assumes "canonical_names l"
  shows "blob_mmap (blob_readers_new l) w = ok_or (listed_blobs l w) Panic \<and>
    check_blob_sizes l w = map_option (\<lambda>f. of_nat (length f)) (listed_blobs l w) \<and>
    listed_blobs (remove_unused l records) = cleanup_unused_blob_files (listed_blobs l) records \<and>
    canonical_names (remove_unused l records)"
proof -
  have "listed_blobs (remove_unused l records) w = cleanup_unused_blob_files (listed_blobs l) records w" for w
    using map_of_filter_name [of "\<lambda>n. case worker_file_id n of Some i \<Rightarrow> i \<in> r_worker_id ` set records | None \<Rightarrow> True" l "worker_name w"]
    by (simp add: listed_blobs_def remove_unused_def cleanup_unused_blob_files_def)
  moreover have "canonical_names (remove_unused l records)"
    unfolding remove_unused_def Let_def by (rule canonical_filter [OF assms])
  ultimately show ?thesis
    using map_of_worker_files [OF assms, of w] by (simp add: blob_mmap_last check_blob_sizes_last fun_eq_iff)
qed

theorem blob_files_by_name_witness:
  "blob_mmap (blob_readers_new [(''worker_10.blob'', [1, 2]), (''notes.txt'', [3]), (''worker_2.blob'', [4])]) 10 = Inr [1, 2] \<and>
   listed_blobs (remove_unused [(''worker_10.blob'', [1, 2]), (''notes.txt'', [3]), (''worker_2.blob'', [4])]
     [new_full 5 2 0 1]) 10 = None"
proof -
  let ?l = "[(''worker_10.blob'', [1, 2 :: byte]), (''notes.txt'', [3]), (''worker_2.blob'', [4])]"
  have "canonical_names ?l" by code_simp
  moreover have "listed_blobs ?l 10 = Some [1, 2]" by code_simp
  moreover have "cleanup_unused_blob_files (listed_blobs ?l) [new_full 5 2 0 1] 10 = None"
    by (simp add: cleanup_unused_blob_files_def new_full_def)
  ultimately show ?thesis using blob_files_by_name [of ?l 10 "[new_full 5 2 0 1]"] by simp
qed

end
