(* ===== verification/CApi.thy ===== *)
theory CApi
  imports Purge Check Failures
begin

text \<open>
  The C interface \<open>bxdb-core/src/c_api.rs\<close>: handles and null pointers, names as C strings,
  and errors, which \<open>expect\<close> turns into a panic that ends the calling process. A pointer is
  an option, the buffer behind it a byte list, and the caller's promise about its length is
  the slice taken from it.
\<close>

section \<open>Names\<close>

text \<open>\<open>CStr::to_str\<close>: the bytes of a well-formed UTF-8 string.\<close>

definition utf8_cont :: "bytes \<Rightarrow> nat \<Rightarrow> bool" where
  "utf8_cont bs n \<longleftrightarrow> n \<le> length bs \<and> list_all (\<lambda>b. 0x80 \<le> b \<and> b \<le> 0xBF) (take n bs)"

definition utf8_second :: "bytes \<Rightarrow> byte \<Rightarrow> byte \<Rightarrow> bool" where
  "utf8_second bs lo hi \<longleftrightarrow> bs \<noteq> [] \<and> lo \<le> hd bs \<and> hd bs \<le> hi"

text \<open>How many bytes follow a first byte, with the range its second byte is limited to.\<close>

definition utf8_tail :: "byte \<Rightarrow> (nat \<times> byte \<times> byte) option" where
  "utf8_tail b =
     (if b < 0x80 then Some (0, 0x80, 0xBF)
      else if 0xC2 \<le> b \<and> b \<le> 0xDF then Some (1, 0x80, 0xBF)
      else if b = 0xE0 then Some (2, 0xA0, 0xBF)
      else if b = 0xED then Some (2, 0x80, 0x9F)
      else if 0xE1 \<le> b \<and> b \<le> 0xEF then Some (2, 0x80, 0xBF)
      else if b = 0xF0 then Some (3, 0x90, 0xBF)
      else if 0xF1 \<le> b \<and> b \<le> 0xF3 then Some (3, 0x80, 0xBF)
      else if b = 0xF4 then Some (3, 0x80, 0x8F)
      else None)"

function utf8_valid :: "bytes \<Rightarrow> bool" where
  "utf8_valid [] \<longleftrightarrow> True"
| "utf8_valid (b # bs) \<longleftrightarrow>
     (case utf8_tail b of
        None \<Rightarrow> False
      | Some (n, lo, hi) \<Rightarrow>
          utf8_cont bs n \<and> (n = 0 \<or> utf8_second bs lo hi) \<and> utf8_valid (drop n bs))"
  by pat_completeness auto
termination by (relation "measure length") auto

lemma utf8_ascii: "\<forall>b \<in> set bs. b < 0x80 \<Longrightarrow> utf8_valid bs"
  by (induction bs) (simp_all add: utf8_tail_def utf8_cont_def)

text \<open>A pointer to a name: null, or the bytes up to the terminating NUL.\<close>

definition c_name :: "bytes option \<Rightarrow> bytes option" where
  "c_name p = (case p of None \<Rightarrow> None | Some s \<Rightarrow> if utf8_valid s then Some s else None)"

section \<open>Handles\<close>

datatype bxdb_handle = Dummy | AppendHandle append_db | BtreeHandle btree_db

definition expect :: "'a res \<Rightarrow> 'a res" where
  "expect m = (case m of Inl _ \<Rightarrow> Inl Panic | Inr x \<Rightarrow> Inr x)"

lemma expect_simps [simp]: "expect (Inl e) = Inl Panic" "expect (Inr x) = Inr x"
  by (simp_all add: expect_def)

definition bxdb_init :: "bxdb_handle option" where
  "bxdb_init = Some Dummy"

text \<open>The file system \<open>fs\<close> gives the directory behind a name.\<close>

definition bxdb_open_for_append_only ::
  "(bytes \<Rightarrow> db_dir) \<Rightarrow> bytes option \<Rightarrow> int \<Rightarrow> u16 \<Rightarrow> bool \<Rightarrow> bxdb_handle option res" where
  "bxdb_open_for_append_only fs name worker_count delta_threshold use_shadow =
     (if name = None \<or> worker_count \<le> 0 then Inr None
      else case c_name name of
          None \<Rightarrow> Inr None
        | Some s \<Rightarrow>
            rbind (expect (append_open (fs s) (nat worker_count) delta_threshold use_shadow)) (\<lambda>db.
              Inr (Some (AppendHandle db))))"

definition bxdb_open_for_btree ::
  "(bytes \<Rightarrow> db_dir) \<Rightarrow> (bytes \<Rightarrow> cache_file option \<times> bytes) \<Rightarrow> bytes option \<Rightarrow> bxdb_handle option res" where
  "bxdb_open_for_btree fs shm name =
     (case c_name name of
        None \<Rightarrow> Inr None
      | Some s \<Rightarrow>
          (case shm s of (cache_file, identity) \<Rightarrow>
             rbind (expect (btree_db_open (fs s) cache_file identity)) (\<lambda>db. Inr (Some (BtreeHandle db)))))"

text \<open>Closing flushes a writer; the result is the directory it leaves, if it was one.\<close>

definition bxdb_close :: "bxdb_handle option \<Rightarrow> db_dir option" where
  "bxdb_close db =
     (case db of
        Some (AppendHandle w) \<Rightarrow> Some (dir_of (append_flush w))
      | _ \<Rightarrow> None)"

section \<open>Calls on a handle\<close>

definition saturating_mul :: "nat \<Rightarrow> nat \<Rightarrow> nat" where
  "saturating_mul a b = min (a * b) (2 ^ 64 - 1)"

text \<open>A call that does nothing returns; the result of a save is dropped unless it is an error.\<close>

definition bxdb_save_all_pages ::
  "scheduler \<Rightarrow> compressor \<Rightarrow> bxdb_handle option \<Rightarrow> bytes option \<Rightarrow> u64 \<Rightarrow> u32 \<Rightarrow> unit res \<times> bxdb_handle option" where
  "bxdb_save_all_pages sched zc db memory total_page_count snapshot_id =
     (case (db, memory) of
        (Some (AppendHandle w), Some m) \<Rightarrow>
          let mem = take (saturating_mul (unat total_page_count) PAGE_SIZE) m
          in (case save_all_pages sched zc mem total_page_count snapshot_id w of
                (r, w) \<Rightarrow> (expect r, Some (AppendHandle w)))
      | _ \<Rightarrow> (Inr (), db))"

definition bxdb_save_pages_with_bitmap ::
  "scheduler \<Rightarrow> compressor \<Rightarrow> bxdb_handle option \<Rightarrow> bytes option \<Rightarrow> u64 list option \<Rightarrow> u64 \<Rightarrow> u32 \<Rightarrow>
     unit res \<times> bxdb_handle option" where
  "bxdb_save_pages_with_bitmap sched zc db memory dirty_bitmap total_page_count snapshot_id =
     (case (db, memory, dirty_bitmap) of
        (Some (AppendHandle w), Some m, Some bm) \<Rightarrow>
          let mem = take (saturating_mul (unat total_page_count) PAGE_SIZE) m;
              bitmap_words = unat ((total_page_count + 63) div 64);
              bitmap = take bitmap_words bm
          in (case save_pages_with_bitmap sched zc mem bitmap total_page_count snapshot_id w of
                (r, w) \<Rightarrow> (expect r, Some (AppendHandle w)))
      | _ \<Rightarrow> (Inr (), db))"

text \<open>The returned flag, the page buffer, and the handle.\<close>

definition bxdb_load_page ::
  "cpu \<Rightarrow> decoder \<Rightarrow> bxdb_handle option \<Rightarrow> bytes option \<Rightarrow> u64 \<Rightarrow> u32 \<Rightarrow>
     (bool \<times> bytes option) res \<times> bxdb_handle option" where
  "bxdb_load_page cpu zd db page pa snapshot_id =
     (case (db, page) of
        (Some (BtreeHandle r), Some out) \<Rightarrow>
          (case load_page cpu zd r out pa snapshot_id of
             (res, r) \<Rightarrow>
               (rbind (expect res) (\<lambda>p. case p of None \<Rightarrow> Inr (False, page) | Some out \<Rightarrow> Inr (True, Some out)),
                Some (BtreeHandle r)))
      | _ \<Rightarrow> (Inr (False, page), db))"

definition bxdb_load_all_pages ::
  "decoder \<Rightarrow> (bytes \<Rightarrow> bytes) \<Rightarrow> bxdb_handle option \<Rightarrow> bytes option \<Rightarrow> bool \<Rightarrow> u64 \<Rightarrow> u64 \<Rightarrow> u32 \<Rightarrow> int \<Rightarrow>
     (bool \<times> bytes option) res" where
  "bxdb_load_all_pages zd discard db pages aligned pa_offset total_page_count snapshot_id worker_count =
     (case (db, pages) of
        (Some (AppendHandle w), Some m) \<Rightarrow>
          let len = saturating_mul (unat total_page_count) PAGE_SIZE
          in rbind (expect (load_all_pages zd discard (dir_of w) (take len m) aligned pa_offset total_page_count
                 snapshot_id (nat (max worker_count 1)))) (\<lambda>(out, found).
               Inr (found, Some (out @ drop len m)))
      | _ \<Rightarrow> Inr (False, pages))"

section \<open>The cache directories\<close>

text \<open>
  \<open>/dev/shm/bxdb/<hash>/\<close> for every hash: the cache file and whether anything else lies beside
  it. The hash of the canonical path and its inode (\<open>rustc_hash\<close>, \<open>stat\<close>) is the
  parameter \<open>hash\<close>, \<open>canonicalize\<close> with its fallback the parameter \<open>canonicalize\<close>.
\<close>

record shm_dir =
  sd_cache :: "cache_file option"
  sd_others :: bool

type_synonym shm = "u64 \<Rightarrow> shm_dir option"

definition shm_cache_path :: "(bytes \<Rightarrow> u64) \<Rightarrow> shm \<Rightarrow> bytes \<Rightarrow> u64 \<times> shm_dir \<times> shm" where
  "shm_cache_path hash shm dir =
     (let h = hash dir;
          d = (case shm h of None \<Rightarrow> \<lparr>sd_cache = None, sd_others = False\<rparr> | Some d \<Rightarrow> d)
      in (h, d, shm(h \<mapsto> d)))"

definition bxdb_cache_create ::
  "(bytes \<Rightarrow> u64) \<Rightarrow> (bytes \<Rightarrow> bytes) \<Rightarrow> shm \<Rightarrow> bytes option \<Rightarrow> bool res \<times> shm" where
  "bxdb_cache_create hash canonicalize shm name =
     (case c_name name of
        None \<Rightarrow> (Inr False, shm)
      | Some s \<Rightarrow>
          let canonical = canonicalize s
          in case shm_cache_path hash shm canonical of
               (h, d, shm) \<Rightarrow> (Inr True, shm(h \<mapsto> d\<lparr>sd_cache := Some (cache_create (sd_cache d) canonical)\<rparr>)))"

definition bxdb_cache_delete ::
  "(bytes \<Rightarrow> u64) \<Rightarrow> (bytes \<Rightarrow> bytes) \<Rightarrow> shm \<Rightarrow> bytes option \<Rightarrow> bool res \<times> shm" where
  "bxdb_cache_delete hash canonicalize shm name =
     (case c_name name of
        None \<Rightarrow> (Inr False, shm)
      | Some s \<Rightarrow>
          case shm_cache_path hash shm (canonicalize s) of
            (h, d, shm) \<Rightarrow>
              if sd_cache d = None then (Inl Panic, shm)
              else if sd_others d then (Inl Panic, shm(h \<mapsto> d\<lparr>sd_cache := None\<rparr>))
              else (Inr True, shm(h := None)))"

section \<open>A session through the interface\<close>

text \<open>Saves through the interface, up to the first that aborts.\<close>

fun capi_save :: "scheduler \<Rightarrow> compressor \<Rightarrow> save_op \<Rightarrow> bxdb_handle option \<Rightarrow> unit res \<times> bxdb_handle option" where
  "capi_save sched zc (SaveAll mem n s) db = bxdb_save_all_pages sched zc db (Some mem) n s"
| "capi_save sched zc (SaveDirty mem bm n s) db = bxdb_save_pages_with_bitmap sched zc db (Some mem) (Some bm) n s"

fun capi_saves :: "compressor \<Rightarrow> (scheduler \<times> save_op) list \<Rightarrow> bxdb_handle option \<Rightarrow> unit res \<times> bxdb_handle option" where
  "capi_saves zc [] db = (Inr (), db)"
| "capi_saves zc ((sched, op) # ops) db =
     (case capi_save sched zc op db of (Inl e, db) \<Rightarrow> (Inl e, db) | (Inr _, db) \<Rightarrow> capi_saves zc ops db)"

lemma saturating_mul_fits: "unat (n :: u64) \<le> 2 ^ 45 \<Longrightarrow> saturating_mul (unat n) PAGE_SIZE = unat n * PAGE_SIZE"
  by (simp add: saturating_mul_def PAGE_SIZE_def)

lemma capi_save_eq:
  assumes "op_fits op"
  shows "capi_save sched zc op (Some (AppendHandle w)) =
    (case run_save sched zc op w of (r, w) \<Rightarrow> (expect r, Some (AppendHandle w)))"
proof (cases op)
  case (SaveAll mem n s)
  with assms show ?thesis by (simp add: bxdb_save_all_pages_def saturating_mul_fits)
next
  case (SaveDirty mem bm n s)
  have n: "unat n \<le> 2 ^ 45" "(unat n + 63) div 64 \<le> length bm" using assms SaveDirty by simp_all
  have "unat (n + 63) = unat n + 63" using n(1) by (simp add: unat_word_ariths)
  then have words: "unat ((n + 63) div 64) = (unat n + 63) div 64" by (simp add: unat_div)
  have "save_pages_with_bitmap sched zc mem (take ((unat n + 63) div 64) bm) n s w =
      save_pages_with_bitmap sched zc mem bm n s w"
    using n(2) by (simp add: save_pages_with_bitmap_def Let_def split: prod.splits sum.splits)
  with assms SaveDirty show ?thesis
    by (simp add: bxdb_save_pages_with_bitmap_def saturating_mul_fits words)
qed

lemma capi_saves_eq:
  "saves_fit l ops \<Longrightarrow> capi_saves zc ops (Some (AppendHandle w)) =
     (case run_saves zc ops w of (r, w) \<Rightarrow> (expect r, Some (AppendHandle w)))"
proof (induction ops arbitrary: l w)
  case (Cons a ops)
  obtain sched op where a: "a = (sched, op)" by fastforce
  have op: "op_fits op" "saves_fit (Some (op_snapshot op)) ops" using Cons.prems by (simp_all add: a)
  obtain r v where run: "run_save sched zc op w = (r, v)" by fastforce
  with Cons.IH [OF op(2), of v] show ?case
    by (cases r) (simp_all add: a capi_save_eq [OF op(1)])
qed simp

text \<open>The directory a session leaves, opened and closed through the interface.\<close>

lemma capi_session:
  assumes "utf8_valid name" "0 < n" "write_session zc (nat n) thr use_shadow ops (fs name) = Inr dir'"
    and "saves_fit l ops"
  shows "\<exists>hdl hdl'. bxdb_open_for_append_only fs (Some name) n thr use_shadow = Inr hdl \<and>
    capi_saves zc ops hdl = (Inr (), hdl') \<and> bxdb_close hdl' = Some dir'"
proof -
  obtain db where db: "append_open (fs name) (nat n) thr use_shadow = Inr db"
    using assms(3) by (auto simp: write_session_def rbind_eq_Inr_iff)
  obtain r db' where run: "run_saves zc ops db = (r, db')" by fastforce
  with assms(3) db have fin: "r = Inr ()" "dir' = dir_of (append_flush db')"
    by (auto simp: write_session_def split: sum.splits)
  have "bxdb_open_for_append_only fs (Some name) n thr use_shadow = Inr (Some (AppendHandle db))"
    using assms(1,2) db by (simp add: bxdb_open_for_append_only_def c_name_def)
  moreover have "capi_saves zc ops (Some (AppendHandle db)) = (Inr (), Some (AppendHandle db'))"
    using capi_saves_eq [OF assms(4), of zc db] run fin(1) by simp
  ultimately show ?thesis using fin(2) by (auto simp: bxdb_close_def)
qed

lemma capi_read:
  assumes "utf8_valid name" "fs name = dir" "read_session cpu zd dir page pa s = Inr r"
  shows "\<exists>hdl. bxdb_open_for_btree fs shm (Some name) = Inr hdl \<and>
    fst (bxdb_load_page cpu zd hdl (Some page) pa s) =
      Inr (case r of None \<Rightarrow> (False, Some page) | Some p \<Rightarrow> (True, Some p))"
proof -
  obtain db where db: "btree_db_open dir None [] = Inr db" "fst (load_page cpu zd db page pa s) = Inr r"
    using assms(3) by (auto simp: read_session_def rbind_eq_Inr_iff)
  then have "btree_db_open dir cf ident = Inr db" for cf ident
    by (simp add: btree_db_open_def DISABLE_SHARED_CACHE_def)
  with assms(1,2) db(2) show ?thesis
    by (auto simp: bxdb_open_for_btree_def c_name_def bxdb_load_page_def split: prod.splits option.splits)
qed

section \<open>Properties\<close>

lemma capi_save_stale:
  assumes "MAX_SNAPSHOT_ID < op_snapshot op \<or> (\<exists>l. ad_last w = Some l \<and> op_snapshot op \<le> l)"
  shows "capi_save sched zc op (Some (AppendHandle w)) = (Inl Panic, Some (AppendHandle w))"
  using stale_begin [OF assms]
  by (cases op)
    (simp_all add: bxdb_save_all_pages_def bxdb_save_pages_with_bitmap_def save_all_pages_def
      save_pages_with_bitmap_def Let_def)

text \<open>A C caller gets no error code. On a database that is in order a save whose
  buffers fit returns when its snapshot is in range and above the last one, and otherwise
  aborts the calling process; opening with more than 255 workers aborts as well.\<close>

theorem capi_aborts:
  assumes "db_inv zd h w rs" "zstd_ok zc zd" "schedule_ok sched" "blob_room (length (op_pages op)) (ad_blobs w)"
    and "op_fits op \<or> MAX_SNAPSHOT_ID < op_snapshot op"
  shows "fst (capi_save sched zc op (Some (AppendHandle w))) =
      (if MAX_SNAPSHOT_ID < op_snapshot op \<or> (\<exists>l. ad_last w = Some l \<and> op_snapshot op \<le> l) then Inl Panic else Inr ()) \<and>
    bxdb_open_for_append_only fs (Some []) 256 thr use_shadow = Inl Panic"
proof
  show "bxdb_open_for_append_only fs (Some []) 256 thr use_shadow = Inl Panic"
    by (simp add: bxdb_open_for_append_only_def c_name_def append_open_def)
  show "fst (capi_save sched zc op (Some (AppendHandle w))) =
      (if MAX_SNAPSHOT_ID < op_snapshot op \<or> (\<exists>l. ad_last w = Some l \<and> op_snapshot op \<le> l) then Inl Panic else Inr ())"
  proof (cases "MAX_SNAPSHOT_ID < op_snapshot op \<or> (\<exists>l. ad_last w = Some l \<and> op_snapshot op \<le> l)")
    case True
    then show ?thesis by (simp add: capi_save_stale)
  next
    case False
    then have fits: "op_fits op" and newer: "\<forall>l. ad_last w = Some l \<longrightarrow> l < op_snapshot op" using assms(5) by auto
    from run_save_spec [OF assms(1-3) fits newer, of 0] assms(4) obtain db' where "run_save sched zc op w = (Inr (), db')" by auto
    with False show ?thesis by (simp add: capi_save_eq [OF fits])
  qed
qed

theorem capi_aborts_witness:
  "fst (capi_save id Some (SaveAll (replicate PAGE_SIZE 1) 1 7) (Some (AppendHandle (new_db 0 True)))) = Inr () \<and>
   fst (capi_save id Some (SaveAll (replicate PAGE_SIZE 1) 1 (2 ^ 20)) (Some (AppendHandle (new_db 0 True)))) = Inl Panic"
proof -
  have db: "db_inv Some [] (new_db 0 True) []" "blob_room 1 (ad_blobs (new_db 0 True))"
    by (simp_all add: new_db_inv COMPRESS_CAP_def)
  have zstd: "zstd_ok Some Some" by (simp add: zstd_ok_def COMPRESS_CAP_def PAGE_SIZE_def)
  have sched: "schedule_ok (id :: scheduler)" by (simp add: schedule_ok_def)
  have op: "blob_room (length (op_pages (SaveAll (replicate PAGE_SIZE 1) 1 s))) (ad_blobs (new_db 0 True))" for s
    using db(2) by simp
  have max: "7 \<le> MAX_SNAPSHOT_ID" "MAX_SNAPSHOT_ID < 2 ^ 20"
    by (simp_all add: snapshot_le_max_unat MAX_SNAPSHOT_ID_def SNAPSHOT_BITS_def)
  have fits: "op_fits (SaveAll (replicate PAGE_SIZE 1) 1 7) \<or> MAX_SNAPSHOT_ID < op_snapshot (SaveAll (replicate PAGE_SIZE 1) 1 7)"
    "op_fits (SaveAll (replicate PAGE_SIZE 1) 1 (2 ^ 20)) \<or> MAX_SNAPSHOT_ID < op_snapshot (SaveAll (replicate PAGE_SIZE 1) 1 (2 ^ 20))"
    using max by simp_all
  have none: "ad_last (new_db 0 True) = None" by (simp add: new_db_def)
  from capi_aborts [OF db(1) zstd sched op fits(1)] capi_aborts [OF db(1) zstd sched op fits(2)] max none
  show ?thesis by (simp add: not_less)
qed

end
