(* ===== verification/Raw.thy ===== *)
theory Raw
  imports Text Load
begin

text \<open>
  The exporter \<open>bxdb-core/src/bin/convert_to_raw.rs\<close>: it streams the log in order, keeps the
  memory of the current snapshot in one buffer, and at every snapshot boundary writes a file
  with the pages the snapshot touched. The chain of files is read backwards: a page of a
  snapshot is in the newest file up to it that lists the page.
\<close>

section \<open>One raw file\<close>

definition ALIGN :: u64 where "ALIGN = 4096"

text \<open>A slice out of range panics.\<close>

fun slice_pages :: "bytes \<Rightarrow> u64 list \<Rightarrow> bytes list res" where
  "slice_pages memory [] = Inr []"
| "slice_pages memory (a # as) =
     rbind (ok_or (get_range memory (unat a) (unat a + PAGE_SIZE)) Panic) (\<lambda>page.
     rbind (slice_pages memory as) (\<lambda>pages. Inr (page # pages)))"

definition raw_data_off :: "u64 \<Rightarrow> u64" where
  "raw_data_off num = ((8 + num * 8) + (ALIGN - 1)) AND NOT (ALIGN - 1)"

definition write_raw_file :: "u64 list \<Rightarrow> bytes \<Rightarrow> bytes res" where
  "write_raw_file addrs memory =
     (let num = of_nat (length addrs);
          data_off = raw_data_off num;
          head = to_le 8 num @ concat (map (to_le 8) addrs);
          pad = data_off - of_nat (length head)
      in rbind (slice_pages memory addrs) (\<lambda>pages.
           Inr (head @ (if 0 < pad then replicate (unat pad) 0 else []) @ concat pages)))"

text \<open>The filter over the dirty pages: zero pages are left out of snapshot 0 only.\<close>

fun dirty_addrs :: "u32 \<Rightarrow> bytes \<Rightarrow> u64 list \<Rightarrow> u64 list res" where
  "dirty_addrs snap_id buf [] = Inr []"
| "dirty_addrs snap_id buf (pa # pas) =
     (let off = unat pa * PAGE_SIZE
      in rbind (if snap_id = 0
             then rbind (ok_or (get_range buf off (off + PAGE_SIZE)) Panic) (\<lambda>page. Inr (\<not> list_all (\<lambda>b. b = 0) page))
             else Inr True) (\<lambda>keep.
         rbind (dirty_addrs snap_id buf pas) (\<lambda>addrs. Inr (if keep then pa * of_nat PAGE_SIZE # addrs else addrs))))"

section \<open>The stream\<close>

text \<open>The variables of \<open>main\<close>, and the chain directory as a map from file number to content.\<close>

record raw_state =
  rw_buf :: bytes
  rw_snap :: u32
  rw_last_pa :: u64
  rw_dirty :: "u64 set"
  rw_chain :: "u32 \<Rightarrow> bytes option"

definition flush_snapshot :: "raw_state \<Rightarrow> raw_state res" where
  "flush_snapshot st =
     rbind (dirty_addrs (rw_snap st) (rw_buf st) (sorted_list_of_set (rw_dirty st))) (\<lambda>addrs.
     rbind (write_raw_file addrs (rw_buf st)) (\<lambda>f. Inr (st\<lparr>rw_chain := (rw_chain st)(rw_snap st \<mapsto> f)\<rparr>)))"

text \<open>An I/O error while a chunk is resolved ends the stream (\<open>None\<close>); a panic stays one.\<close>

definition or_truncate :: "'a res \<Rightarrow> ('a \<Rightarrow> 'b option res) \<Rightarrow> 'b option res" where
  "or_truncate m f = rbind (res_ok m) (\<lambda>r. case r of None \<Rightarrow> Inr None | Some x \<Rightarrow> f x)"

definition raw_resolve :: "decoder \<Rightarrow> page_store \<Rightarrow> chunk_record \<Rightarrow> bytes \<Rightarrow> bytes option res" where
  "raw_resolve zd store rec dst =
     (case r_kind rec of
        Full \<Rightarrow> or_truncate (decompress_blob_into zd store rec dst) (\<lambda>page. Inr (Some page))
      | Delta \<Rightarrow>
          or_truncate (exact_lookup store (r_base_key rec)) (\<lambda>r.
            case r of
              None \<Rightarrow> Inr None
            | Some base_rec \<Rightarrow>
                if r_kind base_rec \<noteq> Full then Inr None
                else
                  or_truncate (decompress_blob_into zd store base_rec (replicate PAGE_SIZE 0)) (\<lambda>base.
                  or_truncate (delta_blob_of store rec) (\<lambda>delta_blob.
                  or_truncate (apply_delta_patch base delta_blob dst) (\<lambda>page. Inr (Some page)))))
      | Zero \<Rightarrow> Inr (Some (replicate PAGE_SIZE 0)))"

text \<open>The body of the loop: whether to go on, and the new state.\<close>

definition raw_step :: "decoder \<Rightarrow> page_store \<Rightarrow> raw_state \<Rightarrow> chunk_record \<Rightarrow> (bool \<times> raw_state) res" where
  "raw_step zd store st rec =
     (let pa = pa_of (r_key rec); snap = snapshot_of (r_key rec); off = unat pa * PAGE_SIZE
      in if snap < rw_snap st then Inl Panic
         else rbind
           (if snap \<noteq> rw_snap st then
              rbind (flush_snapshot st) (\<lambda>st. Inr (st\<lparr>rw_dirty := {}, rw_snap := snap, rw_last_pa := pa\<rparr>))
            else if pa < rw_last_pa st then Inl Panic
            else Inr (st\<lparr>rw_last_pa := pa\<rparr>)) (\<lambda>st.
           let st = st\<lparr>rw_dirty := insert pa (rw_dirty st)\<rparr>
           in rbind (ok_or (get_range (rw_buf st) off (off + PAGE_SIZE)) Panic) (\<lambda>dst.
              rbind (raw_resolve zd store rec dst) (\<lambda>r.
                case r of
                  None \<Rightarrow> Inr (False, st)
                | Some page \<Rightarrow> Inr (True, st\<lparr>rw_buf := copy_at off page (rw_buf st)\<rparr>)))))"

text \<open>The loop: whether it was truncated, and the last state.\<close>

function raw_loop :: "decoder \<Rightarrow> page_store \<Rightarrow> bytes \<Rightarrow> raw_state \<Rightarrow> (bool \<times> raw_state) res" where
  "raw_loop zd store s st =
     (case read_from s of
        Inl e \<Rightarrow> Inl Panic
      | Inr None \<Rightarrow> Inr (False, st)
      | Inr (Some (rec, rest)) \<Rightarrow>
          rbind (raw_step zd store st rec) (\<lambda>(go, st).
            if go then raw_loop zd store rest st else Inr (True, st)))"
  by pat_completeness auto
termination
  by (relation "measure (\<lambda>(zd, store, s, st). length s)") (auto dest: read_from_consumes)

declare raw_loop.simps [simp del]

text \<open>The files written: the chain and the line of \<open>raw-meta\<close>.\<close>

record raw_output =
  ro_chain :: "u32 \<Rightarrow> bytes option"
  ro_meta :: string

definition raw_finish :: "bool \<times> raw_state \<Rightarrow> raw_output res" where
  "raw_finish = (\<lambda>(truncated, st).
     rbind (if truncated then Inr st else flush_snapshot st) (\<lambda>st.
       let max_snap = (if truncated then (if rw_snap st = 0 then 0 else rw_snap st - 1) else rw_snap st)
       in Inr \<lparr>ro_chain = rw_chain st, ro_meta = ''current_snap_id='' @ show_dec (unat max_snap) @ [CHR 0x0A]\<rparr>))"

text \<open>
  \<open>main\<close>: an exit code, or the output. \<open>dir\<close> is the database directory named by the first
  argument and \<open>old\<close> what the chain directory held before.
\<close>

definition raw_main :: "decoder \<Rightarrow> db_dir \<Rightarrow> (u32 \<Rightarrow> bytes option) \<Rightarrow> string list \<Rightarrow> (nat + raw_output) res" where
  "raw_main zd dir old args =
     (if length args \<noteq> 4 then Inr (Inl 1)
      else
        rbind (ok_or (parse_word 10 (args ! 3)) Panic) (\<lambda>memory_size :: u64.
          if memory_size = 0 \<or> memory_size mod of_nat PAGE_SIZE \<noteq> 0 then Inr (Inl 1)
          else
            case (page_store_open dir, dd_log dir) of
              (Inr store, Some log) \<Rightarrow>
                (case read_exact HEADER_SIZE log of
                   None \<Rightarrow> Inl Panic
                 | Some (header, rest) \<Rightarrow>
                     if rslice 0 8 header \<noteq> MAGIC_LOG then Inl Panic
                     else
                       rbind (raw_loop zd store rest
                           \<lparr>rw_buf = replicate (unat memory_size) 0, rw_snap = 0, rw_last_pa = 0, rw_dirty = {},
                            rw_chain = old\<rparr>) (\<lambda>r.
                       rbind (raw_finish r) (\<lambda>out. Inr (Inr out))))
            | _ \<Rightarrow> Inl Panic))"

section \<open>Reading a chain\<close>

text \<open>The format as a reader sees it: the number of pages, their addresses, their data.\<close>

definition raw_count :: "bytes \<Rightarrow> u64" where
  "raw_count f = from_le (rslice 0 8 f)"

definition raw_addr :: "bytes \<Rightarrow> nat \<Rightarrow> u64" where
  "raw_addr f i = from_le (rslice (8 + 8 * i) (16 + 8 * i) f)"

definition raw_data :: "bytes \<Rightarrow> nat \<Rightarrow> bytes" where
  "raw_data f i =
     (let off = unat (raw_data_off (raw_count f)) + i * PAGE_SIZE in rslice off (off + PAGE_SIZE) f)"

definition raw_page :: "bytes \<Rightarrow> u64 \<Rightarrow> bytes option" where
  "raw_page f pa =
     map_option (raw_data f) (find (\<lambda>i. raw_addr f i = pa * of_nat PAGE_SIZE) [0..<unat (raw_count f)])"

text \<open>The backward search from file \<open>n\<close> on.\<close>

definition in_file :: "(u32 \<Rightarrow> bytes option) \<Rightarrow> u64 \<Rightarrow> nat \<Rightarrow> bytes option" where
  "in_file chain pa n = (case chain (of_nat n) of None \<Rightarrow> None | Some f \<Rightarrow> raw_page f pa)"

fun chain_page :: "(u32 \<Rightarrow> bytes option) \<Rightarrow> u64 \<Rightarrow> nat \<Rightarrow> bytes" where
  "chain_page chain pa n =
     (case in_file chain pa n of
        Some page \<Rightarrow> page
      | None \<Rightarrow> (case n of 0 \<Rightarrow> replicate PAGE_SIZE 0 | Suc m \<Rightarrow> chain_page chain pa m))"

declare chain_page.simps [simp del]

section \<open>The layout of a file\<close>

lemma concat_fixed_rslice:
  assumes "\<forall>x \<in> set xs. length (f x) = k" "i < length xs"
  shows "rslice (i * k) (i * k + k) (concat (map f xs) @ t) = f (xs ! i)"
  using assms
proof (induction xs arbitrary: i)
  case (Cons x xs)
  then have IH: "i < length xs \<Longrightarrow> rslice (i * k) (i * k + k) (concat (map f xs) @ t) = f (xs ! i)" for i by auto
  show ?case
  proof (cases i)
    case 0
    with Cons.prems show ?thesis by (simp add: rslice_def)
  next
    case (Suc j)
    with Cons.prems IH [of j] show ?thesis by (simp add: rslice_append_right add.commute)
  qed
qed simp

lemma raw_data_off_eq:
  assumes "n < 2 ^ 60"
  shows "unat (raw_data_off (of_nat n)) = (8 + n * 8 + 4095) div 4096 * 4096"
proof -
  define w :: u64 where "w = of_nat (8 + n * 8 + 4095)"
  have w: "unat w = 8 + n * 8 + 4095"
    using assms unfolding w_def by (simp only: unat_of_nat) (simp add: take_bit_nat_eq_self_iff)
  have "raw_data_off (of_nat n) = w AND NOT (mask 12)"
    by (simp add: raw_data_off_def ALIGN_def mask_eq_exp_minus_1 w_def algebra_simps)
  also have "\<dots> = push_bit 12 (drop_bit 12 w)"
    by (rule bit_word_eqI) (auto simp: bit_simps)
  finally have off: "raw_data_off (of_nat n) = push_bit 12 (drop_bit 12 w)" .
  have d: "unat (drop_bit 12 w) = unat w div 4096"
    by (simp add: drop_bit_eq_div unat_div)
  have "unat w div 4096 * 4096 \<le> unat w" by simp
  then have "unat w div 4096 * 4096 < 2 ^ 64" using unsigned_less [of w, where ?'a = nat] by simp
  then show ?thesis
    unfolding off push_bit_eq_mult w [symmetric]
    by (simp add: unat_word_ariths d mult.commute)
qed

lemma slice_pages_eq:
  "slice_pages mem addrs = (if \<forall>a \<in> set addrs. unat a + PAGE_SIZE \<le> length mem
     then Inr (map (\<lambda>a. rslice (unat a) (unat a + PAGE_SIZE) mem) addrs) else Inl Panic)"
  by (induction addrs) (auto simp: get_range_def)

text \<open>A file as it is written: head, padding up to an aligned offset, pages.\<close>

lemma raw_file_parts:
  assumes "length addrs < 2 ^ 60" "\<forall>a \<in> set addrs. unat a + PAGE_SIZE \<le> length mem"
  shows "\<exists>pad. write_raw_file addrs mem = Inr (to_le 8 (of_nat (length addrs) :: u64) @ concat (map (to_le 8) addrs) @
      replicate pad 0 @ concat (map (\<lambda>a. rslice (unat a) (unat a + PAGE_SIZE) mem) addrs)) \<and>
    unat (raw_data_off (of_nat (length addrs))) = 8 + 8 * length addrs + pad"
proof -
  let ?n = "length addrs"
  let ?head = "to_le 8 (of_nat ?n :: u64) @ concat (map (to_le 8) addrs)"
  have "length (concat (map (to_le 8) addrs)) = 8 * ?n" by (induction addrs) auto
  then have len: "length ?head = 8 + 8 * ?n" by simp
  note off = raw_data_off_eq [OF assms(1)]
  have ge: "8 + 8 * ?n \<le> (8 + ?n * 8 + 4095) div 4096 * 4096"
  proof -
    have "8 + ?n * 8 + 4095 = (8 + ?n * 8 + 4095) div 4096 * 4096 + (8 + ?n * 8 + 4095) mod 4096" by simp
    moreover have "(8 + ?n * 8 + 4095) mod 4096 \<le> 4095" by (rule less_Suc_eq_le [THEN iffD1]) simp
    ultimately show ?thesis by linarith
  qed
  let ?pad = "raw_data_off (of_nat ?n) - of_nat (length ?head)"
  have small: "unat (of_nat (length ?head) :: u64) = 8 + 8 * ?n"
    unfolding len using assms(1) by (simp only: unat_of_nat) (simp add: take_bit_nat_eq_self_iff)
  then have "unat ?pad = unat (raw_data_off (of_nat ?n)) - (8 + 8 * ?n)"
    using ge off by (subst unat_sub) (simp_all add: word_le_nat_alt)
  then have "unat (raw_data_off (of_nat ?n)) = 8 + 8 * ?n + unat ?pad"
    using ge off by simp
  moreover have "(if 0 < ?pad then replicate (unat ?pad) 0 else []) = replicate (unat ?pad) (0 :: byte)"
    by (auto simp: word_gt_0 unat_eq_0)
  ultimately show ?thesis
    using assms(2) unfolding write_raw_file_def Let_def
    by (intro exI [of _ "unat ?pad"]) (simp add: slice_pages_eq)
qed

lemma raw_file_layout:
  assumes "length addrs < 2 ^ 60" "\<forall>a \<in> set addrs. unat a + PAGE_SIZE \<le> length mem"
  shows "\<exists>f. write_raw_file addrs mem = Inr f \<and> raw_count f = of_nat (length addrs) \<and>
    (\<forall>i < length addrs. raw_addr f i = addrs ! i \<and>
       raw_data f i = rslice (unat (addrs ! i)) (unat (addrs ! i) + PAGE_SIZE) mem)"
proof -
  let ?n = "length addrs" and ?page = "\<lambda>a. rslice (unat a) (unat a + PAGE_SIZE) mem"
  obtain pad where f: "write_raw_file addrs mem = Inr (to_le 8 (of_nat ?n :: u64) @ concat (map (to_le 8) addrs) @
      replicate pad 0 @ concat (map ?page addrs))"
    and off: "unat (raw_data_off (of_nat ?n)) = 8 + 8 * ?n + pad"
    using raw_file_parts [OF assms] by blast
  let ?f = "to_le 8 (of_nat ?n :: u64) @ concat (map (to_le 8) addrs) @ replicate pad 0 @ concat (map ?page addrs)"
  have len: "length (concat (map (to_le 8) addrs)) = 8 * ?n" by (induction addrs) auto
  have count: "raw_count ?f = of_nat ?n"
    by (simp add: raw_count_def rslice_append_left rslice_full from_le_to_le)
  have "raw_addr ?f i = addrs ! i" if "i < ?n" for i
  proof -
    have "rslice (8 + 8 * i) (16 + 8 * i) ?f = to_le 8 (addrs ! i)"
      using concat_fixed_rslice [of addrs "to_le 8" 8 i] that
      by (simp add: rslice_append_right mult.commute add.commute)
    then show ?thesis by (simp add: raw_addr_def from_le_to_le)
  qed
  moreover have "raw_data ?f i = ?page (addrs ! i)" if "i < ?n" for i
  proof -
    have page: "\<forall>a \<in> set addrs. length (?page a) = PAGE_SIZE" using assms(2) by auto
    let ?pre = "to_le 8 (of_nat ?n :: u64) @ concat (map (to_le 8) addrs) @ replicate pad (0 :: byte)"
    have "length ?pre = 8 + 8 * ?n + pad" by (simp add: len)
    then have "rslice (8 + 8 * ?n + pad + i * PAGE_SIZE) (8 + 8 * ?n + pad + i * PAGE_SIZE + PAGE_SIZE)
        (?pre @ concat (map ?page addrs)) = rslice (i * PAGE_SIZE) (i * PAGE_SIZE + PAGE_SIZE) (concat (map ?page addrs))"
      by (subst rslice_append_right) simp_all
    also have "\<dots> = ?page (addrs ! i)" using concat_fixed_rslice [OF page that, of "[]"] by simp
    finally show ?thesis by (simp add: raw_data_def count off Let_def)
  qed
  ultimately show ?thesis using f count by blast
qed

text \<open>Which page of memory a file gives for an address.\<close>

lemma raw_page_written:
  assumes "length addrs < 2 ^ 60" "\<forall>a \<in> set addrs. unat a + PAGE_SIZE \<le> length mem"
    and f: "write_raw_file addrs mem = Inr f"
  shows "raw_page f pa = (if pa * of_nat PAGE_SIZE \<in> set addrs
    then Some (rslice (unat (pa * of_nat PAGE_SIZE)) (unat (pa * of_nat PAGE_SIZE) + PAGE_SIZE) mem) else None)"
proof -
  let ?a = "pa * of_nat PAGE_SIZE" and ?n = "length addrs"
  have lay: "raw_count f = of_nat ?n" "\<And>i. i < ?n \<Longrightarrow> raw_addr f i = addrs ! i"
    "\<And>i. i < ?n \<Longrightarrow> raw_data f i = rslice (unat (addrs ! i)) (unat (addrs ! i) + PAGE_SIZE) mem"
    using raw_file_layout [OF assms(1,2)] f by auto
  have n: "unat (of_nat ?n :: u64) = ?n" using assms(1) by (simp add: unat_of_nat take_bit_nat_eq_self_iff)
  let ?find = "find (\<lambda>i. raw_addr f i = ?a) [0..<?n]"
  show ?thesis
  proof (cases ?find)
    case None
    then have "\<forall>i < ?n. addrs ! i \<noteq> ?a" using lay(2) by (auto simp: find_None_iff)
    then have "?a \<notin> set addrs" by (auto simp: in_set_conv_nth)
    with None show ?thesis by (simp add: raw_page_def lay(1) n)
  next
    case (Some i)
    then have i: "i < ?n" "addrs ! i = ?a" using lay(2) by (auto simp: find_Some_iff)
    then have "?a \<in> set addrs" by (auto simp: in_set_conv_nth)
    with Some i lay(3) show ?thesis by (simp add: raw_page_def lay(1) n)
  qed
qed

section \<open>The chain after a prefix of the log\<close>

text \<open>
  The page the newest of the records \<open>rs\<close> up to snapshot \<open>s\<close> stands for, by a page
  function \<open>P\<close>; a page without record is zero.
\<close>

definition version_at :: "(chunk_record \<Rightarrow> bytes) \<Rightarrow> chunk_record list \<Rightarrow> u64 \<Rightarrow> u32 \<Rightarrow> bytes" where
  "version_at P rs pa s =
     (case find (\<lambda>r. pa_of (r_key r) = pa \<and> snapshot_of (r_key r) \<le> s) (rev rs) of
        None \<Rightarrow> replicate PAGE_SIZE 0
      | Some r \<Rightarrow> P r)"

text \<open>Records in the order the writer logs them: by snapshot, then by page.\<close>

definition before :: "chunk_record \<Rightarrow> chunk_record \<Rightarrow> bool" where
  "before a b \<longleftrightarrow> snapshot_of (r_key a) < snapshot_of (r_key b) \<or>
     snapshot_of (r_key a) = snapshot_of (r_key b) \<and> pa_of (r_key a) < pa_of (r_key b)"

lemma version_at_snoc:
  "version_at P (rs @ [r]) pa s =
     (if pa_of (r_key r) = pa \<and> snapshot_of (r_key r) \<le> s then P r else version_at P rs pa s)"
  by (simp add: version_at_def)

lemma version_at_cong:
  assumes "\<And>r. r \<in> set rs \<Longrightarrow> pa_of (r_key r) = pa \<Longrightarrow> snapshot_of (r_key r) \<le> s \<longleftrightarrow> snapshot_of (r_key r) \<le> t"
  shows "version_at P rs pa s = version_at P rs pa t"
proof -
  have "find (\<lambda>r. pa_of (r_key r) = pa \<and> snapshot_of (r_key r) \<le> s) (rev rs) =
      find (\<lambda>r. pa_of (r_key r) = pa \<and> snapshot_of (r_key r) \<le> t) (rev rs)"
    by (rule find_cong) (use assms in auto)
  then show ?thesis by (simp add: version_at_def)
qed

lemma version_at_none:
  "\<forall>r \<in> set rs. pa_of (r_key r) = pa \<longrightarrow> s < snapshot_of (r_key r) \<Longrightarrow> version_at P rs pa s = replicate PAGE_SIZE 0"
  by (subst version_at_def, subst find_None_iff [THEN iffD2]) (auto simp: not_le)

text \<open>
  The state after the records \<open>rs\<close>: the buffer is memory as of the last of them, the dirty
  set is what its snapshot touched, the files before it give every older version, and there
  is no file from it on.
\<close>

definition raw_inv :: "(chunk_record \<Rightarrow> bytes) \<Rightarrow> nat \<Rightarrow> chunk_record list \<Rightarrow> raw_state \<Rightarrow> bool" where
  "raw_inv P n rs st \<longleftrightarrow>
     length (rw_buf st) = n * PAGE_SIZE \<and>
     (\<forall>r \<in> set rs. snapshot_of (r_key r) \<le> rw_snap st \<and> unat (pa_of (r_key r)) < n) \<and>
     (\<forall>pa. unat pa < n \<longrightarrow> slot_at (unat pa) (rw_buf st) = version_at P rs pa (rw_snap st)) \<and>
     rw_dirty st = {pa_of (r_key r) | r. r \<in> set rs \<and> snapshot_of (r_key r) = rw_snap st} \<and>
     (\<forall>s pa. s < rw_snap st \<longrightarrow> unat pa < n \<longrightarrow> chain_page (rw_chain st) pa (unat s) = version_at P rs pa s) \<and>
     (\<forall>s. rw_snap st \<le> s \<longrightarrow> rw_chain st s = None)"

lemma chain_page_0:
  "chain_page chain pa 0 = (case in_file chain pa 0 of Some page \<Rightarrow> page | None \<Rightarrow> replicate PAGE_SIZE 0)"
  by (simp add: chain_page.simps cong: option.case_cong)

lemma chain_page_Suc:
  "chain_page chain pa (Suc k) = (case in_file chain pa (Suc k) of Some page \<Rightarrow> page | None \<Rightarrow> chain_page chain pa k)"
  by (simp add: chain_page.simps [of chain pa "Suc k"] cong: option.case_cong)

text \<open>Files above \<open>k\<close> do not matter for the search from \<open>k\<close>.\<close>

lemma in_file_upd: "k < unat s \<Longrightarrow> in_file (chain(s := f)) pa k = in_file chain pa k"
proof -
  assume "k < unat s"
  then have "of_nat k \<noteq> s" by (metis le_unat_uoi less_imp_le less_irrefl)
  then show ?thesis by (simp add: in_file_def)
qed

lemma chain_page_upd: "k < unat s \<Longrightarrow> chain_page (chain(s := f)) pa k = chain_page chain pa k"
  by (induction k) (simp_all only: chain_page_0 chain_page_Suc in_file_upd Suc_lessD)

lemma chain_page_gap:
  assumes "\<forall>s. lo < s \<longrightarrow> chain s = None" "lo \<le> s"
  shows "chain_page chain pa (unat s) = chain_page chain pa (unat lo)"
proof -
  have "chain_page chain pa (unat lo + d) = chain_page chain pa (unat lo)" if "unat lo + d < 2 ^ 32" for d
    using that
  proof (induction d)
    case (Suc d)
    have "unat (of_nat (unat lo + Suc d) :: u32) = unat lo + Suc d"
      using Suc.prems by (simp only: unat_of_nat) (simp add: take_bit_nat_eq_self_iff)
    then have "lo < of_nat (unat lo + Suc d)" by (simp only: word_less_nat_alt)
    with assms(1) have "chain (of_nat (unat lo + Suc d)) = None" by blast
    then have none: "in_file chain pa (Suc (unat lo + d)) = None" by (simp only: in_file_def add_Suc_right option.case)
    have "chain_page chain pa (unat lo + d) = chain_page chain pa (unat lo)" using Suc by simp
    with none show ?case by (simp only: add_Suc_right chain_page_Suc option.case)
  qed simp
  moreover have "unat lo + (unat s - unat lo) = unat s" using assms(2) by (simp add: word_le_nat_alt)
  moreover have "unat s < 2 ^ 32" using unsigned_less [of s, where ?'a = nat] by simp
  ultimately show ?thesis by metis
qed

lemma slot_at_rslice: "slot_at i out = rslice (i * PAGE_SIZE) (i * PAGE_SIZE + PAGE_SIZE) out"
  by (simp add: slot_at_def rslice_def)

lemma dirty_addrs_eq:
  assumes "\<forall>pa \<in> set pas. unat pa * PAGE_SIZE + PAGE_SIZE \<le> length buf"
  shows "dirty_addrs snap buf pas = Inr (map (\<lambda>pa. pa * of_nat PAGE_SIZE)
    (filter (\<lambda>pa. snap = 0 \<longrightarrow> \<not> list_all (\<lambda>b. b = 0) (slot_at (unat pa) buf)) pas))"
  using assms by (induction pas) (auto simp: get_range_def slot_at_rslice Let_def)

lemma unat_page_addr:
  assumes "unat pa * PAGE_SIZE < 2 ^ 64"
  shows "unat (pa * of_nat PAGE_SIZE :: u64) = unat pa * PAGE_SIZE"
  using assms by (simp add: unat_word_ariths PAGE_SIZE_def)

lemma page_in_range: "i < n \<Longrightarrow> i * PAGE_SIZE + PAGE_SIZE \<le> n * PAGE_SIZE"
  by (metis Suc_leI add.commute mult_Suc mult_le_mono1)

text \<open>What a flush writes: the file of the current snapshot gives the dirty pages of the buffer.\<close>

lemma flush_snapshot_file:
  assumes inv: "raw_inv P n rs st" and n: "n * PAGE_SIZE < 2 ^ 64"
  shows "\<exists>f. flush_snapshot st = Inr (st\<lparr>rw_chain := (rw_chain st)(rw_snap st \<mapsto> f)\<rparr>) \<and>
    (\<forall>pa. unat pa < n \<longrightarrow> raw_page f pa =
      (if pa \<in> rw_dirty st \<and> (rw_snap st = 0 \<longrightarrow> \<not> list_all (\<lambda>b. b = 0) (slot_at (unat pa) (rw_buf st)))
       then Some (slot_at (unat pa) (rw_buf st)) else None))"
proof -
  let ?pas = "sorted_list_of_set (rw_dirty st)"
  let ?keep = "\<lambda>pa. rw_snap st = 0 \<longrightarrow> \<not> list_all (\<lambda>b. b = 0) (slot_at (unat pa) (rw_buf st))"
  let ?addr = "\<lambda>pa :: u64. pa * of_nat PAGE_SIZE"
  let ?addrs = "map ?addr (filter ?keep ?pas)"
  have len: "length (rw_buf st) = n * PAGE_SIZE" and dirty: "\<forall>pa \<in> rw_dirty st. unat pa < n"
    using inv by (auto simp: raw_inv_def)
  have set_pas: "set ?pas = rw_dirty st" by simp
  have addr: "unat (?addr pa) = unat pa * PAGE_SIZE" "unat (?addr pa) + PAGE_SIZE \<le> length (rw_buf st)"
    if "unat pa < n" for pa
  proof -
    have le: "unat pa * PAGE_SIZE + PAGE_SIZE \<le> n * PAGE_SIZE" using that by (rule page_in_range)
    with n have "unat pa * PAGE_SIZE < 2 ^ 64" by linarith
    then show "unat (?addr pa) = unat pa * PAGE_SIZE" by (rule unat_page_addr)
    with le len show "unat (?addr pa) + PAGE_SIZE \<le> length (rw_buf st)" by simp
  qed
  have inj: "pa = pb" if "unat pa < n" "unat pb < n" "?addr pa = ?addr pb" for pa pb
    using addr(1) [OF that(1)] addr(1) [OF that(2)] that(3) by (simp add: PAGE_SIZE_def word_unat_eq_iff)
  have addrs: "dirty_addrs (rw_snap st) (rw_buf st) ?pas = Inr ?addrs"
    using dirty len page_in_range by (intro dirty_addrs_eq) (auto simp: set_pas)
  have "rw_dirty st \<subseteq> of_nat ` {..<n}"
  proof
    fix pa assume "pa \<in> rw_dirty st"
    with dirty show "pa \<in> of_nat ` {..<n}" by (intro image_eqI [of _ _ "unat pa"]) simp_all
  qed
  then have "card (rw_dirty st) \<le> card (of_nat ` {..<n} :: u64 set)" by (intro card_mono) simp_all
  also have "\<dots> \<le> n" using card_image_le [of "{..<n}" "of_nat :: nat \<Rightarrow> u64"] by simp
  finally have "length ?pas \<le> n" by simp
  then have "length ?addrs \<le> n" using length_filter_le [of ?keep ?pas] by simp
  moreover have "n < 2 ^ 60" using n by (simp add: PAGE_SIZE_def)
  ultimately have small: "length ?addrs < 2 ^ 60" by simp
  have range: "\<forall>a \<in> set ?addrs. unat a + PAGE_SIZE \<le> length (rw_buf st)"
    using dirty addr(2) by (auto simp: set_pas)
  obtain f where f: "write_raw_file ?addrs (rw_buf st) = Inr f" using raw_file_layout [OF small range] by blast
  have "raw_page f pa = (if pa \<in> rw_dirty st \<and> ?keep pa then Some (slot_at (unat pa) (rw_buf st)) else None)"
    if pa: "unat pa < n" for pa
  proof -
    have "?addr pa \<in> set ?addrs \<longleftrightarrow> pa \<in> rw_dirty st \<and> ?keep pa"
      using inj [OF pa] dirty unfolding set_map set_filter set_pas by (auto simp only: image_iff mem_Collect_eq)
    with raw_page_written [OF small range f, of pa] addr(1) [OF pa] show ?thesis
      by (simp add: slot_at_rslice)
  qed
  with addrs f show ?thesis by (auto simp: flush_snapshot_def)
qed

lemma raw_flush:
  assumes inv: "raw_inv P n rs st" and n: "n * PAGE_SIZE < 2 ^ 64"
  shows "\<exists>f. flush_snapshot st = Inr (st\<lparr>rw_chain := (rw_chain st)(rw_snap st \<mapsto> f)\<rparr>) \<and>
    (\<forall>s pa. s \<le> rw_snap st \<longrightarrow> unat pa < n \<longrightarrow>
       chain_page ((rw_chain st)(rw_snap st \<mapsto> f)) pa (unat s) = version_at P rs pa s)"
proof -
  let ?cur = "rw_snap st"
  obtain f where f: "flush_snapshot st = Inr (st\<lparr>rw_chain := (rw_chain st)(?cur \<mapsto> f)\<rparr>)"
    and page: "\<And>pa. unat pa < n \<Longrightarrow> raw_page f pa =
      (if pa \<in> rw_dirty st \<and> (?cur = 0 \<longrightarrow> \<not> list_all (\<lambda>b. b = 0) (slot_at (unat pa) (rw_buf st)))
       then Some (slot_at (unat pa) (rw_buf st)) else None)"
    using flush_snapshot_file [OF assms] by blast
  let ?chain = "(rw_chain st)(?cur \<mapsto> f)"
  have buf: "slot_at (unat pa) (rw_buf st) = version_at P rs pa ?cur" if "unat pa < n" for pa
    using inv that by (simp add: raw_inv_def)
  have older: "chain_page (rw_chain st) pa (unat s) = version_at P rs pa s" if "s < ?cur" "unat pa < n" for s pa
    using inv that by (simp add: raw_inv_def)
  have dirty: "pa \<in> rw_dirty st" if "r \<in> set rs" "pa_of (r_key r) = pa" "snapshot_of (r_key r) = ?cur" for r pa
    using inv that by (auto simp: raw_inv_def)
  have le: "snapshot_of (r_key r) \<le> ?cur" if "r \<in> set rs" for r using inv that by (simp add: raw_inv_def)
  have infile: "in_file ?chain pa (unat ?cur) = raw_page f pa" for pa by (simp add: in_file_def)
  have now: "chain_page ?chain pa (unat ?cur) = version_at P rs pa ?cur" if pa: "unat pa < n" for pa
  proof (cases "unat ?cur")
    case 0
    then have cur: "?cur = 0" by (simp add: unat_eq_0)
    have at0: "chain_page ?chain pa 0 = (case raw_page f pa of Some page \<Rightarrow> page | None \<Rightarrow> replicate PAGE_SIZE 0)"
      using infile [of pa] unfolding 0 by (simp only: chain_page_0)
    show ?thesis
    proof (cases "pa \<in> rw_dirty st")
      case True
      have "length (slot_at (unat pa) (rw_buf st)) = PAGE_SIZE"
        using inv page_in_range [OF pa] by (simp add: raw_inv_def slot_at_rslice)
      then have "list_all (\<lambda>b. b = 0) (slot_at (unat pa) (rw_buf st)) \<Longrightarrow> slot_at (unat pa) (rw_buf st) = replicate PAGE_SIZE 0"
        using is_all_zero_iff by (simp add: is_all_zero_def)
      with True page [OF pa] buf [OF pa] at0 show ?thesis unfolding 0 by auto
    next
      case False
      have "version_at P rs pa ?cur = replicate PAGE_SIZE 0"
      proof (rule version_at_none, intro ballI impI)
        fix r assume r: "r \<in> set rs" "pa_of (r_key r) = pa"
        show "?cur < snapshot_of (r_key r)"
          using False dirty [OF r] le [OF r(1)] cur by (cases "snapshot_of (r_key r) = 0") (auto simp: word_gt_0)
      qed
      with False page [OF pa] at0 show ?thesis unfolding 0 by simp
    qed
  next
    case (Suc k)
    have prev: "unat (?cur - 1) = k" "?cur - 1 < ?cur"
    proof -
      have "1 \<le> ?cur" using Suc by (simp add: word_le_nat_alt)
      then show "unat (?cur - 1) = k" using Suc by (simp add: unat_sub)
      with Suc show "?cur - 1 < ?cur" by (simp add: word_less_nat_alt)
    qed
    have "?cur \<noteq> 0" using Suc by auto
    show ?thesis
    proof (cases "pa \<in> rw_dirty st")
      case True
      with page [OF pa] \<open>?cur \<noteq> 0\<close> infile [of pa] buf [OF pa] show ?thesis unfolding Suc by (simp only: chain_page_Suc) simp
    next
      case False
      have "chain_page ?chain pa (unat ?cur) = chain_page ?chain pa k"
        using False page [OF pa] infile [of pa] unfolding Suc by (simp only: chain_page_Suc) simp
      also have "\<dots> = version_at P rs pa (?cur - 1)"
        using older [OF prev(2) pa] Suc prev(1) by (simp add: chain_page_upd)
      also have "\<dots> = version_at P rs pa ?cur"
      proof (rule version_at_cong)
        fix r assume r: "r \<in> set rs" "pa_of (r_key r) = pa"
        then have "snapshot_of (r_key r) \<noteq> ?cur" using False dirty by blast
        with le [OF r(1)] have "snapshot_of (r_key r) < ?cur" by simp
        then show "snapshot_of (r_key r) \<le> ?cur - 1 \<longleftrightarrow> snapshot_of (r_key r) \<le> ?cur"
          using Suc prev(1) by (simp add: word_le_nat_alt word_less_nat_alt)
      qed
      finally show ?thesis .
    qed
  qed
  have "chain_page ?chain pa (unat s) = version_at P rs pa s" if s: "s \<le> ?cur" and pa: "unat pa < n" for s pa
  proof (cases "s = ?cur")
    case True
    with now [OF pa] show ?thesis by simp
  next
    case False
    with s have "s < ?cur" by simp
    with older [OF this pa] show ?thesis by (simp add: chain_page_upd word_less_nat_alt)
  qed
  with f show ?thesis by blast
qed

section \<open>One record\<close>

lemma res_ok_Inr [simp]: "res_ok (Inr x) = Inr (Some x)"
  by (simp add: res_ok_def)

lemma or_truncate_Inr [simp]: "or_truncate (Inr x) f = f x"
  by (simp add: or_truncate_def)

text \<open>A chunk that the reader resolves is resolved to the same page here.\<close>

lemma raw_resolve_page:
  assumes "page_of zd store rec = Inr page" "length dst = PAGE_SIZE"
  shows "raw_resolve zd store rec dst = Inr (Some page)"
proof (cases "r_kind rec")
  case Delta
  with assms(1) obtain base_rec base blob where base: "exact_lookup store (r_base_key rec) = Inr (Some base_rec)"
    "r_kind base_rec = Full" "full_page_of zd store base_rec = Inr base"
    "delta_blob_of store rec = Inr blob" "apply_delta_patch_in_place blob base = Inr page"
    by (auto simp: page_of_def resolve_uncached_def lookup_base_def ok_or_def decompress_eq rbind_eq_Inr_iff
        split: option.splits if_splits)
  have "apply_delta_patch base blob dst = Inr page"
    using base(5) full_page_length [OF base(3)] assms(2)
    by (simp add: apply_delta_patch_def apply_delta_patch_in_place_def copy_at_def split: if_splits)
  with Delta base show ?thesis by (simp add: raw_resolve_def decompress_eq)
qed (use assms in \<open>simp_all add: raw_resolve_def page_of_def resolve_uncached_def decompress_eq\<close>)

lemma slot_at_copy:
  assumes "i < n" "j < n" "length buf = n * PAGE_SIZE" "length page = PAGE_SIZE"
  shows "slot_at i (copy_at (j * PAGE_SIZE) page buf) = (if i = j then page else slot_at i buf)"
proof -
  have j: "j * PAGE_SIZE + PAGE_SIZE \<le> length buf" using page_in_range [OF assms(2)] assms(3) by simp
  consider "i = j" | "i < j" | "j < i" by linarith
  then show ?thesis
  proof cases
    case 1
    with j assms(4) show ?thesis by (simp add: slot_at_def copy_at_def)
  next
    case 2
    then have "i * PAGE_SIZE + PAGE_SIZE \<le> j * PAGE_SIZE" by (rule page_in_range)
    with j 2 show ?thesis by (simp add: slot_at_rslice copy_at_def rslice_append_left rslice_take)
  next
    case 3
    then have "j * PAGE_SIZE + PAGE_SIZE \<le> i * PAGE_SIZE" by (rule page_in_range)
    then obtain d where d: "i * PAGE_SIZE = j * PAGE_SIZE + PAGE_SIZE + d" using le_Suc_ex by blast
    have "slot_at i (copy_at (j * PAGE_SIZE) page buf) = take PAGE_SIZE (drop d (drop (j * PAGE_SIZE + PAGE_SIZE) buf))"
      using j assms(4) by (simp add: slot_at_def copy_at_def d)
    with 3 show ?thesis by (simp add: slot_at_def d add.commute add.left_commute)
  qed
qed

text \<open>The state after a record whose snapshot is current already.\<close>

lemma raw_inv_record:
  assumes inv: "raw_inv P n rs st" and rec: "snapshot_of (r_key rec) = rw_snap st" "unat (pa_of (r_key rec)) < n"
    and page: "length (P rec) = PAGE_SIZE"
  shows "raw_inv P n (rs @ [rec]) (st\<lparr>rw_last_pa := l, rw_dirty := insert (pa_of (r_key rec)) (rw_dirty st),
    rw_buf := copy_at (unat (pa_of (r_key rec)) * PAGE_SIZE) (P rec) (rw_buf st)\<rparr>)"
proof -
  let ?pa = "pa_of (r_key rec)"
  have len: "length (rw_buf st) = n * PAGE_SIZE" using inv by (simp add: raw_inv_def)
  have fits: "unat ?pa * PAGE_SIZE + length (P rec) \<le> length (rw_buf st)"
    using page_in_range [OF rec(2)] len page by simp
  have buf: "slot_at (unat pa) (copy_at (unat ?pa * PAGE_SIZE) (P rec) (rw_buf st)) =
      version_at P (rs @ [rec]) pa (rw_snap st)" if "unat pa < n" for pa
  proof -
    have "unat pa = unat ?pa \<longleftrightarrow> ?pa = pa" by (auto simp: word_unat_eq_iff)
    with slot_at_copy [OF that rec(2) len page] inv that rec(1) show ?thesis
      by (simp add: version_at_snoc raw_inv_def)
  qed
  have old: "version_at P (rs @ [rec]) pa s = version_at P rs pa s" if "s < rw_snap st" for s pa
    using that rec(1) by (auto simp: version_at_snoc)
  show ?thesis
    using inv rec fits buf old by (auto simp: raw_inv_def)
qed

text \<open>Starting a new snapshot: the flushed file completes the chain up to the one before.\<close>

lemma raw_inv_new_snapshot:
  assumes inv: "raw_inv P n rs st" and n: "n * PAGE_SIZE < 2 ^ 64" and snap: "rw_snap st < snap"
  shows "\<exists>st'. flush_snapshot st = Inr st' \<and>
    raw_inv P n rs (st'\<lparr>rw_dirty := {}, rw_snap := snap, rw_last_pa := l\<rparr>)"
proof -
  obtain f where f: "flush_snapshot st = Inr (st\<lparr>rw_chain := (rw_chain st)(rw_snap st \<mapsto> f)\<rparr>)"
    and chain: "\<And>s pa. s \<le> rw_snap st \<Longrightarrow> unat pa < n \<Longrightarrow>
      chain_page ((rw_chain st)(rw_snap st \<mapsto> f)) pa (unat s) = version_at P rs pa s"
    using raw_flush [OF inv n] by blast
  let ?chain = "(rw_chain st)(rw_snap st \<mapsto> f)"
  have le: "snapshot_of (r_key r) \<le> rw_snap st" if "r \<in> set rs" for r using inv that by (simp add: raw_inv_def)
  have same: "version_at P rs pa s = version_at P rs pa (rw_snap st)" if "rw_snap st \<le> s" for s pa
    using le that by (intro version_at_cong) (auto intro: order_trans)
  have gap: "\<forall>s. rw_snap st < s \<longrightarrow> ?chain s = None" using inv by (auto simp: raw_inv_def)
  have "chain_page ?chain pa (unat s) = version_at P rs pa s" if "unat pa < n" for s pa
  proof (cases "s \<le> rw_snap st")
    case True
    with chain that show ?thesis by blast
  next
    case False
    then have "rw_snap st \<le> s" by simp
    from chain_page_gap [OF gap this] chain [OF order_refl that] same [OF this] show ?thesis by (simp only:)
  qed
  moreover have "snapshot_of (r_key r) \<noteq> snap" "snapshot_of (r_key r) \<le> snap" if "r \<in> set rs" for r
    using le [OF that] snap by auto
  moreover have "slot_at (unat pa) (rw_buf st) = version_at P rs pa snap" if "unat pa < n" for pa
    using inv that same [of snap pa] snap by (simp add: raw_inv_def)
  moreover have "?chain s = None" if "snap \<le> s" for s using gap that snap by (meson less_le_trans)
  ultimately show ?thesis using f inv by (intro exI [of _ "st\<lparr>rw_chain := ?chain\<rparr>"]) (auto simp: raw_inv_def)
qed

section \<open>The whole stream\<close>

definition resolves :: "(chunk_record \<Rightarrow> bytes res) \<Rightarrow> (chunk_record \<Rightarrow> bytes) \<Rightarrow> chunk_record list \<Rightarrow> bool" where
  "resolves res P rs \<longleftrightarrow> (\<forall>r \<in> set rs. res r = Inr (P r) \<and> length (P r) = PAGE_SIZE)"

text \<open>The last page seen, when the last record is of the current snapshot.\<close>

definition raw_pos :: "chunk_record list \<Rightarrow> raw_state \<Rightarrow> bool" where
  "raw_pos rs st \<longleftrightarrow>
     (if rs = [] then rw_snap st = 0 \<and> rw_last_pa st = 0
      else rw_snap st = snapshot_of (r_key (last rs)) \<and> rw_last_pa st = pa_of (r_key (last rs)))"

lemma raw_step_record:
  assumes inv: "raw_inv P n rs st" "raw_pos rs st" and n: "n * PAGE_SIZE < 2 ^ 64"
    and after: "\<forall>r \<in> set rs. before r rec" and pa: "unat (pa_of (r_key rec)) < n"
    and page: "page_of zd store rec = Inr (P rec)" "length (P rec) = PAGE_SIZE"
  shows "\<exists>st'. raw_step zd store st rec = Inr (True, st') \<and> raw_inv P n (rs @ [rec]) st' \<and> raw_pos (rs @ [rec]) st'"
proof -
  let ?pa = "pa_of (r_key rec)" and ?snap = "snapshot_of (r_key rec)"
  let ?next = "\<lambda>st. st\<lparr>rw_last_pa := ?pa, rw_dirty := insert ?pa (rw_dirty st),
    rw_buf := copy_at (unat ?pa * PAGE_SIZE) (P rec) (rw_buf st)\<rparr>"
  have body: "rbind (ok_or (get_range (rw_buf s) (unat ?pa * PAGE_SIZE) (unat ?pa * PAGE_SIZE + PAGE_SIZE)) Panic)
      (\<lambda>dst. rbind (raw_resolve zd store rec dst) (\<lambda>r. case r of None \<Rightarrow> Inr (False, s)
        | Some page \<Rightarrow> Inr (True, s\<lparr>rw_buf := copy_at (unat ?pa * PAGE_SIZE) page (rw_buf s)\<rparr>))) =
      Inr (True, s\<lparr>rw_buf := copy_at (unat ?pa * PAGE_SIZE) (P rec) (rw_buf s)\<rparr>)"
    if "length (rw_buf s) = n * PAGE_SIZE" for s
    using page_in_range [OF pa] that raw_resolve_page [OF page(1)] by (simp add: get_range_def)
  have len: "length (rw_buf st) = n * PAGE_SIZE" using inv(1) by (simp add: raw_inv_def)
  have pos: "raw_pos (rs @ [rec]) st'" if "rw_snap st' = ?snap" "rw_last_pa st' = ?pa" for st'
    using that by (simp add: raw_pos_def)
  have le: "rw_snap st \<le> ?snap \<and> (?snap = rw_snap st \<longrightarrow> rw_last_pa st \<le> ?pa)"
  proof (cases "rs = []")
    case False
    then have "before (last rs) rec" using after by simp
    moreover have "rw_snap st = snapshot_of (r_key (last rs))" "rw_last_pa st = pa_of (r_key (last rs))"
      using inv(2) False by (simp_all add: raw_pos_def)
    ultimately show ?thesis unfolding before_def by (metis less_imp_le order_refl less_irrefl)
  qed (use inv(2) in \<open>simp add: raw_pos_def\<close>)
  show ?thesis
  proof (cases "?snap = rw_snap st")
    case True
    have "raw_step zd store st rec = Inr (True, ?next st)"
      using True le body [of "st\<lparr>rw_last_pa := ?pa, rw_dirty := insert ?pa (rw_dirty st)\<rparr>"] len
      by (simp add: raw_step_def Let_def not_less)
    moreover have "raw_inv P n (rs @ [rec]) (?next st)"
      by (rule raw_inv_record [where P = P, OF inv(1) True pa page(2)])
    ultimately show ?thesis using True by (intro exI [of _ "?next st"] conjI pos) simp_all
  next
    case False
    with le have lt: "rw_snap st < ?snap" by simp
    obtain st0 where st0: "flush_snapshot st = Inr st0"
      "raw_inv P n rs (st0\<lparr>rw_dirty := {}, rw_snap := ?snap, rw_last_pa := ?pa\<rparr>)"
      using raw_inv_new_snapshot [OF inv(1) n lt] by blast
    let ?st1 = "st0\<lparr>rw_dirty := {}, rw_snap := ?snap, rw_last_pa := ?pa\<rparr>"
    have len1: "length (rw_buf st0) = n * PAGE_SIZE" using st0(2) by (simp add: raw_inv_def)
    have "raw_step zd store st rec = Inr (True, ?next ?st1)"
      using False lt st0(1) body [of "?st1\<lparr>rw_dirty := insert ?pa (rw_dirty ?st1)\<rparr>"] len1
      by (simp add: raw_step_def Let_def)
    moreover have "raw_inv P n (rs @ [rec]) (?next ?st1)"
      by (rule raw_inv_record [where P = P, OF st0(2) _ pa page(2)]) simp
    ultimately show ?thesis by (intro exI [of _ "?next ?st1"] conjI pos) simp_all
  qed
qed

lemma raw_loop_records:
  assumes "read_records s = Inr rs" "raw_inv P n rs0 st" "raw_pos rs0 st" and n: "n * PAGE_SIZE < 2 ^ 64"
    and "sorted_wrt before (rs0 @ rs)" "\<forall>r \<in> set rs. unat (pa_of (r_key r)) < n" "resolves (page_of zd store) P rs"
  shows "\<exists>st'. raw_loop zd store s st = Inr (False, st') \<and> raw_inv P n (rs0 @ rs) st' \<and> raw_pos (rs0 @ rs) st'"
  using assms(1-3,5-)
proof (induction s arbitrary: rs rs0 st rule: read_records.induct)
  case (1 s)
  show ?case
  proof (cases "read_from s")
    case (Inl e)
    with "1.prems"(1) show ?thesis by (simp add: read_records.simps)
  next
    case (Inr o')
    show ?thesis
    proof (cases o')
      case None
      with Inr "1.prems" show ?thesis by (simp add: read_records.simps raw_loop.simps)
    next
      case (Some p)
      obtain rec rest where p: "p = (rec, rest)" by fastforce
      note rd = Inr [unfolded Some p]
      from "1.prems"(1) rd obtain rs' where rs: "rs = rec # rs'" "read_records rest = Inr rs'"
        by (subst (asm) read_records.simps) (auto simp: rbind_eq_Inr_iff)
      have after: "\<forall>r \<in> set rs0. before r rec" and srt: "sorted_wrt before ((rs0 @ [rec]) @ rs')"
        using "1.prems"(4) by (auto simp: rs sorted_wrt_append)
      have pa: "unat (pa_of (r_key rec)) < n" and page: "page_of zd store rec = Inr (P rec)" "length (P rec) = PAGE_SIZE"
        using "1.prems"(5,6) by (simp_all add: rs resolves_def)
      obtain st' where st': "raw_step zd store st rec = Inr (True, st')" "raw_inv P n (rs0 @ [rec]) st'"
        "raw_pos (rs0 @ [rec]) st'"
        using raw_step_record [OF "1.prems"(2,3) n after pa page] by blast
      have rest: "\<forall>r \<in> set rs'. unat (pa_of (r_key r)) < n" "resolves (page_of zd store) P rs'"
        using "1.prems"(5,6) by (simp_all add: rs resolves_def)
      from "1.IH" [OF Inr Some p [symmetric] rs(2) st'(2,3) srt rest] st'(1) rd show ?thesis
        by (simp add: raw_loop.simps [of _ _ s] rs(1))
    qed
  qed
qed

section \<open>Exporting a database\<close>

lemma raw_inv_start:
  "raw_inv P n [] \<lparr>rw_buf = replicate (n * PAGE_SIZE) 0, rw_snap = 0, rw_last_pa = 0, rw_dirty = {}, rw_chain = (\<lambda>_. None)\<rparr>"
proof -
  have "slot_at i (replicate (n * PAGE_SIZE) 0) = replicate PAGE_SIZE 0" if "i < n" for i
    using page_in_range [OF that] by (simp add: slot_at_def min_def)
  then show ?thesis by (simp add: raw_inv_def version_at_def)
qed

text \<open>The largest number of pages the memory size argument can stand for is below \<open>2 ^ 52\<close>.\<close>

lemma raw_main_records:
  assumes dir: "page_store_open dir = Inr store" "dd_log dir = Some log" "read_log_records log = Inr rs"
    and args: "length args = 4" "parse_word 10 (args ! 3) = Some (msize :: u64)" "unat msize = n * PAGE_SIZE" "0 < n"
    and order: "sorted_wrt before rs" "\<forall>r \<in> set rs. unat (pa_of (r_key r)) < n"
    and pages: "resolves (page_of zd store) P rs"
  shows "\<exists>chain m. raw_main zd dir (\<lambda>_. None) args =
      Inr (Inr \<lparr>ro_chain = chain, ro_meta = ''current_snap_id='' @ show_dec (unat m) @ [CHR 0x0A]\<rparr>) \<and>
    m = (if rs = [] then 0 else snapshot_of (r_key (last rs))) \<and>
    (\<forall>s pa. s \<le> m \<longrightarrow> unat pa < n \<longrightarrow> chain_page chain pa (unat s) = version_at P rs pa s)"
proof -
  let ?st0 = "\<lparr>rw_buf = replicate (unat msize) 0, rw_snap = 0, rw_last_pa = 0, rw_dirty = {}, rw_chain = (\<lambda>_. None)\<rparr>"
  have n: "n * PAGE_SIZE < 2 ^ 64" using unsigned_less [of msize, where ?'a = nat] args(3) by simp
  obtain hd rest where hdr: "read_and_verify_header log MAGIC_LOG = Inr (hd, rest)" "read_records rest = Inr rs"
    using dir(3) by (auto simp: read_log_records_def rbind_eq_Inr_iff)
  then have head: "read_exact HEADER_SIZE log = Some (take HEADER_SIZE log, rest)" "rslice 0 8 (take HEADER_SIZE log) = MAGIC_LOG"
    using verified_header [OF hdr(1)] by (simp_all add: read_exact_def)
  obtain st where st: "raw_loop zd store rest ?st0 = Inr (False, st)" "raw_inv P n rs st" "raw_pos rs st"
    using raw_loop_records [OF hdr(2) raw_inv_start _ n, of zd store P] order pages by (auto simp: raw_pos_def args(3))
  obtain f where fl: "flush_snapshot st = Inr (st\<lparr>rw_chain := (rw_chain st)(rw_snap st \<mapsto> f)\<rparr>)"
    "\<forall>s pa. s \<le> rw_snap st \<longrightarrow> unat pa < n \<longrightarrow>
       chain_page ((rw_chain st)(rw_snap st \<mapsto> f)) pa (unat s) = version_at P rs pa s"
    using raw_flush [OF st(2) n] by blast
  have mod: "msize mod of_nat PAGE_SIZE = 0" "msize \<noteq> 0"
    using args(3,4) by (auto simp: word_unat_eq_iff unat_word_ariths PAGE_SIZE_def)
  have "raw_main zd dir (\<lambda>_. None) args = Inr (Inr \<lparr>ro_chain = (rw_chain st)(rw_snap st \<mapsto> f),
      ro_meta = ''current_snap_id='' @ show_dec (unat (rw_snap st)) @ [CHR 0x0A]\<rparr>)"
    using args(1,2) mod dir(1,2) head st(1) fl(1) by (simp add: raw_main_def raw_finish_def)
  moreover have "rw_snap st = (if rs = [] then 0 else snapshot_of (r_key (last rs)))"
    using st(3) by (simp add: raw_pos_def)
  ultimately show ?thesis using fl(2) by blast
qed

end
