(* ===== verification/Export.thy ===== *)
theory Export
  imports Raw
begin

text \<open>
  Exporting what the writer wrote: sessions keep the log in snapshot and page order, the order
  the exporter relies on, and on such a log the exported chain gives every page of every
  snapshot as the database does.
\<close>

section \<open>Sessions keep the log in order\<close>

definition key_before :: "u64 \<Rightarrow> u64 \<Rightarrow> bool" where
  "key_before a b \<longleftrightarrow> snapshot_of a < snapshot_of b \<or> snapshot_of a = snapshot_of b \<and> pa_of a < pa_of b"

lemma before_key: "before a b \<longleftrightarrow> key_before (r_key a) (r_key b)"
  by (simp add: before_def key_before_def)

lemma before_keys: "sorted_wrt before rs \<longleftrightarrow> sorted_wrt key_before (map r_key rs)"
  by (simp add: sorted_wrt_map before_key [abs_def])

lemma ordered_distinct: "sorted_wrt key_before ks \<Longrightarrow> distinct ks"
  by (induction ks) (auto simp: key_before_def)

lemma find_first:
  "find Q xs = Some r \<Longrightarrow> \<exists>ys zs. xs = ys @ r # zs \<and> Q r \<and> (\<forall>y \<in> set ys. \<not> Q y)"
proof (induction xs)
  case (Cons x xs)
  show ?case
  proof (cases "Q x")
    case True
    with Cons.prems show ?thesis by (intro exI [of _ "[]"] exI [of _ xs]) simp
  next
    case False
    with Cons obtain ys zs where "xs = ys @ r # zs" "Q r" "\<forall>y \<in> set ys. \<not> Q y" by auto
    with False show ?thesis by (intro exI [of _ "x # ys"] exI [of _ zs]) simp
  qed
qed simp

lemma of_nat_ascending: "\<forall>i \<in> set is. i < 2 ^ 64 \<Longrightarrow> sorted_wrt (<) is \<Longrightarrow> sorted_wrt (<) (map (of_nat :: nat \<Rightarrow> u64) is)"
proof (induction "is")
  case (Cons i "is")
  have "of_nat i < (of_nat j :: u64)" if "j \<in> set is" for j
    using Cons.prems that by (simp add: word_less_nat_alt unat_of_nat take_bit_nat_eq_self)
  with Cons show ?case by simp
qed simp

lemma op_pages_ascending: "op_fits op \<Longrightarrow> sorted_wrt (<) (op_pages op)"
proof (cases op)
  case (SaveAll mem n s)
  have "unat n < 2 ^ 64" using unsigned_less [of n, where ?'a = nat] by simp
  with SaveAll show ?thesis by (simp del: sorted_wrt_map) (intro of_nat_ascending, auto)
next
  case (SaveDirty mem bm n s)
  have "unat n < 2 ^ 64" using unsigned_less [of n, where ?'a = nat] by simp
  with SaveDirty show ?thesis
    by (simp add: dirty_pages_def del: sorted_wrt_map) (intro of_nat_ascending, auto intro: sorted_wrt_filter)
qed

lemma op_keys_parts:
  assumes "op_fits op" "k \<in> set (op_keys op)"
  shows "snapshot_of k = op_snapshot op" "pa_of k \<in> set (op_pages op)"
proof -
  have s: "op_snapshot op \<le> MAX_SNAPSHOT_ID" using assms(1) by (cases op) auto
  from assms(2) obtain pa where pa: "pa \<in> set (op_pages op)" "k = encode_key pa (op_snapshot op)" by (auto simp: op_keys_def)
  with op_pages_ok(2) [OF assms(1)] s show "snapshot_of k = op_snapshot op" "pa_of k \<in> set (op_pages op)"
    by (auto simp: pa_of_encode_key_small)
qed

lemma op_keys_ordered: "op_fits op \<Longrightarrow> sorted_wrt key_before (op_keys op)"
proof -
  assume fits: "op_fits op"
  then have s: "op_snapshot op \<le> MAX_SNAPSHOT_ID" by (cases op) auto
  have "sorted_wrt (\<lambda>a b. key_before (encode_key a (op_snapshot op)) (encode_key b (op_snapshot op))) (op_pages op)"
  proof (rule sorted_wrt_mono_rel [OF _ op_pages_ascending [OF fits]])
    fix a b assume "a \<in> set (op_pages op)" "b \<in> set (op_pages op)" "a < b"
    with op_pages_ok(2) [OF fits] s show "key_before (encode_key a (op_snapshot op)) (encode_key b (op_snapshot op))"
      by (simp add: key_before_def pa_of_encode_key_small)
  qed
  then show ?thesis by (simp add: op_keys_def sorted_wrt_map)
qed

lemma session_keys_ordered:
  assumes "saves_fit l ops"
  shows "sorted_wrt key_before (session_keys ops) \<and>
    (\<forall>k \<in> set (session_keys ops). \<forall>x. l = Some x \<longrightarrow> x < snapshot_of k)"
  using assms
proof (induction ops arbitrary: l)
  case Nil
  then show ?case by (simp add: session_keys_def)
next
  case (Cons a ops)
  obtain sched op where a: "a = (sched, op)" by fastforce
  have fits: "op_fits op" "\<forall>x. l = Some x \<longrightarrow> x < op_snapshot op" and rest: "saves_fit (Some (op_snapshot op)) ops"
    using Cons.prems by (auto simp: a split: option.splits)
  have keys: "session_keys (a # ops) = op_keys op @ session_keys ops" by (simp add: a session_keys_def)
  have "key_before k k'" if "k \<in> set (op_keys op)" "k' \<in> set (session_keys ops)" for k k'
    using that Cons.IH [OF rest] op_keys_parts(1) [OF fits(1)] by (simp add: key_before_def)
  with Cons.IH [OF rest] op_keys_ordered [OF fits(1)] fits(2) op_keys_parts(1) [OF fits(1)] show ?case
    by (auto simp: keys sorted_wrt_append intro: less_trans)
qed

lemma dir_holds_snapshots:
  assumes "dir_holds zd h dir" "r \<in> set (dir_records dir)"
  shows "\<exists>l. dir_last dir = Some l \<and> snapshot_of (r_key r) \<le> l"
proof -
  have inv: "dir_inv zd h dir" using assms by (auto simp: dir_holds_def dir_records_def)
  then obtain hdr rs where log: "dd_log dir = Some (log_file hdr rs)" "\<forall>(s, m) \<in> set h. s \<le> hdr"
    and hm: "hist_match zd (dd_blobs dir) rs h" "history_ok h" by (auto simp: dir_inv_def)
  have ok: "\<forall>r \<in> set rs. log_record_ok r" using hist_match_log_ok [OF hm(1)] by blast
  then have r: "r \<in> set rs" using assms(2) log(1) by (simp add: dir_records_def log_records_def)
  obtain s m pa p where sm: "(s, m) \<in> set h" "rec_ok zd (dd_blobs dir) (set rs) s pa p r"
    by (rule hist_match_recE [OF hm(1) r])
  have "s \<le> MAX_SNAPSHOT_ID" by (rule history_snapshot_le [OF hm(2) sm(1)])
  with sm log show ?thesis by (auto simp: dir_last_def log_file_def rec_ok_def)
qed

lemma session_keeps_order:
  assumes "dir_holds zd h dir" "saves_fit (dir_last dir) ops" "sorted_wrt before (dir_records dir)"
    and "dir_records dir' = dir_records dir @ recs" "map r_key recs = session_keys ops"
  shows "sorted_wrt before (dir_records dir')"
proof -
  have "sorted_wrt key_before (map r_key (dir_records dir))" "sorted_wrt key_before (map r_key recs)"
    using assms(3,5) session_keys_ordered [OF assms(2)] by (simp_all add: before_keys)
  moreover have "key_before (r_key a) (r_key b)" if a: "a \<in> set (dir_records dir)" and b: "b \<in> set recs" for a b
  proof -
    obtain l where l: "dir_last dir = Some l" "snapshot_of (r_key a) \<le> l" using dir_holds_snapshots [OF assms(1) a] by blast
    have "r_key b \<in> set (session_keys ops)" using b assms(5) by (metis image_eqI set_map)
    with l session_keys_ordered [OF assms(2)] show ?thesis by (auto simp: key_before_def)
  qed
  ultimately show ?thesis unfolding assms(4) before_keys map_append sorted_wrt_append by (auto simp: before_key)
qed

section \<open>The exported versions are those of the reader\<close>

lemma version_at_floor:
  assumes "sorted_wrt before rs" "s \<le> MAX_SNAPSHOT_ID"
  shows "version_at P rs pa s =
    (case floor_answer (canon r_key rs) (encode_key pa s) pa of None \<Rightarrow> replicate PAGE_SIZE 0 | Some r \<Rightarrow> P r)"
proof -
  have "distinct (map r_key rs)"
    using assms(1) unfolding before_keys by (rule ordered_distinct)
  then have set: "set (canon r_key rs) = set rs" by (rule set_canon_distinct)
  let ?Q = "\<lambda>r. pa_of (r_key r) = pa \<and> snapshot_of (r_key r) \<le> s"
  show ?thesis
  proof (cases "find ?Q (rev rs)")
    case None
    then have "\<forall>r \<in> set rs. pa_of (r_key r) = pa \<longrightarrow> s < snapshot_of (r_key r)"
      by (auto simp: find_None_iff not_le)
    then have "floor_answer (canon r_key rs) (encode_key pa s) pa = None"
      by (simp add: floor_answer_None [OF sorted_canon assms(2)] set)
    with None show ?thesis by (simp add: version_at_def)
  next
    case (Some r)
    then obtain ys zs where split: "rev rs = ys @ r # zs" "?Q r" "\<forall>y \<in> set ys. \<not> ?Q y"
      using find_first [OF Some] by blast
    have "rs = rev (rev rs)" by simp
    also have "\<dots> = rev zs @ r # rev ys" unfolding split(1) by simp
    finally have rs: "rs = rev zs @ r # rev ys" .
    have "newest_version rs pa s r"
      using split(2,3) assms(1) unfolding newest_version_def
      by (auto simp: rs sorted_wrt_append before_def)
    then have "newest_version (canon r_key rs) pa s r" by (simp add: newest_version_def set)
    then have "floor_answer (canon r_key rs) (encode_key pa s) pa = Some r"
      by (simp add: floor_answer_newest [OF sorted_canon assms(2)])
    with Some show ?thesis by (simp add: version_at_def)
  qed
qed

text \<open>A database that holds a history exports it.\<close>

lemma export_history:
  assumes dir: "dir_inv zd h dir" "dd_index dir = None" "sorted_wrt before (dir_records dir)"
    and args: "length args = 4" "parse_word 10 (args ! 3) = Some (msize :: u64)" "unat msize = n * PAGE_SIZE" "0 < n"
    and fits: "\<forall>r \<in> set (dir_records dir). unat (pa_of (r_key r)) < n"
  shows "\<exists>chain m. raw_main zd dir (\<lambda>_. None) args =
      Inr (Inr \<lparr>ro_chain = chain, ro_meta = ''current_snap_id='' @ show_dec (unat m) @ [CHR 0x0A]\<rparr>) \<and>
    m = (if dir_records dir = [] then 0 else snapshot_of (r_key (last (dir_records dir)))) \<and>
    (\<forall>s pa. s \<le> m \<longrightarrow> unat pa < n \<longrightarrow> chain_page chain pa (unat s) =
       (case abs_read h pa s of None \<Rightarrow> replicate PAGE_SIZE 0 | Some p \<Rightarrow> p))"
proof -
  obtain hdr rs where log: "dd_log dir = Some (log_file hdr rs)" and hm: "hist_match zd (dd_blobs dir) rs h"
    and hok: "history_ok h" using dir(1) by (auto simp: dir_inv_def)
  have ok: "\<forall>r \<in> set rs. log_record_ok r" using hist_match_log_ok [OF hm] by blast
  then have recs: "dir_records dir = rs" using log by (simp add: dir_records_def log_records_def)
  obtain st where st: "page_store_open dir = Inr st" "store_ok st" "store_records st = canon r_key rs"
    "ps_blobs st = dd_blobs dir"
    by (rule open_log_store [OF dir(2) log ok])
  have set: "set (store_records st) = set rs" using hm st(3) by (simp add: hist_match_def set_canon_distinct)
  define P where "P = (\<lambda>r. case page_of zd st r of Inr p \<Rightarrow> p | Inl _ \<Rightarrow> [])"
  have P: "page_of zd st r = Inr (P r) \<and> length (P r) = PAGE_SIZE" if r: "r \<in> set rs" for r
  proof -
    obtain s m pa p where "rec_ok zd (dd_blobs dir) (set rs) s pa p r" by (rule hist_match_recE [OF hm r])
    then have "chunk_at zd (dd_blobs dir) (set rs) r p" by (simp add: rec_ok_def)
    then show ?thesis using chunk_at_length by (simp add: P_def page_of_iff [OF st(2), THEN iffD2] st(4) set)
  qed
  have version: "version_at P rs pa s = (case abs_read h pa s of None \<Rightarrow> replicate PAGE_SIZE 0 | Some p \<Rightarrow> p)"
    if s: "s \<le> MAX_SNAPSHOT_ID" for pa s
  proof -
    note floor = store_query [OF st(2), of pa s, THEN conjunct1]
    have rd: "read_page zd st pa s = Inr (abs_read h pa s)"
      by (rule read_page_history [OF st(2) set hok _ s]) (simp add: st(4) hm)
    show ?thesis
    proof (cases "floor_answer (canon r_key rs) (encode_key pa s) pa")
      case None
      with rd floor s have "abs_read h pa s = None" by (simp add: read_page_def st(3) leD [OF s])
      with None show ?thesis using dir(3) by (simp add: version_at_floor recs s)
    next
      case (Some r)
      then have "r \<in> set rs" using floor_answer_in set st(3) by metis
      with Some rd floor s P have "abs_read h pa s = Some (P r)" by (simp add: read_page_def st(3) leD [OF s])
      with Some show ?thesis using dir(3) by (simp add: version_at_floor recs s)
    qed
  qed
  have rd: "read_log_records (log_file hdr rs) = Inr rs" using ok by simp
  have "resolves (page_of zd st) P rs" using P by (simp add: resolves_def)
  from raw_main_records [OF st(1) log rd args _ _ this] dir(3) fits
  obtain chain m where out: "raw_main zd dir (\<lambda>_. None) args =
      Inr (Inr \<lparr>ro_chain = chain, ro_meta = ''current_snap_id='' @ show_dec (unat m) @ [CHR 0x0A]\<rparr>)"
    "m = (if rs = [] then 0 else snapshot_of (r_key (last rs)))"
    "\<forall>s pa. s \<le> m \<longrightarrow> unat pa < n \<longrightarrow> chain_page chain pa (unat s) = version_at P rs pa s"
    unfolding recs by blast
  have "m \<le> MAX_SNAPSHOT_ID" using snapshot_of_bound out(2) by simp
  then have "chain_page chain pa (unat s) = (case abs_read h pa s of None \<Rightarrow> replicate PAGE_SIZE 0 | Some p \<Rightarrow> p)"
    if "s \<le> m" "unat pa < n" for s pa
    using out(3) that version [of s pa] order_trans [of s m] by simp
  with out(1,2) show ?thesis unfolding recs by blast
qed

end
