(* ===== verification/Cli.thy ===== *)
theory Cli
  imports CApi Export
begin

text \<open>
  The command line tool \<open>bxdb-util/src/bin/bxdb.rs\<close>: its commands as functions on the
  directories, the cache directories and the lines printed to standard output, with the exit
  code of \<open>main\<close>. Messages on standard error are left out, and parsing the arguments is done
  by a library.
\<close>

section \<open>Commands\<close>

datatype convert_cmd = ToBtree bytes | ToLog bytes

datatype cache_cmd = Create bytes | Inspect bytes | Delete bytes

datatype cli_cmd =
    ConvertCmd convert_cmd
  | PurgeCmd u32 bytes
  | CacheCmd cache_cmd
  | CheckCmd bytes
  | StatsCmd bytes "u32 option"

text \<open>
  What the commands act on: the database directories by name, and the cache directories; and
  what they depend on from outside: the zstd decoder, the hash and the canonical form of a
  path (see \<open>CApi\<close>), and how \<open>Debug\<close> shows a path.
\<close>

record world =
  w_fs :: "bytes \<Rightarrow> db_dir"
  w_shm :: shm

record env =
  e_zd :: decoder
  e_hash :: "bytes \<Rightarrow> u64"
  e_canonicalize :: "bytes \<Rightarrow> bytes"
  e_debug :: "bytes \<Rightarrow> string"

type_synonym lines = "string list"

section \<open>Hex dumps\<close>

definition hex_char :: "byte \<Rightarrow> char" where
  "hex_char b = (if 33 \<le> unat b \<and> unat b \<le> 126 \<or> b = 32 then char_of (unat b) else CHR ''.'')"

definition hex_row :: "nat \<Rightarrow> bytes \<Rightarrow> string" where
  "hex_row i chunk =
     pad_left CHR ''0'' 7 (show_hex (i * 16)) @ ''  '' @
     concat (map (\<lambda>(j, b). show_byte b @ (if j = 7 then '' '' else [])) (enumerate 0 chunk)) @
     concat (replicate (16 - length chunk) ''  '') @
     (if length chunk \<le> 7 then '' '' else []) @ '' |'' @ map hex_char chunk @ ''|''"

definition hex_slice :: "bytes \<Rightarrow> lines" where
  "hex_slice buf = map (\<lambda>(i, chunk). hex_row i chunk) (enumerate 0 (chunks_of 16 buf))"

section \<open>The shared cache\<close>

text \<open>\<open>/dev/shm/bxdb/{:016x}/cache.shm\<close>.\<close>

definition cache_path :: "u64 \<Rightarrow> string" where
  "cache_path h = ''/dev/shm/bxdb/'' @ pad_left CHR ''0'' 16 (show_hex (unat h)) @ ''/cache.shm''"

abbreviation MIB :: nat where "MIB \<equiv> 1024 * 1024"

definition cmd_cache_create :: "env \<Rightarrow> bytes \<Rightarrow> shm \<Rightarrow> lines res \<times> shm" where
  "cmd_cache_create env dir shm =
     (let canonical = e_canonicalize env dir
      in case shm_cache_path (e_hash env) shm canonical of
           (h, d, shm) \<Rightarrow>
             (Inr [''creating cache at '' @ cache_path h, ''done ('' @ show_dec (TOTAL_BYTES div MIB) @ '' MiB)''],
              shm(h \<mapsto> d\<lparr>sd_cache := Some (cache_create (sd_cache d) canonical)\<rparr>)))"

definition slot_lines :: "shared_cache \<Rightarrow> nat \<Rightarrow> lines" where
  "slot_lines c slot =
     (case slot_key c slot of
        None \<Rightarrow> []
      | Some key \<Rightarrow>
          (''--- slot '' @ pad_left CHR '' '' 6 (show_dec slot) @
           ''  key='' @ pad_left CHR ''0'' 16 (show_hex (unat key)) @
           ''  lru_ts='' @ pad_left CHR '' '' 3 (show_dec (unat (slot_timestamp c slot))) @ '' ---'') #
          hex_slice (read_slot_page c slot))"

definition occupied :: "shared_cache \<Rightarrow> nat" where
  "occupied c = length (filter (\<lambda>slot. slot_key c slot \<noteq> None) [0..<TOTAL_SLOTS])"

definition cmd_cache_inspect :: "env \<Rightarrow> bytes \<Rightarrow> shm \<Rightarrow> lines res \<times> shm" where
  "cmd_cache_inspect env dir shm =
     (let canonical = e_canonicalize env dir
      in case shm_cache_path (e_hash env) shm canonical of
           (h, d, shm) \<Rightarrow>
             (rbind (cache_open (sd_cache d) canonical) (\<lambda>c. Inr
               ([''cache file    : '' @ cache_path h,
                 ''file size     : '' @ show_dec (TOTAL_BYTES div MIB) @ '' MiB'',
                 ''page size     : '' @ show_dec (CACHE_PAGE_SIZE div 1024) @ '' KiB'',
                 ''total slots   : '' @ show_dec TOTAL_SLOTS,
                 ''metadata      : '' @ show_dec (METADATA_BYTES div MIB) @ '' MiB'',
                 ''data region   : '' @ show_dec (DATA_BYTES div MIB) @ '' MiB'',
                 ''identity      : '' @ e_debug env (stored_identity c),
                 ''occupied      : '' @ show_dec (occupied c) @ '' / '' @ show_dec TOTAL_SLOTS, []] @
                concat (map (slot_lines c) [0..<TOTAL_SLOTS]))), shm))"

text \<open>A missing file is only reported, and a directory that cannot be removed is left.\<close>

definition cmd_cache_delete :: "env \<Rightarrow> bytes \<Rightarrow> shm \<Rightarrow> lines res \<times> shm" where
  "cmd_cache_delete env dir shm =
     (case shm_cache_path (e_hash env) shm (e_canonicalize env dir) of
        (h, d, shm) \<Rightarrow>
          (Inr [(if sd_cache d = None then ''cache file not found: '' else ''removed '') @ cache_path h],
           shm(h := if sd_others d then Some (d\<lparr>sd_cache := None\<rparr>) else None)))"

definition run_cache_cmd :: "env \<Rightarrow> cache_cmd \<Rightarrow> shm \<Rightarrow> lines res \<times> shm" where
  "run_cache_cmd env cmd =
     (case cmd of
        Create dir \<Rightarrow> cmd_cache_create env dir
      | Inspect dir \<Rightarrow> cmd_cache_inspect env dir
      | Delete dir \<Rightarrow> cmd_cache_delete env dir)"

section \<open>Check and statistics\<close>

text \<open>The lines printed before the verdict, and whether it is an error.\<close>

definition run_check :: "env \<Rightarrow> db_dir \<Rightarrow> (lines \<times> bool) res" where
  "run_check env dir =
     rbind (check_db (e_zd env) dir) (\<lambda>report.
       let head = [''total records  : '' @ show_dec (cr_total report),
             ''  full          : '' @ show_dec (cr_full report),
             ''  delta         : '' @ show_dec (cr_delta report),
             ''  zero          : '' @ show_dec (cr_zero report)] @
           (if cr_sizes report = [] then []
            else [[], ''blob files:''] @
              map (\<lambda>(i, size). ''  worker_'' @ show_dec (unat i) @ ''.blob  '' @ show_dec (unat size) @ '' bytes'') (cr_sizes report))
       in if report_ok report then Inr (head @ [[], ''OK '' @ [CHR 0xE2, CHR 0x80, CHR 0x94] @ '' no errors found.''], False)
          else Inr (head @ [[], show_dec (length (cr_errors report)) @ '' error(s) found:''], True))"

function stats_loop :: "u32 option \<Rightarrow> bytes \<Rightarrow> u64 \<times> u64 \<Rightarrow> (u64 \<times> u64) res" where
  "stats_loop snapshot s acc =
     (case read_from s of
        Inl e \<Rightarrow> Inl e
      | Inr None \<Rightarrow> Inr acc
      | Inr (Some (rec, rest)) \<Rightarrow>
          stats_loop snapshot rest
            (if (case snapshot of Some n \<Rightarrow> snapshot_of (r_key rec) \<noteq> n | None \<Rightarrow> False) then acc
             else (fst acc + 1, if r_kind rec \<noteq> Zero then snd acc + 1 else snd acc)))"
  by pat_completeness auto
termination
  by (relation "measure (\<lambda>(snapshot, s, acc). length s)") (auto dest: read_from_consumes)

declare stats_loop.simps [simp del]

definition cmd_stats :: "db_dir \<Rightarrow> u32 option \<Rightarrow> lines res" where
  "cmd_stats dir snapshot =
     (case dd_log dir of
        None \<Rightarrow> Inl (IoErr NotFound)
      | Some log \<Rightarrow>
          rbind (read_and_verify_header log MAGIC_LOG) (\<lambda>(_, rest).
          rbind (stats_loop snapshot rest (0, 0)) (\<lambda>(pages, non_zero). Inr
            ((case snapshot of Some s \<Rightarrow> [''snapshot       : '' @ show_dec (unat s)] | None \<Rightarrow> []) @
             [''total pages    : '' @ show_dec (unat pages), ''non-zero pages : '' @ show_dec (unat non_zero)]))))"

section \<open>The tool\<close>

text \<open>The exit code, the lines printed and the world afterwards; a panic exits with 101.\<close>

definition exit_with :: "nat \<Rightarrow> fault \<Rightarrow> nat" where
  "exit_with code e = (if e = Panic then 101 else code)"

definition cli_main :: "env \<Rightarrow> cli_cmd \<Rightarrow> world \<Rightarrow> nat \<times> lines \<times> world" where
  "cli_main env cmd w =
     (case cmd of
        ConvertCmd c \<Rightarrow>
          (case (case c of ToBtree dir \<Rightarrow> (dir, to_btree (w_fs w dir)) | ToLog dir \<Rightarrow> (dir, to_log (w_fs w dir))) of
             (dir, Inl e) \<Rightarrow> (exit_with 1 e, [], w)
           | (dir, Inr d) \<Rightarrow> (0, [], w\<lparr>w_fs := (w_fs w)(dir := d)\<rparr>))
      | PurgeCmd threshold dir \<Rightarrow>
          (case purge (w_fs w dir) threshold of
             Inl e \<Rightarrow> (exit_with 1 e, [], w)
           | Inr (removed, d) \<Rightarrow>
               (0, [''removed '' @ show_dec removed @ '' records with snapshot_id > '' @ show_dec (unat threshold)],
                w\<lparr>w_fs := (w_fs w)(dir := d)\<rparr>))
      | CacheCmd c \<Rightarrow>
          (case run_cache_cmd env c (w_shm w) of
             (Inl e, shm) \<Rightarrow> (exit_with 1 e, [], w\<lparr>w_shm := shm\<rparr>)
           | (Inr out, shm) \<Rightarrow> (0, out, w\<lparr>w_shm := shm\<rparr>))
      | CheckCmd dir \<Rightarrow>
          (case run_check env (w_fs w dir) of
             Inl e \<Rightarrow> (exit_with 0 e, [], w)
           | Inr (out, failed) \<Rightarrow> (0, out, w))
      | StatsCmd dir snapshot \<Rightarrow>
          (case cmd_stats (w_fs w dir) snapshot of
             Inl e \<Rightarrow> (exit_with 1 e, [], w)
           | Inr out \<Rightarrow> (0, out, w)))"

section \<open>The columns of a hex dump\<close>

text \<open>The text of the first \<open>k\<close> bytes of a row, and of its byte \<open>k\<close>.\<close>

definition hex_cell :: "nat \<times> byte \<Rightarrow> string" where
  "hex_cell = (\<lambda>(j, b). show_byte b @ (if j = 7 then '' '' else []))"

lemma length_hex_cells:
  "length (concat (map hex_cell (enumerate i xs))) =
     2 * length xs + (if i \<le> 7 \<and> 7 < i + length xs then 1 else 0)"
  by (induction xs arbitrary: i) (auto simp: hex_cell_def)

lemma hex_row_byte:
  assumes "k < length chunk" "length chunk \<le> 16" "i < 2 ^ 24"
  shows "rslice (9 + 2 * k + k div 8) (11 + 2 * k + k div 8) (hex_row i chunk) = show_byte (chunk ! k)"
proof -
  have off: "length (pad_left CHR ''0'' 7 (show_hex (i * 16)) @ ''  '') = 9"
  proof -
    have "length (show_hex (i * 16)) \<le> 7" using assms(3) by (intro length_show_base) simp_all
    then show ?thesis by simp
  qed
  let ?pre = "concat (map hex_cell (enumerate 0 (take k chunk)))"
  let ?post = "concat (map hex_cell (enumerate (Suc k) (drop (Suc k) chunk)))"
  have "chunk = take k chunk @ chunk ! k # drop (Suc k) chunk" using assms(1) by (simp add: id_take_nth_drop)
  then have "enumerate 0 chunk = enumerate 0 (take k chunk) @ (k, chunk ! k) # enumerate (Suc k) (drop (Suc k) chunk)"
    using assms(1) by (metis add_0 enumerate_append_eq enumerate_simps(2) length_take min.absorb2 less_imp_le)
  then have cells: "concat (map hex_cell (enumerate 0 chunk)) = ?pre @ hex_cell (k, chunk ! k) @ ?post" by simp
  have "k div 8 = (if 7 < k then 1 else 0)" using assms(1,2) by auto
  then have pre: "length ?pre = 2 * k + k div 8" using assms(1) by (simp add: length_hex_cells)
  have row: "hex_row i chunk = (pad_left CHR ''0'' 7 (show_hex (i * 16)) @ ''  '') @ ?pre @ show_byte (chunk ! k) @
      (if k = 7 then '' '' else []) @ ?post @ concat (replicate (16 - length chunk) ''  '') @
      (if length chunk \<le> 7 then '' '' else []) @ '' |'' @ map hex_char chunk @ ''|''"
    using cells by (simp add: hex_row_def hex_cell_def)
  show ?thesis
    unfolding row by (subst rslice_append_right, use off in simp) (subst rslice_append_right, use pre off in simp,
      use pre off in \<open>simp add: rslice_append_left rslice_full\<close>)
qed

section \<open>Statistics of a history\<close>

definition in_snapshot :: "u32 option \<Rightarrow> chunk_record \<Rightarrow> bool" where
  "in_snapshot snapshot r \<longleftrightarrow> (case snapshot of None \<Rightarrow> True | Some s \<Rightarrow> snapshot_of (r_key r) = s)"

lemma stats_loop_records:
  "read_records s = Inr rs \<Longrightarrow> stats_loop snapshot s acc =
     Inr (fst acc + of_nat (length (filter (in_snapshot snapshot) rs)),
       snd acc + of_nat (length (filter (\<lambda>r. in_snapshot snapshot r \<and> r_kind r \<noteq> Zero) rs)))"
proof (induction s arbitrary: rs acc rule: read_records.induct)
  case (1 s)
  show ?case
  proof (cases "read_from s")
    case (Inl e)
    with "1.prems" show ?thesis by (simp add: read_records.simps)
  next
    case (Inr o')
    show ?thesis
    proof (cases o')
      case None
      with Inr "1.prems" show ?thesis by (simp add: read_records.simps stats_loop.simps)
    next
      case (Some p)
      obtain rec rest where p: "p = (rec, rest)" by fastforce
      from "1.prems" Inr Some p obtain rs' where rs: "rs = rec # rs'" "read_records rest = Inr rs'"
        by (subst (asm) read_records.simps) (auto simp: rbind_eq_Inr_iff)
      let ?skip = "case snapshot of Some n \<Rightarrow> snapshot_of (r_key rec) \<noteq> n | None \<Rightarrow> False"
      have skip: "?skip \<longleftrightarrow> \<not> in_snapshot snapshot rec" by (auto simp: in_snapshot_def split: option.splits)
      have "stats_loop snapshot s acc = stats_loop snapshot rest
          (if ?skip then acc else (fst acc + 1, if r_kind rec \<noteq> Zero then snd acc + 1 else snd acc))"
        using Inr Some p by (subst stats_loop.simps) simp
      with "1.IH" [OF Inr Some p [symmetric] rs(2)] show ?thesis
        unfolding skip by (simp add: rs(1))
    qed
  qed
qed

lemma stats_of_log:
  assumes "dd_log dir = Some (log_file hdr rs)" "\<forall>r \<in> set rs. log_record_ok r"
  shows "cmd_stats dir (Some s) = Inr
    [''snapshot       : '' @ show_dec (unat s),
     ''total pages    : '' @ show_dec (unat (of_nat (length (filter (in_snapshot (Some s)) rs)) :: u64)),
     ''non-zero pages : '' @ show_dec (unat (of_nat (length (filter (\<lambda>r. in_snapshot (Some s) r \<and> r_kind r \<noteq> Zero) rs)) :: u64))]"
proof -
  obtain hd rest where "read_and_verify_header (log_file hdr rs) MAGIC_LOG = Inr (hd, rest)" "read_records rest = Inr rs"
    using read_log_file [OF assms(2), of hdr] by (auto simp: read_log_records_def rbind_eq_Inr_iff)
  with assms(1) show ?thesis by (simp add: cmd_stats_def stats_loop_records)
qed

text \<open>The snapshot of the last save of a session is newer than any before it.\<close>

lemma saves_fit_last_newest:
  "saves_fit l (ops @ [(sched, op)]) \<Longrightarrow> op_fits op \<and> (\<forall>x. l = Some x \<longrightarrow> x < op_snapshot op) \<and>
     (\<forall>(sched', op') \<in> set ops. op_fits op' \<and> op_snapshot op' < op_snapshot op)"
proof (induction ops arbitrary: l)
  case (Cons a ops)
  obtain sched' op' where a: "a = (sched', op')" by fastforce
  from Cons.prems have "saves_fit (Some (op_snapshot op')) (ops @ [(sched, op)])" "op_fits op'"
    "\<forall>x. l = Some x \<longrightarrow> x < op_snapshot op'" by (auto simp: a)
  with Cons.IH [of "Some (op_snapshot op')"] show ?case by (auto simp: a)
qed auto

lemma session_keys_snoc: "session_keys (ops @ [(sched, op)]) = session_keys ops @ op_keys op"
  by (simp add: session_keys_def)

lemma earlier_keys:
  assumes "saves_fit l (ops @ [(sched, op)])" "k \<in> set (session_keys ops)"
  shows "snapshot_of k \<noteq> op_snapshot op"
proof -
  obtain sched' op' where "(sched', op') \<in> set ops" "k \<in> set (op_keys op')"
    using assms(2) by (auto simp: session_keys_def)
  with saves_fit_last_newest [OF assms(1)] op_keys_parts(1) show ?thesis by fastforce
qed

lemma history_newest_unique: "history_ok ((s, m) # h) \<Longrightarrow> (s, m') \<in> set ((s, m) # h) \<Longrightarrow> m' = m"
proof -
  assume ok: "history_ok ((s, m) # h)" and mem: "(s, m') \<in> set ((s, m) # h)"
  have "\<forall>(s', m') \<in> set h. s' < s" using ok by (cases h) auto
  with mem show ?thesis by auto
qed

text \<open>The statistics of the last snapshot count its pages, and those that are not zero.\<close>

lemma filter_keys: "length (filter (\<lambda>r. P (r_key r)) rs) = length (filter P (map r_key rs))"
  by (simp add: filter_map comp_def)

lemma session_zero_records:
  assumes hm: "hist_match zd bl rs (abs_saves (ops @ [(sched, op)]) h)" and ok: "history_ok (abs_saves (ops @ [(sched, op)]) h)"
    and op: "op_fits op" and r: "r \<in> set rs" "r_key r \<in> set (op_keys op)"
  shows "r_kind r = Zero \<longleftrightarrow> is_all_zero (page_at (op_mem op) (pa_of (r_key r)))"
proof -
  have key: "snapshot_of (r_key r) = op_snapshot op" "pa_of (r_key r) \<in> set (op_pages op)"
    by (rule op_keys_parts [OF op r(2)])+
  then have h: "abs_saves (ops @ [(sched, op)]) h = (op_snapshot op, save_map (op_mem op) (op_pages op)) # abs_saves ops h"
    by (auto simp: abs_saves_append)
  obtain s m pa p where sm: "(s, m) \<in> set (abs_saves (ops @ [(sched, op)]) h)" "m pa = Some p" "rec_ok zd bl (set rs) s pa p r"
    by (rule hist_match_recE [OF hm r(1)])
  have "s \<le> MAX_SNAPSHOT_ID" by (rule history_snapshot_le [OF ok sm(1)])
  then have s: "s = op_snapshot op" using sm(3) key(1) by (simp add: rec_ok_def)
  have m: "m = save_map (op_mem op) (op_pages op)"
    using history_newest_unique [of "op_snapshot op" _ "abs_saves ops h" m] ok sm(1) unfolding h s by blast
  then have "pa \<in> set (op_pages op)" "p = page_at (op_mem op) pa" using sm(2) by (auto simp: save_map_def split: if_splits)
  with sm(3) op_pages_ok(2) [OF op] show ?thesis by (simp add: rec_ok_def pa_of_encode_key_small)
qed

lemma stats_after_session:
  assumes "dir_holds zd h dir" "0 < n" "n \<le> 255" "zstd_ok zc zd"
    and ops: "saves_fit (dir_last dir) (ops @ [(sched, op)])" and room: "dir_room (pages_saved (ops @ [(sched, op)])) dir"
  shows "\<exists>dir'. write_session zc n thr use_shadow (ops @ [(sched, op)]) dir = Inr dir' \<and>
    cmd_stats dir' (Some (op_snapshot op)) = Inr
      [''snapshot       : '' @ show_dec (unat (op_snapshot op)),
       ''total pages    : '' @ show_dec (length (op_pages op)),
       ''non-zero pages : '' @ show_dec (length (filter (\<lambda>pa. \<not> is_all_zero (page_at (op_mem op) pa)) (op_pages op)))]"
proof -
  let ?s = "op_snapshot op" and ?Z = "\<lambda>k. is_all_zero (page_at (op_mem op) (pa_of k))"
  obtain dir' recs where w: "write_session zc n thr use_shadow (ops @ [(sched, op)]) dir = Inr dir'"
    "dir_inv zd (abs_saves (ops @ [(sched, op)]) h) dir'" "dir_records dir' = dir_records dir @ recs"
    "map r_key recs = session_keys (ops @ [(sched, op)])"
    using write_session_spec [OF assms] by blast
  obtain hdr rs where log: "dd_log dir' = Some (log_file hdr rs)"
    and hm: "hist_match zd (dd_blobs dir') rs (abs_saves (ops @ [(sched, op)]) h)"
    and hok: "history_ok (abs_saves (ops @ [(sched, op)]) h)" using w(2) by (auto simp: dir_inv_def)
  have rok: "\<forall>r \<in> set rs. log_record_ok r" using hist_match_log_ok [OF hm] by blast
  then have rs: "rs = dir_records dir @ recs" using w(3) log by (simp add: dir_records_def log_records_def)
  note newest = saves_fit_last_newest [OF ops]
  have old: "snapshot_of k \<noteq> ?s" if "k \<in> set (map r_key (dir_records dir) @ session_keys ops)" for k
    using that dir_holds_snapshots [OF assms(1)] newest earlier_keys [OF ops] by fastforce
  have keys: "map r_key rs = (map r_key (dir_records dir) @ session_keys ops) @ op_keys op"
    by (simp add: rs w(4) session_keys_snoc)
  have zero: "r_kind r = Zero \<longleftrightarrow> ?Z (r_key r)" if "r \<in> set rs" "snapshot_of (r_key r) = ?s" for r
  proof -
    have "r_key r \<in> set (map r_key rs)" using that(1) by simp
    then have "r_key r \<in> set (op_keys op)" unfolding keys using old that(2) by auto
    with session_zero_records [OF hm hok _ that(1)] newest show ?thesis by blast
  qed
  have count: "length (filter (\<lambda>r. P (r_key r)) rs) = length (filter P (op_keys op))"
    if P: "\<And>k. P k \<Longrightarrow> snapshot_of k = ?s" for P
  proof -
    have "filter P (map r_key (dir_records dir) @ session_keys ops) = []"
      by (rule filter_False) (use P old in blast)
    then show ?thesis by (simp only: filter_keys keys filter_append append_Nil)
  qed
  have sel: "filter (\<lambda>r. in_snapshot (Some ?s) r \<and> r_kind r \<noteq> Zero) rs =
      filter (\<lambda>r. snapshot_of (r_key r) = ?s \<and> \<not> ?Z (r_key r)) rs"
    by (rule filter_cong) (auto simp: in_snapshot_def zero)
  have parts: "snapshot_of (encode_key pa ?s) = ?s" "pa_of (encode_key pa ?s) = pa" if "pa \<in> set (op_pages op)" for pa
    using that op_keys_parts(1) [of op] op_pages_ok(2) [of op] newest by (auto simp: op_keys_def pa_of_encode_key_small)
  have all: "length (filter (in_snapshot (Some ?s)) rs) = length (op_pages op)"
    using count [of "\<lambda>k. snapshot_of k = ?s"] parts by (simp add: in_snapshot_def op_keys_def filter_map comp_def cong: filter_cong)
  have non_zero: "length (filter (\<lambda>r. in_snapshot (Some ?s) r \<and> r_kind r \<noteq> Zero) rs) =
      length (filter (\<lambda>pa. \<not> is_all_zero (page_at (op_mem op) pa)) (op_pages op))"
    unfolding sel using count [of "\<lambda>k. snapshot_of k = ?s \<and> \<not> ?Z k"] parts
    by (simp add: op_keys_def filter_map comp_def cong: filter_cong)
  have len: "length (op_pages op) < 2 ^ 64" using room by (simp add: pages_saved_def dir_room_def COMPRESS_CAP_def)
  then have "length (filter P (op_pages op)) < 2 ^ 64" for P using length_filter_le [of P "op_pages op"] by linarith
  with stats_of_log [OF log rok, of ?s] len w(1) show ?thesis
    unfolding all non_zero by (simp add: unat_of_nat take_bit_nat_eq_self)
qed

text \<open>The check command reports success to the shell whatever the check found.\<close>

lemma check_exits_zero:
  "check_db (e_zd env) (w_fs w dir) = Inr report \<Longrightarrow> fst (cli_main env (CheckCmd dir) w) = 0"
  by (simp add: cli_main_def run_check_def Let_def)

text \<open>The hex dump of the inspector of the cache shows the bytes: reading back two digits at
  a byte's column, in its row, gives the byte, for any buffer up to 256 MiB; the last row may
  be short.\<close>

theorem hex_dump_faithful:
  assumes "j < length buf" "length buf \<le> 2 ^ 28"
  shows "j div 16 < length (hex_slice buf) \<and>
    (let k = j mod 16; col = 9 + 2 * k + k div 8
     in parse_word 16 (rslice col (col + 2) (hex_slice buf ! (j div 16))) = Some (buf ! j))"
proof -
  have c: "j div 16 < length (chunks_of 16 buf)" "j mod 16 < length (chunks_of 16 buf ! (j div 16))"
    "chunks_of 16 buf ! (j div 16) ! (j mod 16) = buf ! j" "length (chunks_of 16 buf ! (j div 16)) \<le> 16"
    using nth_chunks_of [of 16 j buf] assms(1) by simp_all
  have i: "j div 16 < 2 ^ 24" using assms by (simp add: less_mult_imp_div_less)
  have "hex_slice buf ! (j div 16) = hex_row (j div 16) (chunks_of 16 buf ! (j div 16))"
    using c(1) by (simp add: hex_slice_def nth_enumerate_eq)
  with hex_row_byte [OF c(2,4) i] c(1,3) parse_show_byte show ?thesis
    by (simp add: hex_slice_def Let_def algebra_simps)
qed

theorem hex_dump_faithful_witness:
  "parse_word 16 (rslice 11 13 (hex_slice (replicate 17 0 @ [0xAB]) ! 1)) = Some (0xAB :: byte)"
  using hex_dump_faithful [of 17 "replicate 17 0 @ [0xAB]"] by (simp add: Let_def nth_append)

end
