(* ===== verification/Inspect.thy ===== *)
theory Inspect
  imports Names
begin

text \<open>
  The interactive inspector \<open>bxdb-inspect/src/main.rs\<close>: loading a database, the state of the
  program (\<open>App\<close>) with its operations, and the handling of one key. Files on disk do not
  change while it runs, except for those it exports. \<open>zd\<close> is the zstd decoder. The numbers
  with decimals in the header line (\<open>pct\<close>, \<open>byte_pct\<close>, \<open>fmt_bytes\<close>) are left out.
\<close>

section \<open>Arguments and loading\<close>

record insp_args =
  ia_snapshot :: "u32 option"
  ia_pa :: "u64 option"
  ia_db :: "string option"

definition parse_pa :: "string \<Rightarrow> u64 option" where
  "parse_pa val =
     (let hex = (if take 2 val = ''0x'' \<or> take 2 val = ''0X'' then drop 2 val else val)
      in parse_word 16 hex)"

text \<open>The argument loop; \<open>None\<close> is the exit for a malformed number.\<close>

fun parse_args :: "string list \<Rightarrow> insp_args \<Rightarrow> insp_args option" where
  "parse_args [] p = Some p"
| "parse_args [a] p = Some (p\<lparr>ia_db := Some a\<rparr>)"
| "parse_args (a # v # rest) p =
     (if a = ''--snapshot'' then
        (case parse_word 10 v of None \<Rightarrow> None | Some s \<Rightarrow> parse_args rest (p\<lparr>ia_snapshot := Some s\<rparr>))
      else if a = ''--pa'' then
        (case parse_pa v of None \<Rightarrow> None | Some pa \<Rightarrow> parse_args rest (p\<lparr>ia_pa := Some pa\<rparr>))
      else parse_args (v # rest) (p\<lparr>ia_db := Some a\<rparr>))"

definition load_records :: "db_dir \<Rightarrow> (index_mode \<times> chunk_record list \<times> u32) res" where
  "load_records dir =
     (case dd_index dir of
        Some idx \<Rightarrow>
          rbind (read_and_verify_header idx MAGIC_IDX) (\<lambda>(max_snap, rest).
          rbind (read_fixed_records rest) (\<lambda>records. Inr (BTree, records, max_snap)))
      | None \<Rightarrow>
          (case dd_log dir of
             Some log \<Rightarrow>
               rbind (read_and_verify_header log MAGIC_LOG) (\<lambda>(max_snap, rest).
               rbind (read_records rest) (\<lambda>records. Inr (AppendOnly, sort_key r_key records, max_snap)))
           | None \<Rightarrow> Inl (IoErr NotFound)))"

record stats =
  st_total :: nat
  st_full :: nat
  st_delta :: nat
  st_zero :: nat
  st_full_bytes :: u64
  st_delta_bytes :: u64

definition stats_of :: "chunk_record list \<Rightarrow> stats" where
  "stats_of records =
     foldl (\<lambda>s r. case r_kind r of
         Full \<Rightarrow> s\<lparr>st_full := st_full s + 1, st_full_bytes := st_full_bytes s + ucast (r_len r)\<rparr>
       | Delta \<Rightarrow> s\<lparr>st_delta := st_delta s + 1, st_delta_bytes := st_delta_bytes s + ucast (r_len r)\<rparr>
       | Zero \<Rightarrow> s\<lparr>st_zero := st_zero s + 1\<rparr>)
     \<lparr>st_total = length records, st_full = 0, st_delta = 0, st_zero = 0, st_full_bytes = 0, st_delta_bytes = 0\<rparr>
     records"

definition total_bytes :: "stats \<Rightarrow> u64" where
  "total_bytes s = st_full_bytes s + st_delta_bytes s"

section \<open>State\<close>

text \<open>Text typed by the user: a list of Unicode code points.\<close>

type_synonym ustring = "nat list"

datatype insp_error = BlobReadFailed fault | ZstdFailed | BadDelta nat

datatype detail = DFull bytes | DDelta "(u16 \<times> u64) list" | DZero | DErr insp_error

datatype export_status = Exported nat ustring | ExportFailed | NothingToExport

text \<open>The selection (\<open>ListState\<close>) is the selected row; an open blob file is its contents.\<close>

record app =
  ap_dir :: db_dir
  ap_mode :: index_mode
  ap_records :: "chunk_record list"
  ap_stats :: stats
  ap_max_snapshot :: u32
  ap_selected :: "nat option"
  ap_blob_files :: blobs
  ap_scroll :: u16
  ap_detail :: "(nat \<times> detail) option"
  ap_filter_snapshot :: "u32 option"
  ap_filter_pa :: "u64 option"
  ap_filtered :: "nat list option"
  ap_filter_input :: "string option"
  ap_export_input :: "ustring option"
  ap_export_status :: "export_status option"

definition app_new :: "db_dir \<Rightarrow> index_mode \<Rightarrow> chunk_record list \<Rightarrow> stats \<Rightarrow> u32 \<Rightarrow> app" where
  "app_new dir mode records stats max_snap =
     \<lparr>ap_dir = dir, ap_mode = mode, ap_records = records, ap_stats = stats, ap_max_snapshot = max_snap,
      ap_selected = (if records \<noteq> [] then Some 0 else None), ap_blob_files = (\<lambda>_. None), ap_scroll = 0,
      ap_detail = None, ap_filter_snapshot = None, ap_filter_pa = None, ap_filtered = None,
      ap_filter_input = None, ap_export_input = None, ap_export_status = None\<rparr>"

section \<open>Operations\<close>

definition active_count :: "app \<Rightarrow> nat" where
  "active_count app = (case ap_filtered app of Some f \<Rightarrow> length f | None \<Rightarrow> length (ap_records app))"

definition index_list :: "'a list \<Rightarrow> nat \<Rightarrow> 'a res" where
  "index_list xs i = (if i < length xs then Inr (xs ! i) else Inl Panic)"

definition real_idx :: "app \<Rightarrow> nat \<Rightarrow> nat res" where
  "real_idx app active_idx =
     (case ap_filtered app of Some f \<Rightarrow> index_list f active_idx | None \<Rightarrow> Inr active_idx)"

definition record_at :: "app \<Rightarrow> nat \<Rightarrow> chunk_record res" where
  "record_at app active_idx = rbind (real_idx app active_idx) (index_list (ap_records app))"

definition move_by :: "int \<Rightarrow> app \<Rightarrow> app" where
  "move_by delta app =
     (if active_count app = 0 then app
      else
        let cur = int (case ap_selected app of Some i \<Rightarrow> i | None \<Rightarrow> 0);
            last = int (active_count app) - 1;
            nxt = nat (max 0 (min last (cur + delta)))
        in app\<lparr>ap_selected := Some nxt, ap_scroll := 0\<rparr>)"

definition go_to :: "nat \<Rightarrow> app \<Rightarrow> app" where
  "go_to i app =
     (let total = active_count app
      in if total = 0 then app else app\<lparr>ap_selected := Some (min i (total - 1)), ap_scroll := 0\<rparr>)"

text \<open>\<open>pread\<close> refuses an offset beyond the signed range.\<close>

definition read_blob :: "byte \<Rightarrow> u64 \<Rightarrow> u32 \<Rightarrow> app \<Rightarrow> bytes res \<times> app" where
  "read_blob worker_id offset len app =
     (let opened = (case ap_blob_files app worker_id of
            Some f \<Rightarrow> Inr (f, app)
          | None \<Rightarrow>
              (case dd_blobs (ap_dir app) worker_id of
                 None \<Rightarrow> Inl (IoErr NotFound)
               | Some f \<Rightarrow> Inr (f, app\<lparr>ap_blob_files := (ap_blob_files app)(worker_id \<mapsto> f)\<rparr>)))
      in case opened of
           Inl e \<Rightarrow> (Inl e, app)
         | Inr (f, app) \<Rightarrow>
             (if len = 0 then Inr []
              else if 2 ^ 63 \<le> offset then Inl (IoErr InvalidInput)
              else ok_or (get_range f (unat offset) (unat offset + unat len)) (IoErr UnexpectedEof), app))"

text \<open>\<open>blob.chunks_exact(10)\<close>, each entry two little-endian numbers.\<close>

fun delta_entries :: "nat \<Rightarrow> bytes \<Rightarrow> (u16 \<times> u64) list" where
  "delta_entries 0 blob = []"
| "delta_entries (Suc n) blob =
     (from_le (take 2 blob), from_le (take 8 (drop 2 blob))) # delta_entries n (drop 10 blob)"

definition decode_delta :: "bytes \<Rightarrow> nat + (u16 \<times> u64) list" where
  "decode_delta blob =
     (if length blob mod 10 \<noteq> 0 then Inl (length blob) else Inr (delta_entries (length blob div 10) blob))"

definition detail_of :: "decoder \<Rightarrow> chunk_kind \<Rightarrow> bytes res \<Rightarrow> detail" where
  "detail_of zd kind blob =
     (case kind of
        Zero \<Rightarrow> DZero
      | Full \<Rightarrow>
          (case blob of
             Inr b \<Rightarrow> (case zd b of Some d \<Rightarrow> DFull d | None \<Rightarrow> DErr ZstdFailed)
           | Inl e \<Rightarrow> DErr (BlobReadFailed e))
      | Delta \<Rightarrow>
          (case blob of
             Inr b \<Rightarrow> (case decode_delta b of Inr p \<Rightarrow> DDelta p | Inl n \<Rightarrow> DErr (BadDelta n))
           | Inl e \<Rightarrow> DErr (BlobReadFailed e)))"

definition ensure_detail :: "decoder \<Rightarrow> app \<Rightarrow> app res" where
  "ensure_detail zd app =
     (case ap_selected app of
        None \<Rightarrow> Inr app
      | Some i \<Rightarrow>
          if map_option fst (ap_detail app) = Some i then Inr app
          else
            rbind (record_at app i) (\<lambda>rec.
              if r_kind rec = Zero then Inr (app\<lparr>ap_detail := Some (i, DZero)\<rparr>)
              else
                case read_blob (r_worker_id rec) (r_offset rec) (r_len rec) app of
                  (blob, app) \<Rightarrow> Inr (app\<lparr>ap_detail := Some (i, detail_of zd (r_kind rec) blob)\<rparr>)))"

definition keeps :: "u32 option \<Rightarrow> u64 option \<Rightarrow> chunk_record \<Rightarrow> bool" where
  "keeps snap pa r \<longleftrightarrow>
     (case snap of Some s \<Rightarrow> snapshot_of (r_key r) = s | None \<Rightarrow> True) \<and>
     (case pa of Some p \<Rightarrow> pa_of (r_key r) = p | None \<Rightarrow> True)"

definition select_first :: "app \<Rightarrow> app" where
  "select_first app =
     app\<lparr>ap_detail := None, ap_selected := (if 0 < active_count app then Some 0 else None), ap_scroll := 0\<rparr>"

definition apply_filter :: "u32 option \<Rightarrow> u64 option \<Rightarrow> app \<Rightarrow> app" where
  "apply_filter snap pa app =
     (let indices = map fst (filter (\<lambda>(i, r). keeps snap pa r) (enumerate 0 (ap_records app)))
      in select_first (app\<lparr>ap_filtered := Some indices, ap_filter_snapshot := snap, ap_filter_pa := pa\<rparr>))"

definition clear_filter :: "app \<Rightarrow> app" where
  "clear_filter app =
     select_first (app\<lparr>ap_filtered := None, ap_filter_snapshot := None, ap_filter_pa := None\<rparr>)"

text \<open>
  The files the user names, and when writing one fails: \<open>fail path\<close> is then what is left there.
\<close>

type_synonym files = "ustring \<Rightarrow> bytes option"

type_synonym disk = "ustring \<Rightarrow> bytes option option"

definition export_detail :: "disk \<Rightarrow> ustring \<Rightarrow> app \<times> files \<Rightarrow> app \<times> files" where
  "export_detail fail path = (\<lambda>(app, files).
     case ap_detail app of
       Some (_, DFull decompressed) \<Rightarrow>
         (case fail path of
            None \<Rightarrow> (app\<lparr>ap_export_status := Some (Exported (length decompressed) path)\<rparr>, files(path \<mapsto> decompressed))
          | Some rest \<Rightarrow> (app\<lparr>ap_export_status := Some ExportFailed\<rparr>, files(path := rest)))
     | _ \<Rightarrow> (app\<lparr>ap_export_status := Some NothingToExport\<rparr>, files))"

definition parse_token :: "u32 option \<times> u64 option \<Rightarrow> string \<Rightarrow> u32 option \<times> u64 option" where
  "parse_token = (\<lambda>(snap, pa) token.
     if token = [] then (snap, pa)
     else if take 2 token = ''0x'' \<or> take 2 token = ''0X'' then
       (case parse_word 16 (drop 2 token) of Some p \<Rightarrow> (snap, Some p) | None \<Rightarrow> (snap, pa))
     else if list_all (\<lambda>c. digit_val 10 c \<noteq> None) token then
       (case parse_word 10 token of Some s \<Rightarrow> (Some s, pa) | None \<Rightarrow> (snap, pa))
     else (snap, pa))"

definition parse_filter_input :: "string \<Rightarrow> u32 option \<times> u64 option" where
  "parse_filter_input s = foldl parse_token (None, None) (split_whitespace s)"

section \<open>Keys\<close>

datatype key_code =
    KEsc | KEnter | KBackspace | KUp | KDown | KPageUp | KPageDown | KHome | KEnd | KChar nat | KOther

datatype modifier = MShift | MControl | MAlt | MSuper | MHyper | MMeta

datatype input = Press key_code "modifier set" | NoPress

abbreviation KLetter :: "char \<Rightarrow> key_code" where
  "KLetter c \<equiv> KChar (of_char c)"

text \<open>\<open>is_ascii_hexdigit\<close>, \<open>x\<close>, \<open>X\<close> or a space; \<open>char::is_control\<close>; \<open>String::len\<close> in bytes.\<close>

definition filter_char :: "nat \<Rightarrow> bool" where
  "filter_char c \<longleftrightarrow>
     48 \<le> c \<and> c \<le> 57 \<or> 65 \<le> c \<and> c \<le> 70 \<or> 97 \<le> c \<and> c \<le> 102 \<or>
     c = of_char CHR ''x'' \<or> c = of_char CHR ''X'' \<or> c = of_char CHR '' ''"

definition is_control :: "nat \<Rightarrow> bool" where
  "is_control c \<longleftrightarrow> c < 32 \<or> 127 \<le> c \<and> c < 160"

definition utf8_len :: "ustring \<Rightarrow> nat" where
  "utf8_len s = sum_list (map (\<lambda>c. if c < 0x80 then 1 else if c < 0x800 then 2 else if c < 0x10000 then 3 else 4) s)"

definition filter_key :: "key_code \<Rightarrow> string \<Rightarrow> app \<Rightarrow> app" where
  "filter_key code buf app =
     (case code of
        KEsc \<Rightarrow> app\<lparr>ap_filter_input := None\<rparr>
      | KEnter \<Rightarrow>
          let app = app\<lparr>ap_filter_input := None\<rparr>
          in if buf = [] then clear_filter app
             else
               (case parse_filter_input buf of
                  (snap, pa) \<Rightarrow> if snap \<noteq> None \<or> pa \<noteq> None then apply_filter snap pa app else app)
      | KBackspace \<Rightarrow> app\<lparr>ap_filter_input := Some (butlast buf)\<rparr>
      | KChar c \<Rightarrow>
          if filter_char c \<and> length buf < 40 then app\<lparr>ap_filter_input := Some (buf @ [char_of c])\<rparr> else app
      | _ \<Rightarrow> app)"

definition export_key :: "disk \<Rightarrow> key_code \<Rightarrow> ustring \<Rightarrow> app \<times> files \<Rightarrow> app \<times> files" where
  "export_key fail code path = (\<lambda>(app, files).
     case code of
       KEsc \<Rightarrow> (app\<lparr>ap_export_input := None\<rparr>, files)
     | KEnter \<Rightarrow>
         let app = app\<lparr>ap_export_input := None\<rparr>
         in if path \<noteq> [] then export_detail fail path (app, files) else (app, files)
     | KBackspace \<Rightarrow> (app\<lparr>ap_export_input := Some (butlast path)\<rparr>, files)
     | KChar c \<Rightarrow>
         if \<not> is_control c \<and> utf8_len path < 255 then (app\<lparr>ap_export_input := Some (path @ [c])\<rparr>, files)
         else (app, files)
     | _ \<Rightarrow> (app, files))"

text \<open>\<open>saturating_sub\<close> and \<open>saturating_add\<close> on the scroll position.\<close>

definition scroll_up :: "u16 \<Rightarrow> u16 \<Rightarrow> u16" where
  "scroll_up n s = (if n \<le> s then s - n else 0)"

definition scroll_down :: "u16 \<Rightarrow> u16 \<Rightarrow> u16" where
  "scroll_down n s = (if unat s + unat n < 2 ^ 16 then s + n else - 1)"

text \<open>A letter outside the prompts; \<open>None\<close> ends the program.\<close>

definition letter_key :: "nat \<Rightarrow> modifier set \<Rightarrow> app \<Rightarrow> app option res" where
  "letter_key c m app =
     (if c = of_char CHR ''q'' then Inr None
      else if c = of_char CHR ''c'' \<and> m = {MControl} then Inr None
      else if c = of_char CHR ''f'' then
        Inr (Some (if ap_filter_snapshot app \<noteq> None \<or> ap_filter_pa app \<noteq> None then clear_filter app
                   else app\<lparr>ap_filter_input := Some []\<rparr>))
      else if c = of_char CHR ''e'' then
        (case ap_selected app of
           None \<Rightarrow> Inr (Some app)
         | Some i \<Rightarrow>
             rbind (record_at app i) (\<lambda>rec.
               Inr (Some (if r_kind rec = Full then app\<lparr>ap_export_input := Some []\<rparr> else app))))
      else if c = of_char CHR ''k'' \<and> MShift \<notin> m then Inr (Some (move_by (- 1) app))
      else if c = of_char CHR ''j'' \<and> MShift \<notin> m then Inr (Some (move_by 1 app))
      else if c = of_char CHR ''g'' then Inr (Some (go_to 0 app))
      else if c = of_char CHR ''G'' then Inr (Some (go_to (2 ^ 64 - 1) app))
      else if c = of_char CHR ''K'' then Inr (Some (app\<lparr>ap_scroll := scroll_up 1 (ap_scroll app)\<rparr>))
      else if c = of_char CHR ''J'' then Inr (Some (app\<lparr>ap_scroll := scroll_down 1 (ap_scroll app)\<rparr>))
      else if c = of_char CHR ''u'' \<and> m = {MControl} then Inr (Some (app\<lparr>ap_scroll := scroll_up 10 (ap_scroll app)\<rparr>))
      else if c = of_char CHR ''d'' \<and> m = {MControl} then Inr (Some (app\<lparr>ap_scroll := scroll_down 10 (ap_scroll app)\<rparr>))
      else Inr (Some app))"

definition view_key :: "key_code \<Rightarrow> modifier set \<Rightarrow> app \<Rightarrow> app option res" where
  "view_key code m app =
     (let app = app\<lparr>ap_export_status := None\<rparr>
      in case code of
           KEsc \<Rightarrow> Inr None
         | KUp \<Rightarrow> Inr (Some (move_by (- 1) app))
         | KDown \<Rightarrow> Inr (Some (move_by 1 app))
         | KPageUp \<Rightarrow> Inr (Some (move_by (- 10) app))
         | KPageDown \<Rightarrow> Inr (Some (move_by 10 app))
         | KHome \<Rightarrow> Inr (Some (go_to 0 app))
         | KEnd \<Rightarrow> Inr (Some (go_to (2 ^ 64 - 1) app))
         | KChar c \<Rightarrow> letter_key c m app
         | _ \<Rightarrow> Inr (Some app))"

definition handle_input :: "disk \<Rightarrow> input \<Rightarrow> app \<times> files \<Rightarrow> (app \<times> files) option res" where
  "handle_input fail ev = (\<lambda>(app, files).
     case ev of
       NoPress \<Rightarrow> Inr (Some (app, files))
     | Press code m \<Rightarrow>
         (case ap_filter_input app of
            Some buf \<Rightarrow> Inr (Some (filter_key code buf app, files))
          | None \<Rightarrow>
              (case ap_export_input app of
                 Some path \<Rightarrow> Inr (Some (export_key fail code path (app, files)))
               | None \<Rightarrow> rbind (view_key code m app) (\<lambda>r. Inr (map_option (\<lambda>app. (app, files)) r)))))"

end
