(* ===== verification/Screen.thy ===== *)
theory Screen
  imports Inspect
begin

text \<open>
  What the inspector shows (\<open>draw\<close> and its parts, as text without colours), its event loop
  and \<open>main\<close>. The layout and the widgets belong to \<open>ratatui\<close>, reading the keyboard to
  \<open>crossterm\<close>: a frame is drawn for the height of the list panel at that moment, and the
  loop is run over the events in the order they arrive.
\<close>

section \<open>Rows and panels\<close>

text \<open>Collecting an iterator of fallible items.\<close>

fun res_map :: "('a \<Rightarrow> 'b res) \<Rightarrow> 'a list \<Rightarrow> 'b list res" where
  "res_map f [] = Inr []"
| "res_map f (x # xs) = rbind (f x) (\<lambda>y. rbind (res_map f xs) (\<lambda>ys. Inr (y # ys)))"

lemma res_map_Inr: "\<forall>x \<in> set xs. f x = Inr (g x) \<Longrightarrow> res_map f xs = Inr (map g xs)"
  by (induction xs) auto

fun kind_marker :: "chunk_kind \<Rightarrow> string" where
  "kind_marker Full = ''F''"
| "kind_marker Delta = ''D''"
| "kind_marker Zero = ''Z''"

fun kind_span :: "chunk_kind \<Rightarrow> string" where
  "kind_span Full = ''Full''"
| "kind_span Delta = ''Delta''"
| "kind_span Zero = ''Zero''"

definition list_row :: "chunk_record \<Rightarrow> string" where
  "list_row rec =
     kind_marker (r_kind rec) @ '' '' @
     ''PA=0x'' @ pad_left CHR ''0'' 11 (show_hex (unat (pa_of (r_key rec)))) @
     ''  S='' @ pad_left CHR '' '' 5 (show_dec (unat (snapshot_of (r_key rec))))"

text \<open>The rows shown: the selected one is kept in the middle, away from both ends.\<close>

definition list_window :: "nat \<Rightarrow> nat \<Rightarrow> nat \<Rightarrow> nat \<times> nat" where
  "list_window visible n sel =
     (let start = (if sel < visible div 2 then 0 else min (sel - visible div 2) (n - visible));
          stop = min (start + visible) n
      in (start, stop))"

record list_view =
  lv_rows :: "string list"
  lv_selected :: nat
  lv_title :: string

definition list_title :: "app \<Rightarrow> nat \<Rightarrow> string" where
  "list_title app n =
     (let all = show_dec (length (ap_records app))
      in case (ap_filter_snapshot app, ap_filter_pa app) of
           (Some s, Some p) \<Rightarrow>
             ''Records ['' @ show_dec n @ '' / '' @ all @ '']  filter: snap='' @ show_dec (unat s) @ '' pa=0x'' @ show_hex (unat p)
         | (Some s, None) \<Rightarrow> ''Records ['' @ show_dec n @ '' / '' @ all @ '']  filter: snap='' @ show_dec (unat s)
         | (None, Some p) \<Rightarrow> ''Records ['' @ show_dec n @ '' / '' @ all @ '']  filter: pa=0x'' @ show_hex (unat p)
         | (None, None) \<Rightarrow> ''Records ['' @ show_dec n @ '']'')"

definition draw_list :: "nat \<Rightarrow> app \<Rightarrow> list_view option res" where
  "draw_list height app =
     (let total = active_count app
      in if total = 0 then Inr None
         else
           let visible = height - 2;
               sel = (case ap_selected app of Some i \<Rightarrow> i | None \<Rightarrow> 0)
           in case list_window visible total sel of
                (start, stop) \<Rightarrow>
                  rbind (res_map (\<lambda>i. rbind (record_at app i) (\<lambda>rec. Inr (list_row rec))) [start..<stop]) (\<lambda>items.
                    Inr (Some \<lparr>lv_rows = items, lv_selected = sel - start, lv_title = list_title app total\<rparr>)))"

section \<open>The detail panel\<close>

definition append_hex :: "bytes \<Rightarrow> string list" where
  "append_hex data =
     map (\<lambda>(row, chunk).
       let off = row * 16;
           hex = concat (map (\<lambda>(i, b). (if i = 8 then '' '' else []) @ show_byte b @ '' '') (enumerate 0 chunk));
           asc = map (\<lambda>b. if 0x20 \<le> b \<and> b < 0x7F then char_of (unat b) else CHR ''.'') chunk
       in ''  '' @ pad_left CHR ''0'' 4 (show_hex off) @ ''  '' @ pad_right 50 hex @ ''  |'' @ asc @ ''|'')
     (enumerate 0 (chunks_of 16 data))"

text \<open>The text of an error is left open.\<close>

datatype panel_line = Line string | ErrorLine insp_error

definition key_lines :: "chunk_record \<Rightarrow> string list" where
  "key_lines rec =
     (let pa = unat (pa_of (r_key rec))
      in [''Key (u64):     0x'' @ pad_left CHR ''0'' 16 (show_hex (unat (r_key rec))),
          ''PA (45 bits):  0x'' @ show_hex pa @ ''  ('' @ show_dec pa @ '')'',
          ''Snapshot id:   '' @ show_dec (unat (snapshot_of (r_key rec))),
          ''Kind:          '' @ kind_span (r_kind rec)])"

definition blob_lines :: "chunk_record \<Rightarrow> string list" where
  "blob_lines rec =
     [''Worker blob:   '' @ worker_name (r_worker_id rec),
      ''Blob range:    [0x'' @ show_hex (unat (r_offset rec)) @ '' .. 0x'' @
        show_hex (unat (r_offset rec + ucast (r_len rec))) @ '')   ('' @ show_dec (unat (r_len rec)) @ '' bytes)'']"

definition base_line :: "u64 \<Rightarrow> string" where
  "base_line base_key =
     ''Base key:      0x'' @ pad_left CHR ''0'' 16 (show_hex (unat base_key)) @ ''   (PA=0x'' @
     show_hex (unat (pa_of base_key)) @ ''  S='' @ show_dec (unat (snapshot_of base_key)) @ '')''"

definition patch_line :: "u16 \<times> u64 \<Rightarrow> string" where
  "patch_line = (\<lambda>(widx, xor).
     let byte = unat widx * 8
     in ''  '' @ pad_left CHR '' '' 4 (show_dec (unat widx)) @ ''  |  0x'' @ pad_left CHR ''0'' 16 (show_hex (unat xor)) @
        ''    |  ['' @ pad_left CHR '' '' 4 (show_dec byte) @ '' .. '' @ pad_left CHR '' '' 4 (show_dec (byte + 8)) @ '')'')"

definition full_lines :: "detail option \<Rightarrow> panel_line list" where
  "full_lines d =
     (case d of
        Some (DFull decompressed) \<Rightarrow>
          map Line ([''Decompressed:  '' @ show_dec (length decompressed) @ '' bytes'', [], ''-- hex dump --''] @
            append_hex decompressed)
      | Some (DErr e) \<Rightarrow> [ErrorLine e]
      | _ \<Rightarrow> [Line ''(loading...)''])"

definition delta_lines :: "detail option \<Rightarrow> panel_line list" where
  "delta_lines d =
     (case d of
        Some (DDelta patch) \<Rightarrow>
          map Line ([''Patch:         '' @ show_dec (length patch) @ '' entries'', [],
              ''  word  |  xor value           |  page bytes''] @ map patch_line patch)
      | Some (DErr e) \<Rightarrow> [ErrorLine e]
      | _ \<Rightarrow> [Line ''(loading...)''])"

text \<open>The title and the lines; the panel shows the detail only if it is that of the selection.\<close>

definition draw_detail :: "app \<Rightarrow> (string \<times> panel_line list) res" where
  "draw_detail app =
     (case ap_selected app of
        None \<Rightarrow> Inr (''Detail'', [Line ''(no records)''])
      | Some i \<Rightarrow>
          rbind (record_at app i) (\<lambda>rec.
            let d = (case ap_detail app of Some (idx, d) \<Rightarrow> if idx = i then Some d else None | None \<Rightarrow> None);
                title = ''Detail - PA=0x'' @ show_hex (unat (pa_of (r_key rec))) @ ''  S='' @
                  show_dec (unat (snapshot_of (r_key rec)))
            in Inr (title, map Line (key_lines rec) @
                 (case r_kind rec of
                    Zero \<Rightarrow> [Line ''(no blob data - page is all zero)'']
                  | Full \<Rightarrow> map Line (blob_lines rec) @ full_lines d
                  | Delta \<Rightarrow> map Line (blob_lines rec @ [base_line (r_base_key rec)]) @ delta_lines d))))"

section \<open>The header and the bottom line\<close>

definition ascii :: "string \<Rightarrow> ustring" where
  "ascii s = map of_char s"

text \<open>The first line of the header; \<open>path\<close> is how the directory is displayed.\<close>

definition draw_header :: "ustring \<Rightarrow> app \<Rightarrow> ustring" where
  "draw_header path app =
     ascii ''Path: '' @ path @
     ascii (''   Mode: '' @ (case ap_mode app of BTree \<Rightarrow> ''B-Tree (index.bxdb)'' | AppendOnly \<Rightarrow> ''Append-Only (chunks.log)'') @
       ''   Records: '' @ show_dec (st_total (ap_stats app)) @
       ''   Max snapshot: '' @ show_dec (unat (ap_max_snapshot app)) @
       (case ap_filter_snapshot app of Some s \<Rightarrow> ''   Filter: snap='' @ show_dec (unat s) | None \<Rightarrow> []) @
       (case ap_filter_pa app of
          Some p \<Rightarrow> (if ap_filter_snapshot app \<noteq> None then ''  '' else ''   Filter: '') @ ''pa=0x'' @ show_hex (unat p)
        | None \<Rightarrow> []) @
       (if ap_filter_snapshot app \<noteq> None \<or> ap_filter_pa app \<noteq> None
        then ''  ('' @ show_dec (active_count app) @ '' records)'' else []))"

definition draw_export_prompt :: "ustring \<Rightarrow> ustring" where
  "draw_export_prompt path =
     ascii ''Export file: '' @ (if path = [] then ascii ''(type filename, Enter to save, Esc to cancel)'' else path)"

definition draw_filter_prompt :: "app \<Rightarrow> ustring" where
  "draw_filter_prompt app =
     (let buf = (case ap_filter_input app of Some b \<Rightarrow> b | None \<Rightarrow> [])
      in ascii (''Filter (snapshot and/or PA, e.g. 42 0x1234): '' @
           (if buf = [] then ''(Enter to apply, Esc to cancel)'' else buf)))"

definition draw_help :: ustring where
  "draw_help = ascii ('' j/k/Up/Down select   PgUp/PgDn +/-10   g/G top/bot   J/K scroll   ^U/^D +/-10   f filter  '' @
     '' e export   q quit'')"

text \<open>The texts of \<open>export_status\<close>, with that of an error left open.\<close>

definition status_text :: "export_status \<Rightarrow> ustring option" where
  "status_text st =
     (case st of
        Exported n path \<Rightarrow> Some (ascii (''Exported '' @ show_dec n @ '' bytes to '') @ path)
      | NothingToExport \<Rightarrow> Some (ascii ''Nothing to export (select a Full chunk)'')
      | ExportFailed \<Rightarrow> None)"

definition bottom_line :: "app \<Rightarrow> ustring option" where
  "bottom_line app =
     (case ap_export_input app of
        Some path \<Rightarrow> Some (draw_export_prompt path)
      | None \<Rightarrow>
          if ap_filter_input app \<noteq> None then Some (draw_filter_prompt app)
          else (case ap_export_status app of Some st \<Rightarrow> status_text st | None \<Rightarrow> Some draw_help))"

record screen =
  sc_header :: ustring
  sc_list :: "list_view option"
  sc_detail :: "string \<times> panel_line list"
  sc_bottom :: "ustring option"

definition draw :: "ustring \<Rightarrow> nat \<Rightarrow> app \<Rightarrow> screen res" where
  "draw path height app =
     rbind (draw_list height app) (\<lambda>l.
     rbind (draw_detail app) (\<lambda>d.
       Inr \<lparr>sc_header = draw_header path app, sc_list = l, sc_detail = d, sc_bottom = bottom_line app\<rparr>))"

section \<open>The event loop\<close>

text \<open>One turn: complete the detail, draw a frame, handle one event.\<close>

definition turn :: "decoder \<Rightarrow> disk \<Rightarrow> ustring \<Rightarrow> nat \<times> input \<Rightarrow> app \<times> files \<Rightarrow> (app \<times> files) option res" where
  "turn zd fail path = (\<lambda>(height, ev) (app, files).
     rbind (ensure_detail zd app) (\<lambda>app.
     rbind (draw path height app) (\<lambda>_. handle_input fail ev (app, files))))"

text \<open>The outcome for a sequence of events: quit, with the files then, or waiting for more.\<close>

datatype outcome = Quit files | Waiting app files

fun event_loop :: "decoder \<Rightarrow> disk \<Rightarrow> ustring \<Rightarrow> (nat \<times> input) list \<Rightarrow> app \<times> files \<Rightarrow> outcome res" where
  "event_loop zd fail path [] s = Inr (case s of (app, files) \<Rightarrow> Waiting app files)"
| "event_loop zd fail path (ev # evs) s =
     rbind (turn zd fail path ev s) (\<lambda>r.
       case r of None \<Rightarrow> Inr (Quit (snd s)) | Some s' \<Rightarrow> event_loop zd fail path evs s')"

definition insp_open :: "db_dir \<Rightarrow> u32 option \<Rightarrow> u64 option \<Rightarrow> app res" where
  "insp_open dir cli_snapshot cli_pa =
     rbind (load_records dir) (\<lambda>(mode, records, max_snap).
       let app = app_new dir mode records (stats_of records) max_snap
       in Inr (if cli_snapshot \<noteq> None \<or> cli_pa \<noteq> None then apply_filter cli_snapshot cli_pa app else app))"

text \<open>The exit code and the outcome; without events left the program is still running.\<close>

definition insp_main ::
  "decoder \<Rightarrow> disk \<Rightarrow> (string \<Rightarrow> db_dir) \<Rightarrow> string list \<Rightarrow> (nat \<times> input) list \<Rightarrow> files \<Rightarrow> (nat option \<times> outcome option) res" where
  "insp_main zd fail fs args evs files =
     (case parse_args args \<lparr>ia_snapshot = None, ia_pa = None, ia_db = None\<rparr> of
        None \<Rightarrow> Inr (Some 2, None)
      | Some p \<Rightarrow>
          (case ia_db p of
             None \<Rightarrow> Inr (Some 2, None)
           | Some db \<Rightarrow>
               (case insp_open (fs db) (ia_snapshot p) (ia_pa p) of
                  Inl _ \<Rightarrow> Inr (Some 1, None)
                | Inr app \<Rightarrow>
                    rbind (event_loop zd fail (ascii db) evs (app, files)) (\<lambda>out.
                      Inr (case out of Quit _ \<Rightarrow> Some 0 | Waiting _ _ \<Rightarrow> None, Some out)))))"

end
