(* ===== verification/Browse.thy ===== *)
theory Browse
  imports Screen Saves
begin

text \<open>
  The inspector over all its runs: an invariant of its state that every key preserves, so that
  no panic is reachable, the panel always shows the detail of the selected record and the
  selected row is on screen; what a typed filter selects; and what an export writes.
\<close>

section \<open>The invariant\<close>

text \<open>The records the list shows, and what the detail of a record must be.\<close>

definition active_records :: "app \<Rightarrow> chunk_record list" where
  "active_records app =
     (case ap_filtered app of None \<Rightarrow> ap_records app | Some f \<Rightarrow> map ((!) (ap_records app)) f)"

definition stored_blob :: "blobs \<Rightarrow> chunk_record \<Rightarrow> bytes res" where
  "stored_blob bl r =
     rbind (ok_or (bl (r_worker_id r)) (IoErr NotFound)) (\<lambda>f.
       if r_len r = 0 then Inr []
       else if 2 ^ 63 \<le> r_offset r then Inl (IoErr InvalidInput)
       else ok_or (get_range f (unat (r_offset r)) (unat (r_offset r) + unat (r_len r))) (IoErr UnexpectedEof))"

definition detail_for :: "decoder \<Rightarrow> blobs \<Rightarrow> chunk_record \<Rightarrow> detail" where
  "detail_for zd bl r = detail_of zd (r_kind r) (stored_blob bl r)"

definition opened_ok :: "app \<Rightarrow> bool" where
  "opened_ok app \<longleftrightarrow> (\<forall>w f. ap_blob_files app w = Some f \<longrightarrow> dd_blobs (ap_dir app) w = Some f)"

definition list_ok :: "app \<Rightarrow> bool" where
  "list_ok app \<longleftrightarrow>
     (\<forall>f. ap_filtered app = Some f \<longrightarrow> (\<forall>i \<in> set f. i < length (ap_records app))) \<and>
     active_records app = filter (keeps (ap_filter_snapshot app) (ap_filter_pa app)) (ap_records app) \<and>
     (case ap_selected app of None \<Rightarrow> active_records app = [] | Some i \<Rightarrow> i < length (active_records app))"

definition detail_ok :: "decoder \<Rightarrow> app \<Rightarrow> bool" where
  "detail_ok zd app \<longleftrightarrow>
     (\<forall>i d. ap_detail app = Some (i, d) \<longrightarrow>
        i < length (active_records app) \<and> d = detail_for zd (dd_blobs (ap_dir app)) (active_records app ! i))"

definition prompts_ok :: "app \<Rightarrow> bool" where
  "prompts_ok app \<longleftrightarrow>
     (ap_filter_input app \<noteq> None \<longrightarrow>
        ap_export_input app = None \<and> ap_filter_snapshot app = None \<and> ap_filter_pa app = None) \<and>
     (ap_export_input app \<noteq> None \<longrightarrow>
        (\<exists>i. ap_selected app = Some i \<and> r_kind (active_records app ! i) = Full))"

definition app_ok :: "decoder \<Rightarrow> app \<Rightarrow> bool" where
  "app_ok zd app \<longleftrightarrow> opened_ok app \<and> list_ok app \<and> detail_ok zd app \<and> prompts_ok app"

lemmas app_ok_defs = app_ok_def opened_ok_def list_ok_def detail_ok_def prompts_ok_def

lemma active_records_cong [simp]:
  "active_records (app\<lparr>ap_detail := d\<rparr>) = active_records app"
  "active_records (app\<lparr>ap_blob_files := b\<rparr>) = active_records app"
  "active_records (app\<lparr>ap_selected := s\<rparr>) = active_records app"
  "active_records (app\<lparr>ap_scroll := n\<rparr>) = active_records app"
  "active_records (app\<lparr>ap_filter_input := fi\<rparr>) = active_records app"
  "active_records (app\<lparr>ap_export_input := ei\<rparr>) = active_records app"
  "active_records (app\<lparr>ap_export_status := es\<rparr>) = active_records app"
  "active_records (app\<lparr>ap_filter_snapshot := fs\<rparr>) = active_records app"
  "active_records (app\<lparr>ap_filter_pa := fp\<rparr>) = active_records app"
  by (simp_all add: active_records_def split: option.split)

lemma list_ok_cong [simp]:
  "list_ok (app\<lparr>ap_detail := x0\<rparr>) = list_ok app"
  "list_ok (app\<lparr>ap_blob_files := x1\<rparr>) = list_ok app"
  "list_ok (app\<lparr>ap_scroll := x2\<rparr>) = list_ok app"
  "list_ok (app\<lparr>ap_filter_input := x3\<rparr>) = list_ok app"
  "list_ok (app\<lparr>ap_export_input := x4\<rparr>) = list_ok app"
  "list_ok (app\<lparr>ap_export_status := x5\<rparr>) = list_ok app"
  by (simp_all add: list_ok_def split: option.split)

lemma detail_ok_cong [simp]:
  "detail_ok zd (app\<lparr>ap_selected := x0\<rparr>) = detail_ok zd app"
  "detail_ok zd (app\<lparr>ap_blob_files := x1\<rparr>) = detail_ok zd app"
  "detail_ok zd (app\<lparr>ap_scroll := x2\<rparr>) = detail_ok zd app"
  "detail_ok zd (app\<lparr>ap_filter_input := x3\<rparr>) = detail_ok zd app"
  "detail_ok zd (app\<lparr>ap_export_input := x4\<rparr>) = detail_ok zd app"
  "detail_ok zd (app\<lparr>ap_export_status := x5\<rparr>) = detail_ok zd app"
  by (simp_all add: detail_ok_def)

lemma opened_ok_cong [simp]:
  "opened_ok (app\<lparr>ap_detail := x0\<rparr>) = opened_ok app"
  "opened_ok (app\<lparr>ap_selected := x1\<rparr>) = opened_ok app"
  "opened_ok (app\<lparr>ap_scroll := x2\<rparr>) = opened_ok app"
  "opened_ok (app\<lparr>ap_filter_input := x3\<rparr>) = opened_ok app"
  "opened_ok (app\<lparr>ap_export_input := x4\<rparr>) = opened_ok app"
  "opened_ok (app\<lparr>ap_export_status := x5\<rparr>) = opened_ok app"
  "opened_ok (app\<lparr>ap_filtered := x6\<rparr>) = opened_ok app"
  "opened_ok (app\<lparr>ap_filter_snapshot := x7\<rparr>) = opened_ok app"
  "opened_ok (app\<lparr>ap_filter_pa := x8\<rparr>) = opened_ok app"
  by (simp_all add: opened_ok_def)

lemma selected_in_range:
  "list_ok app \<Longrightarrow> ap_selected app = Some i \<Longrightarrow> i < length (active_records app)"
  unfolding list_ok_def by (elim conjE) (simp only: option.case)

lemma active_count_eq: "active_count app = length (active_records app)"
  by (simp add: active_count_def active_records_def split: option.split)

lemma record_at_ok:
  assumes "list_ok app" "i < length (active_records app)"
  shows "record_at app i = Inr (active_records app ! i)"
proof (cases "ap_filtered app")
  case None
  with assms(2) show ?thesis by (simp add: record_at_def real_idx_def index_list_def active_records_def)
next
  case (Some f)
  then have act: "active_records app = map ((!) (ap_records app)) f" by (simp add: active_records_def)
  with assms(2) have "i < length f" by simp
  moreover from this assms(1) Some have "f ! i < length (ap_records app)" by (simp add: list_ok_def)
  ultimately show ?thesis using Some by (simp add: record_at_def real_idx_def index_list_def act)
qed

section \<open>Operations keep it\<close>

lemma move_by_ok: "app_ok zd app \<Longrightarrow> ap_filter_input app = None \<Longrightarrow> ap_export_input app = None \<Longrightarrow> app_ok zd (move_by d app)"
  by (auto simp: app_ok_defs move_by_def active_count_eq Let_def nat_less_iff split: option.splits)

lemma go_to_ok: "app_ok zd app \<Longrightarrow> ap_filter_input app = None \<Longrightarrow> ap_export_input app = None \<Longrightarrow> app_ok zd (go_to i app)"
  by (auto simp: app_ok_defs go_to_def active_count_eq Let_def split: option.splits)

lemma map_snd_filter_enumerate: "map snd (filter (\<lambda>(i, r). P r) (enumerate n rs)) = filter P rs"
  by (induction rs arbitrary: n) auto

lemma filtered_indices:
  "map ((!) rs) (map fst (filter (\<lambda>(i, r). P r) (enumerate 0 rs))) = filter P rs \<and>
   (\<forall>i \<in> set (map fst (filter (\<lambda>(i, r). P r) (enumerate 0 rs))). i < length rs)"
proof
  have "map ((!) rs) (map fst (filter (\<lambda>(i, r). P r) (enumerate 0 rs))) =
      map snd (filter (\<lambda>(i, r). P r) (enumerate 0 rs))"
    by (auto simp: in_set_enumerate_eq)
  then show "map ((!) rs) (map fst (filter (\<lambda>(i, r). P r) (enumerate 0 rs))) = filter P rs"
    by (simp only: map_snd_filter_enumerate)
qed (auto simp: in_set_enumerate_eq)

lemma selected_after_filter:
  "ap_selected (apply_filter snap pa app) = (if active_records (apply_filter snap pa app) = [] then None else Some 0)"
proof -
  have "ap_selected (select_first app) = (if active_records app = [] then None else Some 0)"
    "active_records (select_first app) = active_records app" for app
    by (simp_all add: select_first_def active_count_eq)
  then show ?thesis by (simp only: apply_filter_def Let_def)
qed

lemma active_after_filter [simp]: "active_records (apply_filter snap pa app) = filter (keeps snap pa) (ap_records app)"
  using filtered_indices [of "ap_records app" "keeps snap pa"]
  by (simp add: apply_filter_def select_first_def Let_def) (simp add: active_records_def)

lemma apply_filter_ok:
  assumes "opened_ok app" "ap_export_input app = None" "ap_filter_input app = None"
  shows "app_ok zd (apply_filter snap pa app)"
proof -
  have act: "active_count (app\<lparr>ap_filtered := Some is, ap_filter_snapshot := snap, ap_filter_pa := pa\<rparr>) = length is" for "is"
    by (simp add: active_count_def)
  have "list_ok (apply_filter snap pa app)"
    unfolding list_ok_def active_after_filter using filtered_indices [of "ap_records app" "keeps snap pa"]
    by (auto simp: apply_filter_def select_first_def Let_def act)
  with assms show ?thesis by (simp add: app_ok_def opened_ok_def detail_ok_def prompts_ok_def apply_filter_def select_first_def Let_def)
qed

lemma clear_filter_ok:
  assumes "opened_ok app" "ap_export_input app = None" "ap_filter_input app = None"
  shows "app_ok zd (clear_filter app)"
proof -
  have "active_records (clear_filter app) = ap_records app"
    by (simp add: clear_filter_def select_first_def) (simp add: active_records_def)
  moreover have "filter (keeps None None) rs = rs" for rs by (simp add: keeps_def)
  ultimately show ?thesis using assms
    by (simp add: app_ok_defs clear_filter_def select_first_def active_count_def)
qed

section \<open>Completing the detail\<close>

lemma read_blob_ok:
  assumes "opened_ok app"
  shows "\<exists>b. read_blob (r_worker_id r) (r_offset r) (r_len r) app =
    (stored_blob (dd_blobs (ap_dir app)) r, app\<lparr>ap_blob_files := b\<rparr>) \<and> opened_ok (app\<lparr>ap_blob_files := b\<rparr>)"
proof (cases "ap_blob_files app (r_worker_id r)")
  case (Some f)
  with assms have "dd_blobs (ap_dir app) (r_worker_id r) = Some f" by (simp add: opened_ok_def)
  with assms Some show ?thesis
    by (intro exI [of _ "ap_blob_files app"]) (simp add: read_blob_def stored_blob_def)
next
  case None
  show ?thesis
  proof (cases "dd_blobs (ap_dir app) (r_worker_id r)")
    case None
    with \<open>ap_blob_files app (r_worker_id r) = None\<close> assms show ?thesis
      by (intro exI [of _ "ap_blob_files app"]) (simp add: read_blob_def stored_blob_def)
  next
    case (Some f)
    with None assms show ?thesis
      by (intro exI [of _ "(ap_blob_files app)(r_worker_id r \<mapsto> f)"])
        (simp add: read_blob_def stored_blob_def opened_ok_def)
  qed
qed

lemma ensure_detail_ok:
  assumes "app_ok zd app"
  shows "\<exists>d b. ensure_detail zd app = Inr (app\<lparr>ap_detail := d, ap_blob_files := b\<rparr>) \<and>
    app_ok zd (app\<lparr>ap_detail := d, ap_blob_files := b\<rparr>) \<and>
    (\<forall>i. ap_selected app = Some i \<longrightarrow>
       d = Some (i, detail_for zd (dd_blobs (ap_dir app)) (active_records app ! i)))"
proof (cases "ap_selected app")
  case None
  with assms show ?thesis
    by (intro exI [of _ "ap_detail app"] exI [of _ "ap_blob_files app"]) (simp add: ensure_detail_def)
next
  case (Some i)
  have ok: "opened_ok app" "list_ok app" "detail_ok zd app" "prompts_ok app" using assms by (simp_all add: app_ok_def)
  have i: "i < length (active_records app)" by (rule selected_in_range [OF ok(2) Some])
  let ?r = "active_records app ! i"
  have keep: "app_ok zd (app\<lparr>ap_detail := Some (i, detail_for zd (dd_blobs (ap_dir app)) ?r), ap_blob_files := b\<rparr>)"
    if "opened_ok (app\<lparr>ap_blob_files := b\<rparr>)" for b
    using that ok i by (simp add: app_ok_def detail_ok_def prompts_ok_def opened_ok_def)
  show ?thesis
  proof (cases "map_option fst (ap_detail app) = Some i")
    case True
    then obtain d where d: "ap_detail app = Some (i, d)" by auto
    with ok(3) have d: "ap_detail app = Some (i, detail_for zd (dd_blobs (ap_dir app)) ?r)" by (simp add: detail_ok_def)
    then have same: "app\<lparr>ap_detail := Some (i, detail_for zd (dd_blobs (ap_dir app)) ?r), ap_blob_files := ap_blob_files app\<rparr> = app"
      by (subst d [symmetric]) simp
    have "ensure_detail zd app = Inr app" using Some True by (simp add: ensure_detail_def)
    with same Some assms show ?thesis
      by (intro exI [of _ "Some (i, detail_for zd (dd_blobs (ap_dir app)) ?r)"] exI [of _ "ap_blob_files app"])
        (simp only: same option.inject simp_thms)
  next
    case False
    show ?thesis
    proof (cases "r_kind ?r = Zero")
      case True
      with keep [of "ap_blob_files app"] ok(1) False Some record_at_ok [OF ok(2) i] show ?thesis
        by (intro exI [of _ "Some (i, DZero)"] exI [of _ "ap_blob_files app"])
          (simp add: ensure_detail_def detail_for_def detail_of_def)
    next
      case kind: False
      obtain b where b: "read_blob (r_worker_id ?r) (r_offset ?r) (r_len ?r) app =
          (stored_blob (dd_blobs (ap_dir app)) ?r, app\<lparr>ap_blob_files := b\<rparr>)" "opened_ok (app\<lparr>ap_blob_files := b\<rparr>)"
        using read_blob_ok [OF ok(1)] by blast
      with keep [of b] False Some kind record_at_ok [OF ok(2) i] show ?thesis
        by (intro exI [of _ "Some (i, detail_for zd (dd_blobs (ap_dir app)) ?r)"] exI [of _ b])
          (simp add: ensure_detail_def detail_for_def)
    qed
  qed
qed

section \<open>Keys keep it\<close>

lemma filter_key_ok:
  assumes "app_ok zd app" "ap_filter_input app = Some buf"
  shows "app_ok zd (filter_key code buf app)"
proof -
  have ok: "opened_ok app" "ap_export_input app = None" using assms by (simp_all add: app_ok_def prompts_ok_def)
  let ?app = "app\<lparr>ap_filter_input := None\<rparr>"
  have closed: "app_ok zd ?app" "opened_ok ?app" "ap_export_input ?app = None" "ap_filter_input ?app = None"
    using assms ok by (simp_all add: app_ok_def prompts_ok_def)
  have typing: "app_ok zd (app\<lparr>ap_filter_input := Some buf'\<rparr>)" for buf'
    using assms by (simp add: app_ok_def prompts_ok_def)
  show ?thesis
    using typing closed(1) apply_filter_ok [OF closed(2-4)] clear_filter_ok [OF closed(2-4)] assms(1)
    by (simp add: filter_key_def Let_def split: key_code.split prod.split)
qed

lemma export_detail_fst: "\<exists>st. fst (export_detail fail path (app, files)) = app\<lparr>ap_export_status := st\<rparr>"
  by (auto simp: export_detail_def split: option.split prod.split detail.split)

lemma export_key_ok:
  assumes "app_ok zd app" "ap_export_input app = Some path"
  shows "app_ok zd (fst (export_key fail code path (app, files)))"
proof -
  have closed: "app_ok zd (app\<lparr>ap_export_input := None, ap_export_status := st\<rparr>)"
    "app_ok zd (app\<lparr>ap_export_input := None\<rparr>)" for st
    using assms by (simp_all add: app_ok_def prompts_ok_def)
  have typing: "app_ok zd (app\<lparr>ap_export_input := Some path'\<rparr>)" for path'
    using assms by (simp add: app_ok_def prompts_ok_def)
  obtain st where "fst (export_detail fail path (app\<lparr>ap_export_input := None\<rparr>, files)) =
      app\<lparr>ap_export_input := None, ap_export_status := st\<rparr>" using export_detail_fst by blast
  with closed typing assms(1) show ?thesis by (simp add: export_key_def Let_def split: key_code.split)
qed

lemma letter_key_ok:
  assumes "app_ok zd app" "ap_filter_input app = None" "ap_export_input app = None"
  shows "\<exists>r. letter_key c m app = Inr r \<and> (\<forall>app'. r = Some app' \<longrightarrow> app_ok zd app')"
proof -
  have ok: "opened_ok app" "list_ok app" using assms by (simp_all add: app_ok_def)
  have scroll: "app_ok zd (app\<lparr>ap_scroll := n\<rparr>)" for n using assms(1) by (simp add: app_ok_def prompts_ok_def)
  have prompt: "app_ok zd (app\<lparr>ap_filter_input := Some []\<rparr>)" if "ap_filter_snapshot app = None" "ap_filter_pa app = None"
    using assms that by (simp add: app_ok_def prompts_ok_def)
  have e: "\<exists>r. rbind (record_at app i) (\<lambda>rec. Inr (Some (if r_kind rec = Full then app\<lparr>ap_export_input := Some []\<rparr> else app))) = Inr r \<and>
      (\<forall>app'. r = Some app' \<longrightarrow> app_ok zd app')" if i: "ap_selected app = Some i" for i
  proof -
    have "i < length (active_records app)" by (rule selected_in_range [OF ok(2) i])
    with i assms show ?thesis by (simp add: record_at_ok [OF ok(2)]) (simp add: app_ok_def prompts_ok_def)
  qed
  show ?thesis
    using scroll prompt e assms(1) clear_filter_ok [OF ok(1) assms(3,2)] move_by_ok [OF assms] go_to_ok [OF assms]
    unfolding letter_key_def by (auto split: option.split)
qed

lemma view_key_ok:
  assumes "app_ok zd app" "ap_filter_input app = None" "ap_export_input app = None"
  shows "\<exists>r. view_key code m app = Inr r \<and> (\<forall>app'. r = Some app' \<longrightarrow> app_ok zd app')"
proof -
  let ?app = "app\<lparr>ap_export_status := None\<rparr>"
  have app: "app_ok zd ?app" "ap_filter_input ?app = None" "ap_export_input ?app = None"
    using assms by (simp_all add: app_ok_def prompts_ok_def)
  show ?thesis
    using letter_key_ok [OF app] move_by_ok [OF app] go_to_ok [OF app] app(1)
    by (simp add: view_key_def Let_def split: key_code.split)
qed

lemma handle_input_ok:
  assumes "app_ok zd app"
  shows "\<exists>r. handle_input fail ev (app, files) = Inr r \<and> (\<forall>app' files'. r = Some (app', files') \<longrightarrow> app_ok zd app')"
proof (cases ev)
  case (Press code m)
  show ?thesis
  proof (cases "ap_filter_input app")
    case (Some buf)
    with Press filter_key_ok [OF assms Some] show ?thesis by (simp add: handle_input_def)
  next
    case no_filter: None
    show ?thesis
    proof (cases "ap_export_input app")
      case (Some path)
      from export_key_ok [OF assms Some, of fail code files]
      have "app_ok zd app'" if "export_key fail code path (app, files) = (app', files')" for app' files' using that by simp
      with Some Press no_filter show ?thesis by (auto simp: handle_input_def)
    next
      case None
      from view_key_ok [OF assms no_filter None, of code m] Press no_filter None show ?thesis
        by (auto simp: handle_input_def)
    qed
  qed
qed (use assms in \<open>simp add: handle_input_def\<close>)

section \<open>Frames\<close>

lemma list_window_bounds:
  assumes "list_window visible n sel = (start, stop)" "sel < n" "0 < visible"
  shows "start \<le> sel" "sel < stop" "stop \<le> n"
proof -
  obtain h where h: "h = visible div 2" "h < visible" using assms(3) by simp
  have w: "start = (if sel < h then 0 else min (sel - h) (n - visible))" "stop = min (start + visible) n"
    using assms(1) by (auto simp: list_window_def Let_def h(1))
  show "start \<le> sel" unfolding w(1) by (simp add: min.coboundedI1)
  have "sel < start + visible"
  proof (cases "sel < h")
    case True
    then show ?thesis using h(2) by linarith
  next
    case False
    then have "sel - h + visible > sel" "n - visible + visible > sel" using h(2) assms(2) by linarith+
    then show ?thesis using w(1) False by (simp add: min_def)
  qed
  then show "sel < stop" "stop \<le> n" unfolding w(2) using assms(2) by simp_all
qed

lemma res_map_upt:
  assumes "\<And>i. i < stop \<Longrightarrow> f i = Inr (g i)"
  shows "res_map f [start..<stop] = Inr (map g [start..<stop])"
  using assms by (intro res_map_Inr) simp

lemma list_stop_le: "list_window visible n sel = (start, stop) \<Longrightarrow> stop \<le> n"
  by (auto simp: list_window_def Let_def)

lemma draw_list_ok:
  assumes "list_ok app"
  shows "\<exists>v. draw_list height app = Inr v \<and> (v = None \<longleftrightarrow> active_records app = []) \<and>
    (\<forall>l i. v = Some l \<longrightarrow> ap_selected app = Some i \<longrightarrow> 2 < height \<longrightarrow>
       lv_selected l < length (lv_rows l) \<and> lv_rows l ! lv_selected l = list_row (active_records app ! i))"
proof (cases "active_records app = []")
  case True
  then show ?thesis by (simp add: draw_list_def active_count_eq)
next
  case False
  obtain i where i: "ap_selected app = Some i" "i < length (active_records app)"
    using False assms by (auto simp: list_ok_def split: option.splits)
  obtain start stop where w: "list_window (height - 2) (length (active_records app)) i = (start, stop)" by fastforce
  have "res_map (\<lambda>i. rbind (record_at app i) (\<lambda>rec. Inr (list_row rec))) [start..<stop] =
      Inr (map (\<lambda>i. list_row (active_records app ! i)) [start..<stop])"
    using list_stop_le [OF w] by (intro res_map_upt) (simp add: record_at_ok [OF assms])
  then have d: "draw_list height app = Inr (Some \<lparr>lv_rows = map (\<lambda>i. list_row (active_records app ! i)) [start..<stop],
      lv_selected = i - start, lv_title = list_title app (length (active_records app))\<rparr>)"
    using False i(1) w by (simp add: draw_list_def active_count_eq)
  have "start \<le> i" "i < stop" if "2 < height"
    using list_window_bounds [OF w i(2)] that by simp_all
  with d False i(1) show ?thesis by (simp add: diff_less_mono)
qed

lemma draw_ok:
  assumes "list_ok app"
  shows "\<exists>v. draw path height app = Inr v \<and> draw_list height app = Inr (sc_list v) \<and>
    draw_detail app = Inr (sc_detail v)"
proof -
  obtain l where l: "draw_list height app = Inr l" using draw_list_ok [OF assms] by blast
  obtain d where "draw_detail app = Inr d"
  proof (cases "ap_selected app")
    case None
    with that show thesis by (simp add: draw_detail_def)
  next
    case (Some i)
    with that record_at_ok [OF assms selected_in_range [OF assms Some]] show thesis
      by (simp add: draw_detail_def Let_def)
  qed
  with l show ?thesis by (simp add: draw_def)
qed

section \<open>Runs\<close>

text \<open>The states the event loop can be in, from a start, for any events.\<close>

inductive browsing :: "decoder \<Rightarrow> disk \<Rightarrow> ustring \<Rightarrow> app \<times> files \<Rightarrow> app \<times> files \<Rightarrow> bool"
  for zd fail path s0 where
  start: "browsing zd fail path s0 s0"
| turn: "browsing zd fail path s0 s \<Longrightarrow> turn zd fail path ev s = Inr (Some s') \<Longrightarrow> browsing zd fail path s0 s'"

lemma turn_eq:
  assumes "app_ok zd app"
  shows "\<exists>d b. turn zd fail path (height, ev) (app, files) =
      handle_input fail ev (app\<lparr>ap_detail := d, ap_blob_files := b\<rparr>, files) \<and>
    ensure_detail zd app = Inr (app\<lparr>ap_detail := d, ap_blob_files := b\<rparr>) \<and>
    app_ok zd (app\<lparr>ap_detail := d, ap_blob_files := b\<rparr>) \<and>
    (\<forall>i. ap_selected app = Some i \<longrightarrow>
       d = Some (i, detail_for zd (dd_blobs (ap_dir app)) (active_records app ! i)))"
proof -
  obtain d b where e: "ensure_detail zd app = Inr (app\<lparr>ap_detail := d, ap_blob_files := b\<rparr>)"
    "app_ok zd (app\<lparr>ap_detail := d, ap_blob_files := b\<rparr>)"
    "\<forall>i. ap_selected app = Some i \<longrightarrow> d = Some (i, detail_for zd (dd_blobs (ap_dir app)) (active_records app ! i))"
    using ensure_detail_ok [OF assms] by blast
  have "list_ok (app\<lparr>ap_detail := d, ap_blob_files := b\<rparr>)" using e(2) by (simp add: app_ok_def)
  then obtain v where "draw path height (app\<lparr>ap_detail := d, ap_blob_files := b\<rparr>) = Inr v" using draw_ok by blast
  with e show ?thesis by (intro exI [of _ d] exI [of _ b]) (simp add: turn_def)
qed

lemma turn_ok:
  assumes "app_ok zd (fst s)"
  shows "\<exists>r. turn zd fail path ev s = Inr r \<and> (\<forall>s'. r = Some s' \<longrightarrow> app_ok zd (fst s'))"
proof -
  obtain app files where s: "s = (app, files)" by fastforce
  obtain height i where ev: "ev = (height, i)" by fastforce
  from turn_eq [of zd app fail path height i files] assms obtain app' where
    "turn zd fail path ev s = handle_input fail i (app', files)" "app_ok zd app'" by (auto simp: s ev)
  with handle_input_ok [of zd app' fail i files] show ?thesis by fastforce
qed

lemma insp_open_ok: "insp_open dir snap pa = Inr app \<Longrightarrow> app_ok zd app"
proof -
  assume "insp_open dir snap pa = Inr app"
  then obtain mode records max_snap where app: "app = (if snap \<noteq> None \<or> pa \<noteq> None then apply_filter snap pa (app_new dir mode records (stats_of records) max_snap)
      else app_new dir mode records (stats_of records) max_snap)"
    by (auto simp: insp_open_def rbind_eq_Inr_iff Let_def)
  let ?new = "app_new dir mode records (stats_of records) max_snap"
  have new: "opened_ok ?new" "ap_export_input ?new = None" "ap_filter_input ?new = None"
    by (simp_all add: app_new_def opened_ok_def)
  have "active_records ?new = records" by (simp add: app_new_def active_records_def)
  moreover have "filter (keeps None None) records = records" by (simp add: keeps_def)
  ultimately have "app_ok zd ?new"
    using new unfolding app_ok_defs by (auto simp: app_new_def keeps_def)
  with apply_filter_ok [OF new] show "app_ok zd app" by (simp add: app Let_def)
qed

lemma browsing_ok:
  "browsing zd fail path s0 s \<Longrightarrow> app_ok zd (fst s0) \<Longrightarrow> app_ok zd (fst s)"
proof (induction rule: browsing.induct)
  case (turn s ev s')
  with turn_ok [OF turn.IH [OF turn.prems], of fail path ev] show ?case by (cases s') auto
qed

text \<open>The loop over a list of events never panics, and stays inside the runs.\<close>

lemma event_loop_browsing:
  assumes "app_ok zd (fst s0)" "browsing zd fail path s0 s"
  shows "\<exists>out. event_loop zd fail path evs s = Inr out \<and>
    (\<forall>app files. out = Waiting app files \<longrightarrow> browsing zd fail path s0 (app, files))"
  using assms(2)
proof (induction evs arbitrary: s)
  case Nil
  then show ?case by (cases s) simp
next
  case (Cons ev evs)
  obtain r where r: "turn zd fail path ev s = Inr r"
    using turn_ok [OF browsing_ok [OF Cons.prems assms(1)]] by blast
  show ?case
  proof (cases r)
    case None
    with r show ?thesis by simp
  next
    case (Some s')
    with r have "browsing zd fail path s0 s'" using browsing.turn [OF Cons.prems] by simp
    then obtain out where "event_loop zd fail path evs s' = Inr out"
      "\<forall>app files. out = Waiting app files \<longrightarrow> browsing zd fail path s0 (app, files)" using Cons.IH by blast
    with Some r show ?thesis by simp
  qed
qed

text \<open>What no turn changes: the directory and the records.\<close>

lemma filter_key_frame: "ap_dir (filter_key code buf app) = ap_dir app \<and> ap_records (filter_key code buf app) = ap_records app"
  by (simp add: filter_key_def apply_filter_def clear_filter_def select_first_def Let_def split: key_code.split prod.split)

lemma export_key_frame:
  "ap_dir (fst (export_key fail code path (app, files))) = ap_dir app \<and>
   ap_records (fst (export_key fail code path (app, files))) = ap_records app"
  by (simp add: export_key_def export_detail_def Let_def split: key_code.split option.split prod.split detail.split)

lemma letter_key_frame: "letter_key c m app = Inr (Some app') \<Longrightarrow> ap_dir app' = ap_dir app \<and> ap_records app' = ap_records app"
  by (auto simp: letter_key_def move_by_def go_to_def clear_filter_def select_first_def Let_def rbind_eq_Inr_iff
      split: if_splits option.splits)

lemma view_key_frame: "view_key code m app = Inr (Some app') \<Longrightarrow> ap_dir app' = ap_dir app \<and> ap_records app' = ap_records app"
  by (auto simp: view_key_def move_by_def go_to_def Let_def split: key_code.splits if_splits dest!: letter_key_frame)

lemma handle_input_frame:
  assumes "handle_input fail ev (app, files) = Inr (Some (app', files'))"
  shows "ap_dir app' = ap_dir app \<and> ap_records app' = ap_records app"
proof (cases ev)
  case NoPress
  with assms show ?thesis by (simp add: handle_input_def)
next
  case (Press code m)
  consider buf where "ap_filter_input app = Some buf" | path where "ap_filter_input app = None" "ap_export_input app = Some path"
    | "ap_filter_input app = None" "ap_export_input app = None" by fastforce
  then show ?thesis
  proof cases
    case 1
    with assms Press have "app' = filter_key code buf app" by (simp add: handle_input_def)
    then show ?thesis by (simp add: filter_key_frame)
  next
    case 2
    with assms Press have "export_key fail code path (app, files) = (app', files')" by (simp add: handle_input_def)
    with export_key_frame [of fail code path app files] show ?thesis by simp
  next
    case 3
    with assms Press have "view_key code m app = Inr (Some app')" by (auto simp: handle_input_def rbind_eq_Inr_iff)
    then show ?thesis by (rule view_key_frame)
  qed
qed

lemma browsing_frame:
  "browsing zd fail path s0 s \<Longrightarrow> app_ok zd (fst s0) \<Longrightarrow>
     ap_dir (fst s) = ap_dir (fst s0) \<and> ap_records (fst s) = ap_records (fst s0)"
proof (induction rule: browsing.induct)
  case (turn s ev s')
  obtain app files app' files' height i where s: "s = (app, files)" "s' = (app', files')" "ev = (height, i)"
    by (cases s, cases s', cases ev) auto
  have "app_ok zd app" using browsing_ok [OF turn.hyps(1) turn.prems] by (simp add: s)
  from turn_eq [OF this, of fail path height i files] turn.hyps(2) obtain d b where
    "handle_input fail i (app\<lparr>ap_detail := d, ap_blob_files := b\<rparr>, files) = Inr (Some (app', files'))" by (auto simp: s)
  from handle_input_frame [OF this] turn.IH [OF turn.prems] show ?case by (simp add: s)
qed simp

section \<open>Typing a filter\<close>

definition typed :: "string \<Rightarrow> input list" where
  "typed str = map (\<lambda>c. Press (KLetter c) {}) str"

text \<open>Turning the loop on keys, from a state that is in order.\<close>

lemma event_loop_turn:
  assumes "app_ok zd app"
    and "\<And>d b. app_ok zd (app\<lparr>ap_detail := d, ap_blob_files := b\<rparr>) \<Longrightarrow>
      \<exists>app'. handle_input fail i (app\<lparr>ap_detail := d, ap_blob_files := b\<rparr>, files) = Inr (Some (app', files)) \<and> app_ok zd app' \<and> P app'"
  shows "\<exists>app'. app_ok zd app' \<and> P app' \<and>
    event_loop zd fail path ((height, i) # evs) (app, files) = event_loop zd fail path evs (app', files)"
proof -
  obtain d b where t: "turn zd fail path (height, i) (app, files) = handle_input fail i (app\<lparr>ap_detail := d, ap_blob_files := b\<rparr>, files)"
    "app_ok zd (app\<lparr>ap_detail := d, ap_blob_files := b\<rparr>)" using turn_eq [OF assms(1)] by blast
  with assms(2) [OF t(2)] show ?thesis by auto
qed

lemma type_filter:
  assumes "app_ok zd app" "ap_filter_input app = Some buf" "ap_records app = rs"
    and "\<forall>c \<in> set str. filter_char (of_char c)" "length buf + length str \<le> 40"
  shows "\<exists>app'. app_ok zd app' \<and> ap_filter_input app' = Some (buf @ str) \<and> ap_records app' = rs \<and>
    event_loop zd fail path (map (Pair height) (typed str) @ evs) (app, files) = event_loop zd fail path evs (app', files)"
  using assms
proof (induction str arbitrary: app buf)
  case Nil
  then show ?case by (auto simp: typed_def)
next
  case (Cons c str)
  have "\<exists>app'. app_ok zd app' \<and> (ap_filter_input app' = Some (buf @ [c]) \<and> ap_records app' = rs) \<and>
      event_loop zd fail path ((height, Press (KLetter c) {}) # map (Pair height) (typed str) @ evs) (app, files) =
      event_loop zd fail path (map (Pair height) (typed str) @ evs) (app', files)"
  proof (rule event_loop_turn [OF Cons.prems(1)])
    fix d b
    let ?app = "app\<lparr>ap_detail := d, ap_blob_files := b\<rparr>"
    assume ok: "app_ok zd ?app"
    have inp: "ap_filter_input ?app = Some buf" using Cons.prems(2) by simp
    have "filter_key (KLetter c) buf ?app = ?app\<lparr>ap_filter_input := Some (buf @ [c])\<rparr>"
      using Cons.prems(4,5) by (simp add: filter_key_def)
    with filter_key_ok [OF ok inp, of "KLetter c"] Cons.prems(2,3)
    show "\<exists>app'. handle_input fail (Press (KLetter c) {}) (?app, files) = Inr (Some (app', files)) \<and> app_ok zd app' \<and>
        ap_filter_input app' = Some (buf @ [c]) \<and> ap_records app' = rs"
      by (simp add: handle_input_def)
  qed
  then obtain app1 where a: "app_ok zd app1" "ap_filter_input app1 = Some (buf @ [c])" "ap_records app1 = rs"
    "event_loop zd fail path ((height, Press (KLetter c) {}) # map (Pair height) (typed str) @ evs) (app, files) =
     event_loop zd fail path (map (Pair height) (typed str) @ evs) (app1, files)" by blast
  have str: "\<forall>c \<in> set str. filter_char (of_char c)" "length (buf @ [c]) + length str \<le> 40" using Cons.prems by simp_all
  from Cons.IH [OF a(1-3) str] a(4) show ?case by (simp add: typed_def)
qed

text \<open>The text of a filter, and that it is read back.\<close>

definition filter_text :: "u32 option \<Rightarrow> u64 option \<Rightarrow> string" where
  "filter_text snap pa =
     (case (snap, pa) of
        (None, None) \<Rightarrow> []
      | (Some s, None) \<Rightarrow> show_dec (unat s)
      | (None, Some p) \<Rightarrow> ''0x'' @ show_hex (unat p)
      | (Some s, Some p) \<Rightarrow> show_dec (unat s) @ '' '' @ ''0x'' @ show_hex (unat p))"

lemma parse_token_dec: "parse_token (snap, pa) (show_dec (unat (s :: u32))) = (Some s, pa)"
proof -
  let ?t = "show_dec (unat s)"
  have digits: "\<exists>d < 10. c = digit_char d" if "c \<in> set ?t" for c using that show_base_chars [of 10] by simp
  have "take 2 ?t \<noteq> ''0'' @ [x]" if x: "x \<in> {CHR ''x'', CHR ''X''}" for x
  proof
    assume "take 2 ?t = ''0'' @ [x]"
    then have "x \<in> set ?t" by (metis append_Cons in_set_takeD list.set_intros(1) list.set_intros(2) self_append_conv2)
    then obtain d where "d < 10" "x = digit_char d" using digits by blast
    then have "(of_char x :: nat) \<in> {48..<58}" by (simp add: digit_char_code)
    with x show False by auto
  qed
  from this [of "CHR ''x''"] this [of "CHR ''X''"] have "take 2 ?t \<noteq> ''0x''" "take 2 ?t \<noteq> ''0X''" by simp_all
  moreover have "list_all (\<lambda>c. digit_val 10 c \<noteq> None) ?t"
    unfolding list_all_iff using digits digit_val_char [of _ 10] by fastforce
  ultimately show ?thesis by (simp add: parse_token_def parse_word_show)
qed

lemma parse_token_hex: "parse_token (snap, pa) (''0x'' @ show_hex (unat (p :: u64))) = (snap, Some p)"
proof -
  have "take 2 (''0x'' @ show_hex (unat p)) = ''0x''" "drop 2 (''0x'' @ show_hex (unat p)) = show_hex (unat p)" by simp_all
  then show ?thesis
    unfolding parse_token_def by (simp only: prod.case append_Cons list.distinct if_False simp_thms if_True parse_word_show) (simp add: parse_word_show)
qed

lemma parse_filter_text: "parse_filter_input (filter_text snap pa) = (snap, pa)"
proof -
  have dec: "split_whitespace (show_dec n) = [show_dec n]" for n
    by (rule split_whitespace_word) (use is_space_digits [of 10] in auto)
  have hex: "split_whitespace (''0x'' @ show_hex n) = [''0x'' @ show_hex n]" for n
  proof (rule split_whitespace_word)
    have "\<not> is_space CHR ''0''" "\<not> is_space CHR ''x''" by (simp_all add: is_space_def)
    then show "\<forall>c \<in> set (''0x'' @ show_hex n). \<not> is_space c" using is_space_digits [of 16 _ n] by auto
  qed simp
  have both: "split_whitespace (show_dec n @ '' '' @ ''0x'' @ show_hex k) = [show_dec n, ''0x'' @ show_hex k]" for n k
    using split_whitespace_pair [of "show_dec n" "''0x'' @ show_hex k"] hex [of k] is_space_digits [of 10 _ n] by simp
  have none: "split_whitespace [] = []" by (simp add: split_whitespace.simps)
  show ?thesis
    unfolding parse_filter_input_def filter_text_def
    by (cases snap; cases pa) (simp_all only: prod.case option.case dec hex both none foldl.simps parse_token_dec parse_token_hex)
qed

lemma filter_text_typed:
  "(\<forall>c \<in> set (filter_text snap pa). filter_char (of_char c)) \<and> length (filter_text snap pa) \<le> 29"
proof -
  have chars: "filter_char (of_char c)" if "c \<in> set (show_base radix n)" "radix = 10 \<or> radix = 16" for c radix n
    using that show_base_chars [of radix c n] by (auto simp: filter_char_def digit_char_code split: if_splits)
  have dec: "length (show_dec (unat (s :: u32))) \<le> 10" for s
    using unsigned_less [of s, where ?'a = nat] by (intro length_show_base) simp_all
  have hex: "length (show_hex (unat (p :: u64))) \<le> 16" for p
    using unsigned_less [of p, where ?'a = nat] by (intro length_show_base) simp_all
  have x: "filter_char (of_char CHR ''0'')" "filter_char (of_char CHR ''x'')" "filter_char (of_char CHR '' '')"
    by (simp_all add: filter_char_def)
  show ?thesis
  proof (cases snap)
    case None
    with x chars [of _ 16] hex show ?thesis by (cases pa) (auto simp: filter_text_def intro: order_trans [OF hex])
  next
    case (Some s)
    show ?thesis
    proof (cases pa)
      case None
      with Some chars [of _ 10] dec [of s] show ?thesis by (auto simp: filter_text_def)
    next
      case (Some p)
      with \<open>snap = Some s\<close> x chars [of _ 10] chars [of _ 16] dec [of s] hex [of p] show ?thesis
        by (auto simp: filter_text_def)
    qed
  qed
qed

section \<open>Exports of a saved database\<close>

lemma abs_read_at:
  "history_ok h \<Longrightarrow> (s, m) \<in> set h \<Longrightarrow> m pa = Some p \<Longrightarrow> abs_read h pa s = Some p"
proof (induction h)
  case (Cons a h)
  obtain s' m' where a: "a = (s', m')" by fastforce
  show ?case
  proof (cases "(s, m) \<in> set h")
    case True
    then have "s < s'" using Cons.prems(1) by (auto simp: a)
    moreover from True Cons have "abs_read h pa s = Some p" by (simp add: a)
    ultimately show ?thesis by (auto simp: a)
  next
    case False
    with Cons.prems show ?thesis by (simp add: a)
  qed
qed simp

lemma stored_full:
  assumes "full_at zd bl r p" "\<forall>w f. bl w = Some f \<longrightarrow> length f < 2 ^ 63"
  shows "detail_for zd bl r = DFull p"
proof -
  obtain f z where f: "bl (r_worker_id r) = Some f" "get_range f (unat (r_offset r)) (unat (r_offset r) + unat (r_len r)) = Some z"
    "zd z = Some p"
    using assms(1) by (auto simp: full_at_def blob_range_def split: option.splits if_splits)
  have fit: "unat (r_offset r) + unat (r_len r) \<le> length f" using f(2) by (simp add: get_range_def split: if_splits)
  have off: "\<not> 2 ^ 63 \<le> r_offset r"
    using assms(2) f(1) fit by (fastforce simp: word_le_nat_alt)
  have "stored_blob bl r = Inr z"
  proof (cases "r_len r = 0")
    case True
    with f(2) have "z = []" by (auto simp: get_range_def rslice_def split: if_splits)
    with True f(1) show ?thesis by (simp add: stored_blob_def)
  next
    case False
    with f(1,2) off show ?thesis by (simp add: stored_blob_def)
  qed
  with f(3) assms(1) show ?thesis by (simp add: detail_for_def detail_of_def full_at_def)
qed

lemma insp_open_log:
  assumes "dd_index dir = None" "dd_log dir = Some (log_file hdr rs)" "\<forall>r \<in> set rs. log_record_ok r"
    and "insp_open dir snap pa = Inr app"
  shows "ap_records app = sort_key r_key rs \<and> ap_dir app = dir"
proof -
  have "load_records dir = Inr (AppendOnly, sort_key r_key rs, hdr)"
    using assms(1-3) by (simp add: load_records_def log_file_def read_records_encode_log)
  with assms(4) show ?thesis
    by (auto simp: insp_open_def Let_def apply_filter_def select_first_def app_new_def)
qed

lemma active_in_records: "list_ok app \<Longrightarrow> i < length (active_records app) \<Longrightarrow> active_records app ! i \<in> set (ap_records app)"
  unfolding list_ok_def by (metis filter_is_subset nth_mem subsetD)

section \<open>Properties\<close>

text \<open>C22: the inspector never panics and shows what is selected. In every state its event loop
  can reach, from any database and any events, completing the detail, drawing a frame of any
  height and handling any event succeed; the list holds exactly the records the filter keeps;
  if there are any one of them is selected, the panel has its detail, decoded from the blob
  file, and its row is the highlighted row of the list when there is room for one.\<close>

theorem inspector_shows_selection:
  assumes "insp_open dir snap pa = Inr app0" "browsing zd fail path (app0, files0) (app, files)"
  shows "\<exists>app' view. ensure_detail zd app = Inr app' \<and> draw path height app' = Inr view \<and>
    (\<forall>ev. \<exists>r. handle_input fail ev (app', files) = Inr r) \<and>
    (let rs = filter (keeps (ap_filter_snapshot app) (ap_filter_pa app)) (ap_records app0)
     in case ap_selected app of
          None \<Rightarrow> rs = [] \<and> sc_list view = None
        | Some i \<Rightarrow> i < length rs \<and> ap_detail app' = Some (i, detail_for zd (dd_blobs (ap_dir app0)) (rs ! i)) \<and>
            (2 < height \<longrightarrow> (\<exists>l. sc_list view = Some l \<and> lv_selected l < length (lv_rows l) \<and>
               lv_rows l ! lv_selected l = list_row (rs ! i))))"
proof -
  have ok0: "app_ok zd (fst (app0, files0))" using insp_open_ok [OF assms(1)] by simp
  have ok: "app_ok zd app" using browsing_ok [OF assms(2) ok0] by simp
  have frame: "ap_dir app = ap_dir app0" "ap_records app = ap_records app0"
    using browsing_frame [OF assms(2) ok0] by simp_all
  have list: "list_ok app" using ok by (simp add: app_ok_def)
  then have act: "filter (keeps (ap_filter_snapshot app) (ap_filter_pa app)) (ap_records app0) = active_records app"
    unfolding list_ok_def frame by simp
  obtain d b where e: "ensure_detail zd app = Inr (app\<lparr>ap_detail := d, ap_blob_files := b\<rparr>)"
    "app_ok zd (app\<lparr>ap_detail := d, ap_blob_files := b\<rparr>)"
    "\<forall>i. ap_selected app = Some i \<longrightarrow> d = Some (i, detail_for zd (dd_blobs (ap_dir app)) (active_records app ! i))"
    using ensure_detail_ok [OF ok] by blast
  let ?app = "app\<lparr>ap_detail := d, ap_blob_files := b\<rparr>"
  have list': "list_ok ?app" using e(2) by (simp add: app_ok_def)
  obtain view where v: "draw path height ?app = Inr view" "draw_list height ?app = Inr (sc_list view)"
    using draw_ok [OF list'] by blast
  have keys: "\<exists>r. handle_input fail ev (?app, files) = Inr r" for ev
    using handle_input_ok [OF e(2)] by blast
  have shown: "sc_list view = None \<longleftrightarrow> active_records app = []"
    "\<forall>l i. sc_list view = Some l \<longrightarrow> ap_selected app = Some i \<longrightarrow> 2 < height \<longrightarrow>
       lv_selected l < length (lv_rows l) \<and> lv_rows l ! lv_selected l = list_row (active_records app ! i)"
    using draw_list_ok [OF list', of height] v(2) by simp_all
  have "case ap_selected app of
          None \<Rightarrow> active_records app = [] \<and> sc_list view = None
        | Some i \<Rightarrow> i < length (active_records app) \<and>
            ap_detail ?app = Some (i, detail_for zd (dd_blobs (ap_dir app)) (active_records app ! i)) \<and>
            (2 < height \<longrightarrow> (\<exists>l. sc_list view = Some l \<and> lv_selected l < length (lv_rows l) \<and>
               lv_rows l ! lv_selected l = list_row (active_records app ! i)))"
  proof (cases "ap_selected app")
    case None
    then have "active_records app = []" using list unfolding list_ok_def by (elim conjE) (simp only: option.case)
    with None shown(1) show ?thesis by simp
  next
    case (Some i)
    have "i < length (active_records app)" by (rule selected_in_range [OF list Some])
    with Some shown e(3) show ?thesis by fastforce
  qed
  with e(1) v(1) keys show ?thesis unfolding Let_def act frame(1) [symmetric] by blast
qed

text \<open>A database of three zero pages, and how it opens.\<close>

definition three_zeros :: db_dir where
  "three_zeros = \<lparr>dd_index = None,
     dd_log = Some (log_file 3 [new_zero (encode_key 0 0), new_zero (encode_key 1 0), new_zero (encode_key 1 3)]),
     dd_blobs = (\<lambda>_. None)\<rparr>"

lemma three_zeros_open: "\<exists>app. insp_open three_zeros None None = Inr app"
proof -
  have "\<forall>r \<in> set [new_zero (encode_key 0 0), new_zero (encode_key 1 0), new_zero (encode_key 1 3)]. log_record_ok r"
    by (simp add: new_zero_def log_record_ok_def)
  then show ?thesis
    by (simp add: insp_open_def three_zeros_def load_records_def log_file_def read_records_encode_log)
qed

theorem inspector_shows_selection_witness:
  "\<exists>app0 app' view. insp_open three_zeros None None = Inr app0 \<and> ensure_detail Some app0 = Inr app' \<and>
     draw [] 10 app' = Inr view"
proof -
  obtain app0 where app0: "insp_open three_zeros None None = Inr app0" using three_zeros_open by blast
  have "browsing Some (\<lambda>_. None) [] (app0, \<lambda>_. None) (app0, \<lambda>_. None)" by (rule browsing.start)
  from inspector_shows_selection [OF app0 this] app0 show ?thesis by blast
qed

text \<open>What a filter typed by the user selects. From any state of the inspector without a
  prompt or a filter, pressing \<open>f\<close>, typing a snapshot number in decimal, a page address in
  hexadecimal after \<open>0x\<close>, or both, and Enter, leaves exactly the records with that snapshot and
  that page on the list, in their order, the first of them selected.\<close>

theorem typed_filter_selects:
  assumes "insp_open dir cli_snap cli_pa = Inr app0" "browsing zd fail path (app0, files0) (app, files)"
    and idle: "ap_filter_input app = None" "ap_export_input app = None" "ap_filter_snapshot app = None" "ap_filter_pa app = None"
    and some: "snap \<noteq> None \<or> pa \<noteq> None"
  shows "\<exists>app'. event_loop zd fail path
      (map (Pair height) (Press (KLetter CHR ''f'') {} # typed (filter_text snap pa) @ [Press KEnter {}])) (app, files) =
        Inr (Waiting app' files) \<and>
    ap_filter_snapshot app' = snap \<and> ap_filter_pa app' = pa \<and>
    active_records app' = filter (\<lambda>r. (\<forall>s. snap = Some s \<longrightarrow> snapshot_of (r_key r) = s) \<and>
      (\<forall>p. pa = Some p \<longrightarrow> pa_of (r_key r) = p)) (ap_records app0) \<and>
    ap_selected app' = (if active_records app' = [] then None else Some 0)"
proof -
  have ok0: "app_ok zd (fst (app0, files0))" using insp_open_ok [OF assms(1)] by simp
  have ok: "app_ok zd app" using browsing_ok [OF assms(2) ok0] by simp
  have recs: "ap_records app = ap_records app0" using browsing_frame [OF assms(2) ok0] by simp
  let ?str = "filter_text snap pa"
  let ?enter = "map (Pair height) [Press KEnter {}]"
  have "\<exists>app'. app_ok zd app' \<and> (ap_filter_input app' = Some [] \<and> ap_records app' = ap_records app0) \<and>
      event_loop zd fail path ((height, Press (KLetter CHR ''f'') {}) # map (Pair height) (typed ?str) @ ?enter) (app, files) =
      event_loop zd fail path (map (Pair height) (typed ?str) @ ?enter) (app', files)"
  proof (rule event_loop_turn [OF ok])
    fix d b
    let ?app = "app\<lparr>ap_detail := d, ap_blob_files := b\<rparr>"
    assume a: "app_ok zd ?app"
    let ?app1 = "?app\<lparr>ap_export_status := None, ap_filter_input := Some []\<rparr>"
    have "handle_input fail (Press (KLetter CHR ''f'') {}) (?app, files) = Inr (Some (?app1, files))"
      using idle by (simp add: handle_input_def view_key_def letter_key_def)
    moreover have "app_ok zd ?app1" using a idle by (simp add: app_ok_def prompts_ok_def)
    ultimately show "\<exists>app'. handle_input fail (Press (KLetter CHR ''f'') {}) (?app, files) = Inr (Some (app', files)) \<and>
        app_ok zd app' \<and> ap_filter_input app' = Some [] \<and> ap_records app' = ap_records app0"
      using recs by simp
  qed
  then obtain app1 where a1: "app_ok zd app1" "ap_filter_input app1 = Some []" "ap_records app1 = ap_records app0"
    "event_loop zd fail path ((height, Press (KLetter CHR ''f'') {}) # map (Pair height) (typed ?str) @ ?enter) (app, files) =
      event_loop zd fail path (map (Pair height) (typed ?str) @ ?enter) (app1, files)" by blast
  have str: "\<forall>c \<in> set ?str. filter_char (of_char c)" "length ([] :: string) + length ?str \<le> 40"
    using filter_text_typed [of snap pa] by auto
  obtain app2 where a2: "app_ok zd app2" "ap_filter_input app2 = Some ?str" "ap_records app2 = ap_records app0"
    "event_loop zd fail path (map (Pair height) (typed ?str) @ ?enter) (app1, files) = event_loop zd fail path ?enter (app2, files)"
    using type_filter [OF a1(1-3) str, of fail path height ?enter files] by auto
  obtain d b where t: "turn zd fail path (height, Press KEnter {}) (app2, files) =
      handle_input fail (Press KEnter {}) (app2\<lparr>ap_detail := d, ap_blob_files := b\<rparr>, files)"
    using turn_eq [OF a2(1)] by blast
  let ?app3 = "apply_filter snap pa (app2\<lparr>ap_detail := d, ap_blob_files := b, ap_filter_input := None\<rparr>)"
  have ne: "?str \<noteq> []" using parse_filter_text [of snap pa] some by (auto simp: parse_filter_input_def split_whitespace.simps)
  have "handle_input fail (Press KEnter {}) (app2\<lparr>ap_detail := d, ap_blob_files := b\<rparr>, files) = Inr (Some (?app3, files))"
    using a2(2) some ne by (auto simp: handle_input_def filter_key_def parse_filter_text)
  with a1(4) a2(4) t have run: "event_loop zd fail path
      (map (Pair height) (Press (KLetter CHR ''f'') {} # typed ?str @ [Press KEnter {}])) (app, files) = Inr (Waiting ?app3 files)"
    by simp
  have act: "active_records ?app3 = filter (keeps snap pa) (ap_records app0)" using a2(3) by simp
  have fields: "ap_filter_snapshot ?app3 = snap" "ap_filter_pa ?app3 = pa"
    by (simp_all add: apply_filter_def select_first_def Let_def)
  have sel: "ap_selected ?app3 = (if active_records ?app3 = [] then None else Some 0)" by (rule selected_after_filter)
  have "keeps snap pa = (\<lambda>r. (\<forall>s. snap = Some s \<longrightarrow> snapshot_of (r_key r) = s) \<and> (\<forall>p. pa = Some p \<longrightarrow> pa_of (r_key r) = p))"
    by (auto simp: keeps_def fun_eq_iff split: option.splits)
  with run act fields sel show ?thesis by (intro exI [of _ ?app3]) simp
qed

lemma three_zeros_app:
  assumes "insp_open three_zeros None None = Inr app"
  shows "ap_records app = [new_zero (encode_key 0 0), new_zero (encode_key 1 0), new_zero (encode_key 1 3)]"
    and "ap_filter_input app = None" "ap_export_input app = None" "ap_filter_snapshot app = None" "ap_filter_pa app = None"
proof -
  let ?rs = "[new_zero (encode_key 0 0), new_zero (encode_key 1 0), new_zero (encode_key 1 3)]"
  have "sort_key r_key ?rs = ?rs"
    by (simp add: new_zero_def encode_key_def SNAPSHOT_BITS_def SNAPSHOT_MASK_def)
  moreover have "\<forall>r \<in> set ?rs. log_record_ok r" by (simp add: new_zero_def log_record_ok_def)
  ultimately have "load_records three_zeros = Inr (AppendOnly, ?rs, 3)"
    by (simp add: three_zeros_def load_records_def log_file_def read_records_encode_log)
  with assms show "ap_records app = ?rs" "ap_filter_input app = None" "ap_export_input app = None"
    "ap_filter_snapshot app = None" "ap_filter_pa app = None"
    by (auto simp: insp_open_def app_new_def)
qed

theorem typed_filter_selects_witness:
  "\<exists>app0 app'. insp_open three_zeros None None = Inr app0 \<and>
     event_loop Some (\<lambda>_. None) [] (map (Pair 10) (Press (KLetter CHR ''f'') {} # typed (filter_text None (Some 1)) @ [Press KEnter {}]))
       (app0, \<lambda>_. None) = Inr (Waiting app' (\<lambda>_. None)) \<and>
     active_records app' = [new_zero (encode_key 1 0), new_zero (encode_key 1 3)]"
proof -
  obtain app0 where app0: "insp_open three_zeros None None = Inr app0" using three_zeros_open by blast
  note idle = three_zeros_app [OF app0]
  have run: "browsing Some (\<lambda>_. None) [] (app0, \<lambda>_. None) (app0, \<lambda>_. None)" by (rule browsing.start)
  have "3 \<le> MAX_SNAPSHOT_ID" "0 \<le> MAX_SNAPSHOT_ID" by (simp_all add: snapshot_le_max_unat)
  then have "filter (\<lambda>r. pa_of (r_key r) = 1) (ap_records app0) = [new_zero (encode_key 1 0), new_zero (encode_key 1 3)]"
    by (simp add: idle(1) new_zero_def pa_of_encode_key_small)
  with typed_filter_selects [OF app0 run idle(2-5), of None "Some 1" 10] app0 show ?thesis by auto
qed

text \<open>Escape in any state: it ends the program, or closes the prompt that is open.\<close>

lemma escape_turn:
  assumes "app_ok zd app"
  shows "\<exists>r. turn zd fail path (height, Press KEsc m) (app, files) = Inr r \<and>
    (\<forall>app' files'. r = Some (app', files') \<longrightarrow>
       app_ok zd app' \<and> files' = files \<and> ap_filter_input app' = None \<and> ap_export_input app' = None) \<and>
    (ap_filter_input app = None \<longrightarrow> ap_export_input app = None \<longrightarrow> r = None)"
proof -
  obtain r where r: "turn zd fail path (height, Press KEsc m) (app, files) = Inr r"
    "\<forall>s'. r = Some s' \<longrightarrow> app_ok zd (fst s')" using turn_ok [of zd "(app, files)" fail path "(height, Press KEsc m)"] assms by auto
  moreover obtain d b where "turn zd fail path (height, Press KEsc m) (app, files) =
      handle_input fail (Press KEsc m) (app\<lparr>ap_detail := d, ap_blob_files := b\<rparr>, files)"
    using turn_eq [OF assms, of fail path height "Press KEsc m" files] by blast
  moreover have "ap_filter_input app = None \<or> ap_export_input app = None"
    using assms by (auto simp: app_ok_def prompts_ok_def)
  ultimately show ?thesis
    by (auto simp: handle_input_def filter_key_def export_key_def view_key_def Let_def split: option.splits)
qed

text \<open>C38: The inspector can always be left: from every state its event loop can reach, pressing
  Escape twice ends it without a panic, whatever the heights of the two frames and whatever
  modifiers are held, and writes no file.\<close>

theorem inspector_can_quit:
  assumes "insp_open dir snap pa = Inr app0" "browsing zd fail path (app0, files0) (app, files)"
  shows "event_loop zd fail path [(h1, Press KEsc m1), (h2, Press KEsc m2)] (app, files) = Inr (Quit files)"
proof -
  have ok: "app_ok zd app" using browsing_ok [OF assms(2)] insp_open_ok [OF assms(1)] by simp
  obtain r where r: "turn zd fail path (h1, Press KEsc m1) (app, files) = Inr r"
    "\<forall>app' files'. r = Some (app', files') \<longrightarrow>
       app_ok zd app' \<and> files' = files \<and> ap_filter_input app' = None \<and> ap_export_input app' = None"
    using escape_turn [OF ok] by blast
  show ?thesis
  proof (cases r)
    case None
    with r show ?thesis by simp
  next
    case (Some s')
    then obtain app' where app': "s' = (app', files)" "app_ok zd app'" "ap_filter_input app' = None" "ap_export_input app' = None"
      using r(2) by (cases s') auto
    from escape_turn [OF app'(2), of fail path h2 m2 files] app'(3,4)
    have "turn zd fail path (h2, Press KEsc m2) (app', files) = Inr None" by auto
    with r(1) Some app'(1) show ?thesis by simp
  qed
qed

theorem inspector_can_quit_witness:
  "\<exists>app0. insp_open three_zeros None None = Inr app0 \<and>
     event_loop Some (\<lambda>_. None) [] [(0, Press KEsc {}), (7, Press KEsc {MShift})] (app0, \<lambda>_. None) = Inr (Quit (\<lambda>_. None))"
proof -
  obtain app0 where app0: "insp_open three_zeros None None = Inr app0" using three_zeros_open by blast
  have "browsing Some (\<lambda>_. None) [] (app0, \<lambda>_. None) (app0, \<lambda>_. None)" by (rule browsing.start)
  from inspector_can_quit [OF app0 this] app0 show ?thesis by blast
qed

end
