(* ===== verification/Timing.thy ===== *)
theory Timing
  imports Text Store
begin

text \<open>
  The timing counters (\<open>timing.rs\<close> and the instrumented lines of \<open>btree.rs\<close>): the single-page
  reader with its counters and clock readings, the report written at exit, and the counter
  updates of concurrent threads. The readings of the clock are a parameter: \<open>el i\<close> is the
  duration the \<open>i\<close>-th measurement gives.
\<close>

section \<open>Counters\<close>

text \<open>The fields of \<open>LoadTiming\<close>, each a \<open>Counter\<close>.\<close>

datatype counter =
    TotalNs | TotalCalls | FloorNs | FloorJumps | FullCalls | ZeroCalls | DeltaCalls
  | FullDecompressNs | FullCacheGetNs | FullCacheHits | FullCachePutNs
  | DeltaBaseCacheGetNs | DeltaBaseLookupNs | DeltaBaseDecompressNs | DeltaBaseCachePutNs
  | DeltaBlobReadNs | DeltaPatchNs
  | BlobReadNs | BlobReadCalls | ZstdDecompressNs | ZstdDecompressCalls | FullCopyOutNs | FullDropBlobNs

type_synonym counters = "counter \<Rightarrow> u64"

definition timing_new :: counters where
  "timing_new = (\<lambda>_. 0)"

definition counter_add :: "counter \<Rightarrow> u64 \<Rightarrow> counters \<Rightarrow> counters" where
  "counter_add k ns c = c(k := c k + ns)"

definition counter_inc :: "counter \<Rightarrow> counters \<Rightarrow> counters" where
  "counter_inc k c = c(k := c k + 1)"

text \<open>The counters and the number of measurements so far.\<close>

type_synonym timed = "counters \<times> nat"

type_synonym clock = "nat \<Rightarrow> u64"

definition measure_ns :: "clock \<Rightarrow> counter \<Rightarrow> timed \<Rightarrow> timed" where
  "measure_ns el k = (\<lambda>(c, i). (counter_add k (el i) c, i + 1))"

definition inc :: "counter \<Rightarrow> timed \<Rightarrow> timed" where
  "inc k = (\<lambda>(c, i). (counter_inc k c, i))"

lemma counter_simps [simp]:
  "fst (measure_ns el k t) = counter_add k (el (snd t)) (fst t)" "fst (inc k t) = counter_inc k (fst t)"
  by (simp_all add: measure_ns_def inc_def split: prod.split)

section \<open>The instrumented reader\<close>

text \<open>The binary search with its count of steps.\<close>

function floor_jumps :: "bytes \<Rightarrow> u64 \<Rightarrow> nat \<Rightarrow> nat \<Rightarrow> u64 \<Rightarrow> (nat \<times> u64) res" where
  "floor_jumps body key lo hi jumps =
     (if lo < hi then
        let jumps = jumps + 1;
            mid = lo + (hi - lo) div 2
        in rbind (read_key_at body mid) (\<lambda>k.
             if k \<le> key then floor_jumps body key (mid + 1) hi jumps else floor_jumps body key lo mid jumps)
      else Inr (lo, jumps))"
  by pat_completeness auto
termination
  by (relation "measure (\<lambda>(body, key, lo, hi, jumps). hi - lo)") auto

declare floor_jumps.simps [simp del]

definition floor_mmap_timed :: "bytes \<Rightarrow> nat \<Rightarrow> u64 \<Rightarrow> u64 \<Rightarrow> timed \<Rightarrow> chunk_record option res \<times> timed" where
  "floor_mmap_timed file n key pa t =
     (case index_body file of
        Inl e \<Rightarrow> (Inl e, t)
      | Inr body \<Rightarrow>
          (case floor_jumps body key 0 n 0 of
             Inl e \<Rightarrow> (Inl e, t)
           | Inr (lo, jumps) \<Rightarrow>
               (if lo = 0 then Inr None
                else rbind (res_ok (read_record_at body (lo - 1))) (\<lambda>r.
                  case r of
                    None \<Rightarrow> Inr None
                  | Some rec \<Rightarrow> Inr (if pa_of (r_key rec) = pa then Some rec else None)),
                (counter_add FloorJumps jumps (fst t), snd t))))"

definition store_floor_timed :: "page_store \<Rightarrow> u64 \<Rightarrow> u32 \<Rightarrow> timed \<Rightarrow> chunk_record option res \<times> timed" where
  "store_floor_timed st pa snapshot_id t =
     (let key = encode_key pa snapshot_id
      in case ps_source st of
           BTreeSource file n \<Rightarrow> floor_mmap_timed file n key pa t
         | AppendOnlySource log slot \<Rightarrow>
             (rbind (ensure_lazy_index log slot) (\<lambda>idx.
                Inr (floor_sorted (li_keys idx) (li_records idx) key pa)), t))"

definition decompress_timed ::
  "clock \<Rightarrow> decoder \<Rightarrow> page_store \<Rightarrow> chunk_record \<Rightarrow> bytes \<Rightarrow> timed \<Rightarrow> bytes res \<times> timed" where
  "decompress_timed el zd st rec out t =
     (case ps_blobs st (r_worker_id rec) of
        None \<Rightarrow> (Inl Panic, t)
      | Some file \<Rightarrow>
          let start = unat (r_offset rec);
              stop = start + unat (r_len rec)
          in if 2 ^ 64 \<le> stop then (Inl (IoErr InvalidInput), t)
             else if length file < stop then (Inl (IoErr UnexpectedEof), t)
             else
               let t = inc BlobReadCalls (measure_ns el BlobReadNs t)
               in case decompress_to_buffer zd (rslice start stop file) out of
                    Inl e \<Rightarrow> (Inl e, t)
                  | Inr (written, out) \<Rightarrow>
                      let t = inc ZstdDecompressCalls (measure_ns el ZstdDecompressNs t)
                      in (if written \<noteq> PAGE_SIZE then Inl (IoErr InvalidData) else Inr out, t))"

definition load_full_timed ::
  "clock \<Rightarrow> cpu \<Rightarrow> decoder \<Rightarrow> page_store \<Rightarrow> shared_cache option \<Rightarrow> u64 \<Rightarrow> bytes \<Rightarrow> timed \<Rightarrow>
     (bytes res \<times> shared_cache option) \<times> timed" where
  "load_full_timed el cpu zd st cache key out t =
     (case opt_get cpu cache key out of (hit, out, cache) \<Rightarrow>
        let t = measure_ns el DeltaBaseCacheGetNs t
        in if hit then ((Inr out, cache), t)
           else
             case lookup_base st key of
               Inl e \<Rightarrow> ((Inl e, cache), t)
             | Inr rec \<Rightarrow>
                 let t = measure_ns el DeltaBaseLookupNs t
                 in case decompress_timed el zd st rec out t of
                      (Inl e, t) \<Rightarrow> ((Inl e, cache), t)
                    | (Inr out, t) \<Rightarrow>
                        let t = measure_ns el DeltaBaseDecompressNs t
                        in ((Inr out, opt_put cpu cache key out), measure_ns el DeltaBaseCachePutNs t))"

definition resolve_timed ::
  "clock \<Rightarrow> cpu \<Rightarrow> decoder \<Rightarrow> page_store \<Rightarrow> shared_cache option \<Rightarrow> chunk_record \<Rightarrow> bytes \<Rightarrow> timed \<Rightarrow>
     (bytes res \<times> shared_cache option) \<times> timed" where
  "resolve_timed el cpu zd st cache rec out t =
     (case r_kind rec of
        Zero \<Rightarrow> ((Inr (replicate PAGE_SIZE 0), cache), inc ZeroCalls t)
      | Full \<Rightarrow>
          (case opt_get cpu cache (r_key rec) out of (hit, out, cache) \<Rightarrow>
             let t = measure_ns el FullCacheGetNs t
             in if hit then ((Inr out, cache), inc FullCalls (inc FullCacheHits t))
                else
                  case decompress_timed el zd st rec out t of
                    (Inl e, t) \<Rightarrow> ((Inl e, cache), t)
                  | (Inr out, t) \<Rightarrow>
                      let t = measure_ns el FullDecompressNs t
                      in ((Inr out, opt_put cpu cache (r_key rec) out), inc FullCalls (measure_ns el FullCachePutNs t)))
      | Delta \<Rightarrow>
          (case load_full_timed el cpu zd st cache (r_base_key rec) out t of
             ((Inl e, cache), t) \<Rightarrow> ((Inl e, cache), t)
           | ((Inr out, cache), t) \<Rightarrow>
               (case delta_blob_of st rec of
                  Inl e \<Rightarrow> ((Inl e, cache), t)
                | Inr delta_blob \<Rightarrow>
                    let t = measure_ns el DeltaBlobReadNs t;
                        r = apply_delta_patch_in_place delta_blob out
                    in ((r, cache), inc DeltaCalls (measure_ns el DeltaPatchNs t)))))"

definition load_page_timed ::
  "clock \<Rightarrow> cpu \<Rightarrow> decoder \<Rightarrow> btree_db \<Rightarrow> bytes \<Rightarrow> u64 \<Rightarrow> u32 \<Rightarrow> timed \<Rightarrow> (bytes option res \<times> btree_db) \<times> timed" where
  "load_page_timed el cpu zd db out pa snapshot_id t =
     (if MAX_SNAPSHOT_ID < snapshot_id then ((Inl (IoErr InvalidInput), db), t)
      else case store_floor_timed (bd_store db) pa snapshot_id t of
          (Inl e, t) \<Rightarrow> ((Inl e, db), t)
        | (Inr None, t) \<Rightarrow> ((Inr None, db), t)
        | (Inr (Some rec), t) \<Rightarrow>
            (let t = measure_ns el FloorNs t
             in case resolve_timed el cpu zd (bd_store db) (bd_cache db) rec out t of
                  ((Inl e, cache), t) \<Rightarrow> ((Inl e, db\<lparr>bd_cache := cache\<rparr>), t)
                | ((Inr page, cache), t) \<Rightarrow>
                    ((Inr (Some page), db\<lparr>bd_cache := cache\<rparr>), inc TotalCalls (measure_ns el TotalNs t))))"

section \<open>The counters change no result\<close>

lemma floor_jumps_result:
  "floor_loop body key lo hi = rbind (floor_jumps body key lo hi jumps) (\<lambda>(lo, jumps). Inr lo)"
proof (induction body key lo hi jumps rule: floor_jumps.induct)
  case (1 body key lo hi jumps)
  show ?case
  proof (cases "lo < hi")
    case True
    show ?thesis
    proof (cases "read_key_at body (lo + (hi - lo) div 2)")
      case (Inl e)
      with True show ?thesis by (simp add: floor_loop.simps [of body key lo] floor_jumps.simps [of body key lo])
    next
      case (Inr k)
      with True "1.IH"(1) [OF True refl refl Inr] "1.IH"(2) [OF True refl refl Inr] show ?thesis
        by (simp add: floor_loop.simps [of body key lo hi] floor_jumps.simps [of body key lo hi] Let_def)
    qed
  next
    case False
    then show ?thesis by (simp add: floor_loop.simps [of body key lo] floor_jumps.simps [of body key lo])
  qed
qed

lemma floor_mmap_timed_result: "fst (floor_mmap_timed file n key pa t) = floor_mmap file n key pa"
proof (cases "index_body file")
  case (Inr body)
  then show ?thesis
    by (cases "floor_jumps body key 0 n 0")
      (auto simp: floor_mmap_timed_def floor_mmap_def floor_jumps_result [of body key 0 n 0])
qed (simp add: floor_mmap_timed_def floor_mmap_def)

lemma store_floor_timed_result: "fst (store_floor_timed st pa s t) = store_floor st pa s"
  by (simp add: store_floor_timed_def store_floor_def Let_def floor_mmap_timed_result split: index_source.split)

lemma decompress_timed_result: "fst (decompress_timed el zd st rec out t) = decompress_blob_into zd st rec out"
  by (auto simp: decompress_timed_def decompress_blob_into_def Let_def split: option.split sum.split)

lemma load_full_timed_result:
  "fst (load_full_timed el cpu zd st cache key out t) = load_full_cached cpu zd st cache key out"
proof -
  obtain hit out' cache' where get: "opt_get cpu cache key out = (hit, out', cache')" by (metis prod_cases3)
  show ?thesis
  proof (cases "lookup_base st key")
    case (Inl e)
    with get show ?thesis by (simp add: load_full_timed_def load_full_cached_def Let_def)
  next
    case (Inr rec)
    let ?t = "measure_ns el DeltaBaseLookupNs (measure_ns el DeltaBaseCacheGetNs t)"
    obtain r t' where d: "decompress_timed el zd st rec out' ?t = (r, t')" by (metis prod.collapse)
    with decompress_timed_result [of el zd st rec out' ?t] have "decompress_blob_into zd st rec out' = r" by simp
    with get Inr d show ?thesis by (cases r) (simp_all add: load_full_timed_def load_full_cached_def Let_def)
  qed
qed

lemma resolve_timed_result:
  "fst (resolve_timed el cpu zd st cache rec out t) = resolve_cached cpu zd st cache rec out"
proof (cases "r_kind rec")
  case Full
  obtain hit out' cache' where get: "opt_get cpu cache (r_key rec) out = (hit, out', cache')" by (metis prod_cases3)
  obtain r t' where d: "decompress_timed el zd st rec out' (measure_ns el FullCacheGetNs t) = (r, t')" by (metis prod.collapse)
  with decompress_timed_result [of el zd st rec out' "measure_ns el FullCacheGetNs t"]
  have "decompress_blob_into zd st rec out' = r" by simp
  with Full get d show ?thesis by (cases r) (simp_all add: resolve_timed_def resolve_cached_def Let_def)
next
  case Delta
  obtain r cache' t' where l: "load_full_timed el cpu zd st cache (r_base_key rec) out t = ((r, cache'), t')" by (metis prod.collapse)
  with load_full_timed_result [of el cpu zd st cache "r_base_key rec" out t]
  have "load_full_cached cpu zd st cache (r_base_key rec) out = (r, cache')" by simp
  with Delta l show ?thesis
    by (cases r; cases "delta_blob_of st rec") (simp_all add: resolve_timed_def resolve_cached_def Let_def)
qed (simp add: resolve_timed_def resolve_cached_def)

lemma load_page_timed_result:
  "fst (load_page_timed el cpu zd db out pa s t) = load_page cpu zd db out pa s"
proof (cases "MAX_SNAPSHOT_ID < s")
  case False
  obtain r t' where f: "store_floor_timed (bd_store db) pa s t = (r, t')" by (metis prod.collapse)
  with store_floor_timed_result [of "bd_store db" pa s t] have fl: "store_floor (bd_store db) pa s = r" by simp
  show ?thesis
  proof (cases r)
    case (Inr o')
    show ?thesis
    proof (cases o')
      case (Some rec)
      obtain q cache' u where l: "resolve_timed el cpu zd (bd_store db) (bd_cache db) rec out (measure_ns el FloorNs t') = ((q, cache'), u)"
        by (metis prod.collapse)
      with resolve_timed_result [of el cpu zd "bd_store db" "bd_cache db" rec out "measure_ns el FloorNs t'"]
      have "resolve_cached cpu zd (bd_store db) (bd_cache db) rec out = (q, cache')" by simp
      with False f fl Inr Some l show ?thesis by (cases q) (simp_all add: load_page_timed_def load_page_def Let_def)
    qed (use False f fl Inr in \<open>simp add: load_page_timed_def load_page_def\<close>)
  qed (use False f fl in \<open>simp add: load_page_timed_def load_page_def\<close>)
qed (simp add: load_page_timed_def load_page_def)

section \<open>What the call counters count\<close>

text \<open>
  How a successful call moves the counters of calls, without a shared cache: total, full, zero
  and delta calls, and blob reads, each of them decompressed.
\<close>

definition counted :: "timed \<Rightarrow> timed \<Rightarrow> u64 \<Rightarrow> u64 \<Rightarrow> u64 \<Rightarrow> u64 \<Rightarrow> u64 \<Rightarrow> bool" where
  "counted t t' n f z d r \<longleftrightarrow>
     fst t' TotalCalls = fst t TotalCalls + n \<and> fst t' FullCalls = fst t FullCalls + f \<and>
     fst t' ZeroCalls = fst t ZeroCalls + z \<and> fst t' DeltaCalls = fst t DeltaCalls + d \<and>
     fst t' BlobReadCalls = fst t BlobReadCalls + r \<and> fst t' ZstdDecompressCalls = fst t ZstdDecompressCalls + r"

lemmas counted_simps = counted_def counter_add_def counter_inc_def

lemma decompress_counted:
  "decompress_timed el zd st rec out t = (Inr page, t') \<Longrightarrow> counted t t' 0 0 0 0 1"
  by (auto simp: decompress_timed_def Let_def counted_simps split: option.splits if_splits sum.splits)

lemma load_full_counted:
  assumes "load_full_timed el cpu zd st None key out t = ((Inr page, cache), t')"
  shows "counted t t' 0 0 0 0 1 \<and> cache = None"
proof -
  obtain rec where rec: "lookup_base st key = Inr rec"
    using assms by (auto simp: load_full_timed_def opt_get_def Let_def split: sum.splits)
  let ?t = "measure_ns el DeltaBaseLookupNs (measure_ns el DeltaBaseCacheGetNs t)"
  obtain r u where d: "decompress_timed el zd st rec out ?t = (r, u)" by (metis prod.collapse)
  with assms rec obtain p where "r = Inr p" "t' = measure_ns el DeltaBaseCachePutNs (measure_ns el DeltaBaseDecompressNs u)" "cache = None"
    by (cases r) (auto simp: load_full_timed_def opt_get_def opt_put_def Let_def)
  with decompress_counted [of el zd st rec out ?t p u] d show ?thesis by (simp add: counted_simps)
qed

lemma resolve_counted:
  assumes "resolve_timed el cpu zd st None rec out t = ((Inr page, cache), t')"
  shows "counted t t' 0 (of_bool (r_kind rec = Full)) (of_bool (r_kind rec = Zero)) (of_bool (r_kind rec = Delta))
      (of_bool (r_kind rec \<noteq> Zero)) \<and> cache = None"
proof (cases "r_kind rec")
  case Full
  obtain r u where d: "decompress_timed el zd st rec out (measure_ns el FullCacheGetNs t) = (r, u)" by (metis prod.collapse)
  with assms Full obtain p where "r = Inr p" "t' = inc FullCalls (measure_ns el FullCachePutNs (measure_ns el FullDecompressNs u))" "cache = None"
    by (cases r) (auto simp: resolve_timed_def opt_get_def opt_put_def Let_def)
  with decompress_counted [of el zd st rec out "measure_ns el FullCacheGetNs t" p u] d Full show ?thesis
    by (simp add: counted_simps)
next
  case Delta
  obtain r cache' u where l: "load_full_timed el cpu zd st None (r_base_key rec) out t = ((r, cache'), u)" by (metis prod.collapse)
  with assms Delta obtain p b where "r = Inr p" "delta_blob_of st rec = Inr b"
    "t' = inc DeltaCalls (measure_ns el DeltaPatchNs (measure_ns el DeltaBlobReadNs u))" "cache = cache'"
    by (cases r; cases "delta_blob_of st rec") (auto simp: resolve_timed_def Let_def)
  with load_full_counted [of el cpu zd st "r_base_key rec" out t p cache' u] l Delta show ?thesis by (simp add: counted_simps)
next
  case Zero
  with assms show ?thesis by (auto simp: resolve_timed_def counted_simps)
qed

lemma floor_counted: "store_floor_timed st pa s t = (r, t') \<Longrightarrow> counted t t' 0 0 0 0 0"
  by (auto simp: store_floor_timed_def floor_mmap_timed_def Let_def counted_simps split: index_source.splits sum.splits)

lemma load_page_counted:
  assumes "load_page_timed el cpu zd db out pa s t = ((Inr page, db'), t')" "bd_cache db = None"
  shows "\<exists>f z d. counted t t' (of_bool (page \<noteq> None)) f z d (f + d) \<and> f + z + d = of_bool (page \<noteq> None) \<and> bd_cache db' = None"
proof -
  have s: "\<not> MAX_SNAPSHOT_ID < s" using assms(1) by (auto simp: load_page_timed_def)
  obtain r t1 where f: "store_floor_timed (bd_store db) pa s t = (r, t1)" by (metis prod.collapse)
  note c1 = floor_counted [OF f]
  from assms(1) s f obtain o' where r: "r = Inr o'" by (cases r) (auto simp: load_page_timed_def)
  show ?thesis
  proof (cases o')
    case None
    with assms s f r c1 show ?thesis by (intro exI [of _ 0]) (simp add: load_page_timed_def)
  next
    case (Some rec)
    obtain q cache' u where l: "resolve_timed el cpu zd (bd_store db) None rec out (measure_ns el FloorNs t1) = ((q, cache'), u)"
      by (metis prod.collapse)
    with assms s f r Some obtain p where p: "q = Inr p" "page = Some p" "t' = inc TotalCalls (measure_ns el TotalNs u)"
      "db' = db\<lparr>bd_cache := cache'\<rparr>" by (cases q) (auto simp: load_page_timed_def Let_def)
    with resolve_counted [of el cpu zd "bd_store db" rec out "measure_ns el FloorNs t1" p cache' u] l c1 show ?thesis
      by (cases "r_kind rec")
        (intro exI [of _ "of_bool (r_kind rec = Full)"] exI [of _ "of_bool (r_kind rec = Zero)"] exI [of _ "of_bool (r_kind rec = Delta)"],
          simp add: counted_simps)+
  qed
qed

text \<open>The requests of \<open>load_pages\<close>, with the counters.\<close>

fun load_pages_timed ::
  "clock \<Rightarrow> decoder \<Rightarrow> btree_db \<Rightarrow> (cpu \<times> bytes \<times> u64 \<times> u32) list \<Rightarrow> timed \<Rightarrow> bytes option res list \<times> timed" where
  "load_pages_timed el zd db [] t = ([], t)"
| "load_pages_timed el zd db ((cpu, out, pa, s) # reqs) t =
     (case load_page_timed el cpu zd db out pa s t of
        ((r, db), t) \<Rightarrow> (case load_pages_timed el zd db reqs t of (rs, t) \<Rightarrow> (r # rs, t)))"

lemma load_pages_timed_result: "fst (load_pages_timed el zd db reqs t) = load_pages zd db reqs"
proof (induction reqs arbitrary: db t)
  case (Cons req reqs)
  obtain cpu out pa s where req: "req = (cpu, out, pa, s)" by (metis prod_cases4)
  obtain r db1 t1 where l: "load_page_timed el cpu zd db out pa s t = ((r, db1), t1)" by (metis prod.collapse)
  moreover obtain rs t2 where rest: "load_pages_timed el zd db1 reqs t1 = (rs, t2)" by (metis prod.collapse)
  moreover have "load_page cpu zd db out pa s = (r, db1)"
    using load_page_timed_result [of el cpu zd db out pa s t] l by simp
  ultimately show ?case using Cons.IH [of db1 t1] req by simp
qed simp

lemma loads_counted:
  assumes "load_pages_timed el zd db reqs t = (map Inr pages, t')" "bd_cache db = None"
  shows "\<exists>f z d. counted t t' (of_nat (length (filter (\<lambda>p. p \<noteq> None) pages))) f z d (f + d) \<and>
    f + z + d = of_nat (length (filter (\<lambda>p. p \<noteq> None) pages))"
  using assms
proof (induction reqs arbitrary: db t pages)
  case Nil
  then show ?case by (intro exI [of _ 0]) (simp add: counted_def)
next
  case (Cons req reqs)
  obtain cpu out pa s where req: "req = (cpu, out, pa, s)" by (metis prod_cases4)
  obtain q db1 t1 where l: "load_page_timed el cpu zd db out pa s t = ((q, db1), t1)" by (metis prod.collapse)
  obtain rs t2 where rest: "load_pages_timed el zd db1 reqs t1 = (rs, t2)" by (metis prod.collapse)
  with Cons.prems(1) req l obtain page pages' where r: "q = Inr page" "pages = page # pages'" "rs = map Inr pages'" "t2 = t'"
    by (cases pages) auto
  obtain f z d where one: "counted t t1 (of_bool (page \<noteq> None)) f z d (f + d)" "f + z + d = of_bool (page \<noteq> None)" "bd_cache db1 = None"
    using load_page_counted [OF l [unfolded r(1)] Cons.prems(2)] by blast
  obtain f' z' d' where more: "counted t1 t' (of_nat (length (filter (\<lambda>p. p \<noteq> None) pages'))) f' z' d' (f' + d')"
    "f' + z' + d' = of_nat (length (filter (\<lambda>p. p \<noteq> None) pages'))"
    using Cons.IH [OF rest [unfolded r(3,4)] one(3)] by blast
  have n: "of_nat (length (filter (\<lambda>p. p \<noteq> None) pages)) =
      (of_bool (page \<noteq> None) :: u64) + of_nat (length (filter (\<lambda>p. p \<noteq> None) pages'))" by (simp add: r(2))
  have "counted t t' (of_nat (length (filter (\<lambda>p. p \<noteq> None) pages))) (f + f') (z + z') (d + d') (f + f' + (d + d'))"
    using one(1) more(1) unfolding n counted_def by (simp add: algebra_simps)
  moreover have "f + f' + (z + z') + (d + d') = of_nat (length (filter (\<lambda>p. p \<noteq> None) pages))"
    unfolding n one(2) [symmetric] more(2) [symmetric] by (simp add: algebra_simps)
  ultimately show ?case by blast
qed

section \<open>The search ends soon\<close>

lemma floor_jumps_bound:
  assumes "n * FIXED_RECORD_SIZE \<le> length body" "lo \<le> hi" "hi \<le> n" "hi - lo < 2 ^ k" "unat jumps + k < 2 ^ 64"
  shows "\<exists>m j. floor_jumps body key lo hi jumps = Inr (m, j) \<and> unat j \<le> unat jumps + k"
  using assms
proof (induction body key lo hi jumps arbitrary: k rule: floor_jumps.induct)
  case (1 body key lo hi jumps)
  show ?case
  proof (cases "lo < hi")
    case True
    let ?mid = "lo + (hi - lo) div 2"
    have mid: "?mid < hi" "lo \<le> ?mid" using True by auto
    obtain k' where k: "k = Suc k'" using "1.prems"(4) True by (cases k) auto
    have small: "hi - (?mid + 1) < 2 ^ k'" "?mid - lo < 2 ^ k'" using "1.prems"(4) True unfolding k by auto
    have j: "unat (jumps + 1) = unat jumps + 1" using "1.prems"(5) by (simp add: k unat_word_ariths)
    obtain b where b: "read_key_at body ?mid = Inr b"
      using read_key_at_in_range [of ?mid n body] mid "1.prems"(1,3) by auto
    have rec: "floor_jumps body key lo hi jumps =
        (if b \<le> key then floor_jumps body key (?mid + 1) hi (jumps + 1) else floor_jumps body key lo ?mid (jumps + 1))"
      using True b by (subst floor_jumps.simps) (simp add: Let_def)
    show ?thesis
    proof (cases "b \<le> key")
      case le: True
      from "1.IH"(1) [OF True refl refl b le "1.prems"(1) _ "1.prems"(3) small(1)] mid "1.prems"(5) j k
      show ?thesis using rec le by auto
    next
      case False
      from "1.IH"(2) [OF True refl refl b False "1.prems"(1) mid(2) _ small(2)] mid "1.prems"(3,5) j k
      show ?thesis using rec False by auto
    qed
  qed (simp add: floor_jumps.simps [of body key lo])
qed

text \<open>The whole query, with the counter of steps it leaves.\<close>

lemma floor_mmap_timed_bound:
  assumes "HEADER_SIZE + n * FIXED_RECORD_SIZE \<le> length file" "n < 2 ^ k" "k < 64"
  shows "\<exists>r j. floor_mmap_timed file n key pa t = (Inr r, (counter_add FloorJumps j (fst t), snd t)) \<and> unat j \<le> k"
proof -
  let ?body = "drop HEADER_SIZE file"
  have "unat (0 :: u64) + k < 2 ^ 64" using assms(3) by simp
  moreover have "n * FIXED_RECORD_SIZE \<le> length ?body" using assms(1) by simp
  ultimately obtain m j where j: "floor_jumps ?body key 0 n 0 = Inr (m, j)" "unat j \<le> k"
    using floor_jumps_bound [of n ?body 0 n k 0 key] assms(2) by auto
  obtain r where "floor_mmap file n key pa = Inr r" using floor_mmap_no_panic [OF assms(1)] by blast
  then have "fst (floor_mmap_timed file n key pa t) = Inr r" by (simp add: floor_mmap_timed_result)
  moreover have "snd (floor_mmap_timed file n key pa t) = (counter_add FloorJumps j (fst t), snd t)"
    using assms(1) j(1) by (simp add: floor_mmap_timed_def index_body_def)
  ultimately show ?thesis using j(2) by (metis prod.collapse)
qed

section \<open>Properties\<close>

text \<open>The counters and clock readings change nothing: whatever the clock says and
  the counters held, a sequence of page loads gives with them the pages and the errors of the
  reader without them.\<close>

theorem timing_is_transparent:
  "fst (load_pages_timed el zd db reqs t) = load_pages zd db reqs"
  by (rule load_pages_timed_result)

text \<open>C28: Every query of a mapped index ends, on whatever bytes the file holds: on a file of at
  least the size that \<open>open\<close> checked the search returns, reads nothing outside the mapping, and
  the steps it adds to \<open>floor_jumps\<close> are at most the bits of the record count; an exact query
  returns as well.\<close>

theorem index_search_ends:
  assumes "HEADER_SIZE + n * FIXED_RECORD_SIZE \<le> length file" "n < 2 ^ k" "k < 64"
  shows "(\<exists>r j. floor_mmap_timed file n key pa t = (Inr r, (counter_add FloorJumps j (fst t), snd t)) \<and> unat j \<le> k) \<and>
    (\<exists>r. exact_mmap file n key = Inr r)"
  using floor_mmap_timed_bound [OF assms] exact_mmap_no_panic [OF assms(1)] by simp

theorem index_search_ends_witness:
  "\<exists>r j. floor_mmap_timed (replicate 80 255) 2 17 0 (timing_new, 0) = (Inr r, (counter_add FloorJumps j timing_new, 0)) \<and> unat j \<le> 2"
proof -
  have "HEADER_SIZE + 2 * FIXED_RECORD_SIZE \<le> length (replicate 80 (255 :: byte))"
    by (simp add: HEADER_SIZE_def FIXED_RECORD_SIZE_def)
  moreover have "(2 :: nat) < 2 ^ 2" "(2 :: nat) < 64" by simp_all
  ultimately show ?thesis using index_search_ends [of 2 "replicate 80 255" 2 17 0 "(timing_new, 0)"] by simp
qed

end
