(* ===== verification/Race.thy ===== *)
theory Race
  imports Timing
begin

text \<open>
  Counters shared by threads (\<open>Counter\<close> of \<open>timing.rs\<close>): an addition as its two memory accesses,
  a step relation for the interleavings of several threads, and the values a run can end with.
\<close>

text \<open>
  \<open>Counter::add\<close> is a plain read and a plain write of the cell. For \<open>n\<close> threads that each add
  once: the cell, what a thread has read and not yet written back, and which are done.
\<close>

record race =
  rc_value :: u64
  rc_read :: "nat \<Rightarrow> u64 option"
  rc_done :: "nat set"

inductive race_step :: "nat \<Rightarrow> (nat \<Rightarrow> u64) \<Rightarrow> race \<Rightarrow> race \<Rightarrow> bool" for n ns where
  rd: "i < n \<Longrightarrow> i \<notin> rc_done s \<Longrightarrow> rc_read s i = None \<Longrightarrow>
    race_step n ns s (s\<lparr>rc_read := (rc_read s)(i \<mapsto> rc_value s)\<rparr>)"
| wr: "rc_read s i = Some v \<Longrightarrow>
    race_step n ns s (s\<lparr>rc_value := v + ns i, rc_read := (rc_read s)(i := None), rc_done := insert i (rc_done s)\<rparr>)"

inductive_cases race_stepE: "race_step n ns s s'"

definition race_start :: "u64 \<Rightarrow> race" where
  "race_start v = \<lparr>rc_value = v, rc_read = (\<lambda>_. None), rc_done = {}\<rparr>"

text \<open>
  A thread that reads and writes with no other in between does what \<open>counter_add\<close> does to the
  cell, which is what the timed reader assumes of one thread.
\<close>

lemma race_undisturbed:
  assumes "i < n" "i \<notin> rc_done s" "rc_read s i = None" "c k = rc_value s"
  shows "(race_step n ns ^^ 2) s (s\<lparr>rc_value := counter_add k (ns i) c k, rc_done := insert i (rc_done s)\<rparr>)"
proof -
  let ?r = "s\<lparr>rc_read := (rc_read s)(i \<mapsto> rc_value s)\<rparr>"
  have "race_step n ns s ?r" using assms by (intro race_step.rd)
  moreover have "race_step n ns ?r (?r\<lparr>rc_value := rc_value s + ns i, rc_read := (rc_read ?r)(i := None), rc_done := insert i (rc_done ?r)\<rparr>)"
    by (rule race_step.wr) simp
  moreover have "(rc_read s)(i := None) = rc_read s" using assms(3) by auto
  ultimately show ?thesis using assms(4) by (auto simp: numeral_2_eq_2 counter_add_def)
qed

text \<open>A value in the cell or in a thread's hands is the start plus what some threads already done added.\<close>

definition race_inv :: "nat \<Rightarrow> u64 \<Rightarrow> (nat \<Rightarrow> u64) \<Rightarrow> race \<Rightarrow> bool" where
  "race_inv n v ns s \<longleftrightarrow>
     rc_done s \<subseteq> {..<n} \<and>
     (\<exists>A \<subseteq> rc_done s. (A = {} \<longrightarrow> rc_done s = {}) \<and> rc_value s = v + sum ns A) \<and>
     (\<forall>i x. rc_read s i = Some x \<longrightarrow> i < n \<and> i \<notin> rc_done s \<and> (\<exists>A \<subseteq> rc_done s. x = v + sum ns A))"

lemma race_inv_start: "race_inv n v ns (race_start v)"
  by (simp add: race_inv_def race_start_def)

lemma race_inv_read:
  assumes "race_inv n v ns s" "rc_read s i = Some x"
  obtains A where "A \<subseteq> rc_done s" "x = v + sum ns A" "i < n" "i \<notin> rc_done s" "finite A"
proof -
  from assms obtain A where "A \<subseteq> rc_done s" "x = v + sum ns A" "i < n" "i \<notin> rc_done s" "rc_done s \<subseteq> {..<n}"
    unfolding race_inv_def by blast
  moreover from this have "finite A" by (meson finite_lessThan finite_subset)
  ultimately show thesis using that by blast
qed

lemma race_step_inv:
  assumes "race_step n ns s s'" "race_inv n v ns s"
  shows "race_inv n v ns s'"
  using assms(1)
proof cases
  case (rd i)
  with assms(2) show ?thesis unfolding race_inv_def by auto
next
  case (wr i x)
  obtain A where A: "A \<subseteq> rc_done s" "x = v + sum ns A" "i < n" "i \<notin> rc_done s" "finite A"
    by (rule race_inv_read [OF assms(2) wr(2)])
  have "x + ns i = v + sum ns (insert i A)" using A by (subst sum.insert) auto
  then have "\<exists>B \<subseteq> insert i (rc_done s). (B = {} \<longrightarrow> insert i (rc_done s) = {}) \<and> x + ns i = v + sum ns B"
    using A(1) by (intro exI [of _ "insert i A"]) auto
  moreover have "insert i (rc_done s) \<subseteq> {..<n}" using A(3) assms(2) by (simp add: race_inv_def)
  moreover have "j < n \<and> j \<notin> insert i (rc_done s) \<and> (\<exists>B \<subseteq> insert i (rc_done s). y = v + sum ns B)"
    if "((rc_read s)(i := None)) j = Some y" for j y
  proof -
    have j: "rc_read s j = Some y" "j \<noteq> i" using that by (auto split: if_splits)
    from race_inv_read [OF assms(2) j(1)] show ?thesis using j(2) by (metis insert_iff subset_insertI2)
  qed
  ultimately show ?thesis using wr(1) by (simp add: race_inv_def)
qed

lemma race_reach_inv: "(race_step n ns)\<^sup>*\<^sup>* (race_start v) s \<Longrightarrow> race_inv n v ns s"
  by (induction rule: rtranclp_induct) (auto intro: race_inv_start race_step_inv)

text \<open>Threads that add one after the other lose nothing.\<close>

lemma race_serial:
  assumes "finite B" "B \<subseteq> {..<n}" "B \<inter> rc_done s = {}" "\<forall>i \<in> B. rc_read s i = None"
  shows "(race_step n ns)\<^sup>*\<^sup>* s (s\<lparr>rc_value := rc_value s + sum ns B, rc_done := rc_done s \<union> B\<rparr>)"
  using assms
proof (induction B rule: finite_induct)
  case (insert i B)
  let ?s = "s\<lparr>rc_value := rc_value s + sum ns B, rc_done := rc_done s \<union> B\<rparr>"
  let ?r = "?s\<lparr>rc_read := (rc_read ?s)(i \<mapsto> rc_value ?s)\<rparr>"
  have "race_step n ns ?s ?r" using insert.prems insert.hyps by (intro race_step.rd) auto
  moreover have "race_step n ns ?r (?r\<lparr>rc_value := rc_value ?s + ns i, rc_read := (rc_read ?r)(i := None), rc_done := insert i (rc_done ?r)\<rparr>)"
    by (rule race_step.wr) simp
  moreover have "(rc_read s)(i := None) = rc_read s" using insert.prems by auto
  moreover have "(race_step n ns)\<^sup>*\<^sup>* s ?s" using insert.IH insert.prems by simp
  ultimately show ?case using insert.hyps by (simp add: algebra_simps)
qed simp

text \<open>
  One thread of \<open>A\<close> reads first; all threads outside \<open>A\<close> come and go; it writes over what they
  added; the rest of \<open>A\<close> follows.
\<close>

lemma race_loses:
  assumes "A \<subseteq> {..<n}" "a \<in> A"
  shows "\<exists>s. (race_step n ns)\<^sup>*\<^sup>* (race_start v) s \<and> rc_done s = {..<n} \<and> rc_value s = v + sum ns A"
proof -
  have fin: "finite A" using assms(1) by (rule finite_subset) simp
  let ?out = "{..<n} - A" and ?s0 = "race_start v"
  let ?s1 = "?s0\<lparr>rc_read := (rc_read ?s0)(a \<mapsto> rc_value ?s0)\<rparr>"
  let ?s2 = "?s1\<lparr>rc_value := rc_value ?s1 + sum ns ?out, rc_done := rc_done ?s1 \<union> ?out\<rparr>"
  let ?s3 = "?s2\<lparr>rc_value := v + ns a, rc_read := (rc_read ?s2)(a := None), rc_done := insert a (rc_done ?s2)\<rparr>"
  let ?s4 = "?s3\<lparr>rc_value := rc_value ?s3 + sum ns (A - {a}), rc_done := rc_done ?s3 \<union> (A - {a})\<rparr>"
  have "race_step n ns ?s0 ?s1" using assms by (intro race_step.rd) (auto simp: race_start_def)
  moreover have "(race_step n ns)\<^sup>*\<^sup>* ?s1 ?s2" using assms by (intro race_serial) (auto simp: race_start_def)
  moreover have "race_step n ns ?s2 ?s3" by (rule race_step.wr) (simp add: race_start_def)
  moreover have "(race_step n ns)\<^sup>*\<^sup>* ?s3 ?s4" using assms fin by (intro race_serial) (auto simp: race_start_def)
  ultimately have "(race_step n ns)\<^sup>*\<^sup>* ?s0 ?s4"
    by (meson converse_rtranclp_into_rtranclp rtranclp_trans)
  moreover have "rc_done ?s4 = {..<n}" using assms by (auto simp: race_start_def)
  moreover have "rc_value ?s4 = v + sum ns A" using fin assms(2) by (simp add: sum.remove add.assoc)
  ultimately show ?thesis by blast
qed

text \<open>A step is always left until every thread is done.\<close>

lemma race_progress:
  assumes "race_inv n v ns s"
  shows "(\<exists>s'. race_step n ns s s') \<longleftrightarrow> rc_done s \<noteq> {..<n}"
proof
  assume "\<exists>s'. race_step n ns s s'"
  then obtain s' where "race_step n ns s s'" by blast
  then show "rc_done s \<noteq> {..<n}"
    by cases (auto elim: race_inv_read [OF assms])
next
  assume "rc_done s \<noteq> {..<n}"
  then obtain i where i: "i < n" "i \<notin> rc_done s" using assms by (auto simp: race_inv_def)
  show "\<exists>s'. race_step n ns s s'"
    by (cases "rc_read s i") (use i in \<open>blast intro: race_step.intros\<close>)+
qed

text \<open>C29: \<open>Counter::add\<close> is no atomic operation. When \<open>n\<close> threads each add once to one
  counter, as the workers of a bulk load do with the counters of blob reads, the values the
  counter can end with are exactly the start plus the sum over some of the threads, any
  nonempty set of them: no additions, or all but one, may be lost.\<close>

theorem concurrent_counter_adds:
  "(\<exists>s. (race_step n ns)\<^sup>*\<^sup>* (race_start v) s \<and> rc_done s = {..<n} \<and> rc_value s = w) \<longleftrightarrow>
   (\<exists>A \<subseteq> {..<n}. (A = {} \<longleftrightarrow> n = 0) \<and> w = v + sum ns A)"
proof
  assume "\<exists>s. (race_step n ns)\<^sup>*\<^sup>* (race_start v) s \<and> rc_done s = {..<n} \<and> rc_value s = w"
  then obtain s where s: "race_inv n v ns s" "rc_done s = {..<n}" "rc_value s = w" using race_reach_inv by blast
  then obtain A where "A \<subseteq> {..<n}" "A = {} \<longrightarrow> {..<n} = {}" "w = v + sum ns A" unfolding race_inv_def by auto
  then show "\<exists>A \<subseteq> {..<n}. (A = {} \<longleftrightarrow> n = 0) \<and> w = v + sum ns A" by (intro exI [of _ A]) auto
next
  assume "\<exists>A \<subseteq> {..<n}. (A = {} \<longleftrightarrow> n = 0) \<and> w = v + sum ns A"
  then obtain A where A: "A \<subseteq> {..<n}" "A = {} \<longleftrightarrow> n = 0" "w = v + sum ns A" by blast
  show "\<exists>s. (race_step n ns)\<^sup>*\<^sup>* (race_start v) s \<and> rc_done s = {..<n} \<and> rc_value s = w"
  proof (cases "A = {}")
    case True
    with A show ?thesis by (intro exI [of _ "race_start v"]) (simp add: race_start_def)
  next
    case False
    then obtain a where "a \<in> A" by blast
    from race_loses [OF A(1) this] A(3) show ?thesis by simp
  qed
qed

end
