(* ===== verification/Report.thy ===== *)
theory Report
  imports Timing
begin

text \<open>
  The report of the timing counters written when the process ends (\<open>timing.rs\<close>): where it goes,
  its text, and the registration of the handler; with a reader of JSON objects of numbers, and
  what it reads back from the report.
\<close>

section \<open>The report\<close>

text \<open>\<open>PathBuf::push\<close> of a relative name.\<close>

definition path_push :: "string \<Rightarrow> string \<Rightarrow> string" where
  "path_push p name = (if p = [] \<or> hd (rev p) = CHR ''/'' then p @ name else p @ ''/'' @ name)"

text \<open>The environment variable (if set, and Unicode) and the working directory (if it is known).\<close>

definition log_path :: "string option \<Rightarrow> string option \<Rightarrow> string" where
  "log_path var cwd =
     (case var of
        Some p \<Rightarrow> p
      | None \<Rightarrow> path_push (case cwd of Some p \<Rightarrow> p | None \<Rightarrow> ''/tmp'') ''bxdb_ckpt_time.json'')"

definition saturating_sub :: "u64 \<Rightarrow> u64 \<Rightarrow> u64" where
  "saturating_sub a b = (if b \<le> a then a - b else 0)"

text \<open>\<open>"key":\<close> and \<open>"key":value\<close>.\<close>

definition jkey :: "string \<Rightarrow> string" where
  "jkey k = CHR 0x22 # k @ [CHR 0x22, CHR '':'']"

definition jnum :: "string \<Rightarrow> u64 \<Rightarrow> string" where
  "jnum k v = jkey k @ show_dec (unat v)"

definition report_json :: "u64 \<Rightarrow> counters \<Rightarrow> string" where
  "report_json pid c =
     (let fc_decomp_calls = saturating_sub (c FullCalls) (c FullCacheHits);
          delta_calls = c DeltaCalls
      in ''{'' @ jnum ''pid'' pid @ '','' @ jnum ''total_calls'' (c TotalCalls) @ '','' @ jnum ''total_ns'' (c TotalNs) @ '','' @
         jkey ''phases'' @ ''{'' @
         jkey ''floor'' @ ''{'' @ jnum ''ns'' (c FloorNs) @ '','' @ jnum ''calls'' (c TotalCalls) @ '','' @
           jnum ''jumps'' (c FloorJumps) @ ''},'' @
         jkey ''full'' @ ''{'' @ jnum ''calls'' (c FullCalls) @ '','' @
           jnum ''cache_get_ns'' (c FullCacheGetNs) @ '','' @ jnum ''cache_get_calls'' (c TotalCalls) @ '','' @
           jnum ''cache_hits'' (c FullCacheHits) @ '','' @
           jnum ''decompress_ns'' (c FullDecompressNs) @ '','' @ jnum ''decompress_calls'' fc_decomp_calls @ '','' @
           jnum ''cache_put_ns'' (c FullCachePutNs) @ '','' @ jnum ''cache_put_calls'' fc_decomp_calls @ ''},'' @
         jkey ''delta'' @ ''{'' @ jnum ''calls'' delta_calls @ '','' @
           jnum ''base_cache_get_ns'' (c DeltaBaseCacheGetNs) @ '','' @ jnum ''base_cache_get_calls'' delta_calls @ '','' @
           jnum ''base_lookup_ns'' (c DeltaBaseLookupNs) @ '','' @ jnum ''base_lookup_calls'' delta_calls @ '','' @
           jnum ''base_decompress_ns'' (c DeltaBaseDecompressNs) @ '','' @ jnum ''base_decompress_calls'' delta_calls @ '','' @
           jnum ''base_cache_put_ns'' (c DeltaBaseCachePutNs) @ '','' @ jnum ''base_cache_put_calls'' delta_calls @ '','' @
           jnum ''blob_read_ns'' (c DeltaBlobReadNs) @ '','' @ jnum ''blob_read_calls'' delta_calls @ '','' @
           jnum ''patch_ns'' (c DeltaPatchNs) @ '','' @ jnum ''patch_calls'' delta_calls @ ''},'' @
         jkey ''zero'' @ ''{'' @ jnum ''calls'' (c ZeroCalls) @ ''},'' @
         jkey ''io'' @ ''{'' @ jnum ''blob_read_ns'' (c BlobReadNs) @ '','' @ jnum ''blob_read_calls'' (c BlobReadCalls) @ '','' @
           jnum ''zstd_decompress_ns'' (c ZstdDecompressNs) @ '','' @
           jnum ''zstd_decompress_calls'' (c ZstdDecompressCalls) @ '','' @
           jnum ''full_copy_out_ns'' (c FullCopyOutNs) @ '','' @ jnum ''full_drop_blob_ns'' (c FullDropBlobNs) @ ''}'' @
         ''}'' @ ''}'')"

text \<open>
  The file system by path, the error text of a path that cannot be written, and what goes to
  standard error.
\<close>

definition on_exit_report ::
  "string option \<Rightarrow> string option \<Rightarrow> u64 \<Rightarrow> counters \<Rightarrow> (string \<Rightarrow> string option) \<Rightarrow> (string \<Rightarrow> string option) \<Rightarrow>
     (string \<Rightarrow> string option) \<times> string" where
  "on_exit_report var cwd pid c fail files =
     (let path = log_path var cwd
      in case fail path of
           None \<Rightarrow> (files(path \<mapsto> report_json pid c), [])
         | Some e \<Rightarrow> (files, ''bxdb timing: cannot write '' @ path @ '': '' @ e @ [CHR 0x0A]))"

text \<open>\<open>REGISTERED\<close> and the number of handlers given to \<open>atexit\<close>.\<close>

definition init_timing :: "bool \<times> nat \<Rightarrow> bool \<times> nat" where
  "init_timing = (\<lambda>(registered, handlers). (True, if registered then handlers else handlers + 1))"

text \<open>However many databases a process opens, one report is registered.\<close>

lemma one_report: "(init_timing ^^ Suc k) (False, 0) = (True, 1)"
  by (induction k) (simp_all add: init_timing_def)

section \<open>JSON objects of numbers\<close>

datatype json = JNum u64 | JObj "(string \<times> json) list"

fun render :: "json \<Rightarrow> string" and render_members :: "(string \<times> json) list \<Rightarrow> string" where
  "render (JNum n) = show_dec (unat n)"
| "render (JObj ms) = CHR ''{'' # render_members ms"
| "render_members [] = ''}''"
| "render_members ((k, v) # ms) = jkey k @ render v @ (if ms = [] then ''}'' else CHR '','' # render_members ms)"

text \<open>The reader; it never needs more calls than the text is long.\<close>

fun read_value :: "nat \<Rightarrow> string \<Rightarrow> (json \<times> string) option"
  and read_members :: "nat \<Rightarrow> string \<Rightarrow> ((string \<times> json) list \<times> string) option" where
  "read_value 0 s = None"
| "read_value (Suc f) s =
     (case s of
        [] \<Rightarrow> None
      | c # r \<Rightarrow>
          if c = CHR ''{'' then map_option (\<lambda>(ms, r). (JObj ms, r)) (read_members f r)
          else map_option (\<lambda>n. (JNum n, dropWhile (\<lambda>c. digit_val 10 c \<noteq> None) s))
            (parse_word 10 (takeWhile (\<lambda>c. digit_val 10 c \<noteq> None) s)))"
| "read_members 0 s = None"
| "read_members (Suc f) s =
     (case s of
        [] \<Rightarrow> None
      | c # r \<Rightarrow>
          if c \<noteq> CHR 0x22 then None
          else (case dropWhile (\<lambda>c. c \<noteq> CHR 0x22) r of
              q # d # r' \<Rightarrow>
                if d \<noteq> CHR '':'' then None
                else (case read_value f r' of
                    Some (v, e # r'') \<Rightarrow>
                      let m = (takeWhile (\<lambda>c. c \<noteq> CHR 0x22) r, v)
                      in if e = CHR ''}'' then Some ([m], r'')
                         else if e = CHR '','' then map_option (\<lambda>(ms, r). (m # ms, r)) (read_members f r'')
                         else None
                  | _ \<Rightarrow> None)
            | _ \<Rightarrow> None))"

definition read_json :: "string \<Rightarrow> json option" where
  "read_json s = (case read_value (length s) s of Some (j, []) \<Rightarrow> Some j | _ \<Rightarrow> None)"

text \<open>Keys hold no quotation mark, and no object is empty.\<close>

fun json_ok :: "json \<Rightarrow> bool" and members_ok :: "(string \<times> json) list \<Rightarrow> bool" where
  "json_ok (JNum n) \<longleftrightarrow> True"
| "json_ok (JObj ms) \<longleftrightarrow> ms \<noteq> [] \<and> members_ok ms"
| "members_ok [] \<longleftrightarrow> True"
| "members_ok ((k, v) # ms) \<longleftrightarrow> CHR 0x22 \<notin> set k \<and> json_ok v \<and> members_ok ms"

definition delimited :: "string \<Rightarrow> bool" where
  "delimited rest \<longleftrightarrow> (case rest of [] \<Rightarrow> True | c # _ \<Rightarrow> digit_val 10 c = None)"

lemma delimited_simps [simp]:
  "delimited []" "delimited (CHR ''}'' # r)" "delimited (CHR '','' # r)"
  by (simp_all add: delimited_def digit_val_def)

lemma digits_of_dec:
  "delimited rest \<Longrightarrow> takeWhile (\<lambda>c. digit_val 10 c \<noteq> None) (show_dec n @ rest) = show_dec n"
  "delimited rest \<Longrightarrow> dropWhile (\<lambda>c. digit_val 10 c \<noteq> None) (show_dec n @ rest) = rest"
proof -
  have digits: "digit_val 10 c \<noteq> None" if "c \<in> set (show_dec n)" for c
    using show_base_chars [OF _ that] digit_val_char [of _ 10] by fastforce
  then show "delimited rest \<Longrightarrow> takeWhile (\<lambda>c. digit_val 10 c \<noteq> None) (show_dec n @ rest) = show_dec n"
    by (cases rest) (simp_all add: delimited_def takeWhile_append2)
  show "delimited rest \<Longrightarrow> dropWhile (\<lambda>c. digit_val 10 c \<noteq> None) (show_dec n @ rest) = rest"
    using digits by (cases rest) (simp_all add: delimited_def dropWhile_append2)
qed

lemma dec_not_brace: "show_dec n \<noteq> CHR ''{'' # r"
proof
  assume "show_dec n = CHR ''{'' # r"
  then have "CHR ''{'' \<in> set (show_dec n)" by simp
  then obtain d :: nat where d: "d < 10" "CHR ''{'' = digit_char d" using show_base_chars [of 10] by fastforce
  then have "of_char CHR ''{'' = (48 + d :: nat)" using digit_char_code [of d] by simp
  with d(1) show False by simp
qed

lemma key_split:
  assumes "CHR 0x22 \<notin> set k"
  shows "takeWhile (\<lambda>c. c \<noteq> CHR 0x22) (k @ CHR 0x22 # r) = k" "dropWhile (\<lambda>c. c \<noteq> CHR 0x22) (k @ CHR 0x22 # r) = CHR 0x22 # r"
  using assms by (induction k) auto

lemma read_number:
  assumes "delimited rest" "0 < f"
  shows "read_value f (show_dec (unat n) @ rest) = Some (JNum n, rest)"
proof -
  obtain c r where s: "show_dec (unat n) = c # r" by (cases "show_dec (unat n)") simp_all
  have c: "c \<noteq> CHR ''{''" using dec_not_brace [of "unat n" r] s by auto
  obtain f' where f: "f = Suc f'" using assms(2) by (cases f) auto
  have "takeWhile (\<lambda>c. digit_val 10 c \<noteq> None) (c # r @ rest) = show_dec (unat n)"
    "dropWhile (\<lambda>c. digit_val 10 c \<noteq> None) (c # r @ rest) = rest"
    using digits_of_dec [OF assms(1), of "unat n"] s by simp_all
  with c show ?thesis using parse_word_show [of 10 n] by (simp add: f s del: takeWhile.simps dropWhile.simps)
qed

lemma read_rendered:
  "json_ok j \<Longrightarrow> length (render j) \<le> f \<Longrightarrow> delimited rest \<Longrightarrow> read_value f (render j @ rest) = Some (j, rest)"
  "members_ok ms \<Longrightarrow> ms \<noteq> [] \<Longrightarrow> length (render_members ms) \<le> f \<Longrightarrow> read_members f (render_members ms @ rest) = Some (ms, rest)"
proof (induction j and ms arbitrary: f rest and f rest rule: render_render_members.induct)
  case (1 n)
  have "0 < length (show_dec (unat n))" by simp
  then have "0 < f" using "1.prems"(2) by (simp del: length_greater_0_conv)
  then show ?case using read_number "1.prems"(3) by simp
next
  case (2 ms)
  then obtain f' where "f = Suc f'" by (cases f) auto
  with 2 show ?case by simp
next
  case (4 k v ms)
  from "4.prems"(1) have key: "CHR 0x22 \<notin> set k" and v: "json_ok v" and ms: "members_ok ms" by simp_all
  obtain f' where f: "f = Suc f'" using "4.prems"(3) by (cases f) (auto simp: jkey_def)
  show ?case
  proof (cases "ms = []")
    case True
    with "4.IH"(1) [OF v, of f' "CHR ''}'' # rest"] "4.prems"(3) key f show ?thesis
      by (simp add: jkey_def key_split)
  next
    case False
    with "4.IH"(1) [OF v, of f' "CHR '','' # render_members ms @ rest"] "4.IH"(2) [OF False ms False, of f' rest] "4.prems"(3) key f show ?thesis
      by (simp add: jkey_def key_split)
  qed
qed simp

section \<open>What the report says\<close>

text \<open>The report as a value: the counter each number stands for.\<close>

definition report_tree :: "u64 \<Rightarrow> counters \<Rightarrow> json" where
  "report_tree pid c =
     (let fld = map_prod id (\<lambda>k. JNum (c k)); misses = JNum (c FullCalls - min (c FullCalls) (c FullCacheHits))
      in JObj [(''pid'', JNum pid), fld (''total_calls'', TotalCalls), fld (''total_ns'', TotalNs),
        (''phases'', JObj [
          (''floor'', JObj (map fld [(''ns'', FloorNs), (''calls'', TotalCalls), (''jumps'', FloorJumps)])),
          (''full'', JObj [fld (''calls'', FullCalls), fld (''cache_get_ns'', FullCacheGetNs), fld (''cache_get_calls'', TotalCalls),
             fld (''cache_hits'', FullCacheHits), fld (''decompress_ns'', FullDecompressNs), (''decompress_calls'', misses),
             fld (''cache_put_ns'', FullCachePutNs), (''cache_put_calls'', misses)]),
          (''delta'', JObj (map fld [(''calls'', DeltaCalls),
             (''base_cache_get_ns'', DeltaBaseCacheGetNs), (''base_cache_get_calls'', DeltaCalls),
             (''base_lookup_ns'', DeltaBaseLookupNs), (''base_lookup_calls'', DeltaCalls),
             (''base_decompress_ns'', DeltaBaseDecompressNs), (''base_decompress_calls'', DeltaCalls),
             (''base_cache_put_ns'', DeltaBaseCachePutNs), (''base_cache_put_calls'', DeltaCalls),
             (''blob_read_ns'', DeltaBlobReadNs), (''blob_read_calls'', DeltaCalls),
             (''patch_ns'', DeltaPatchNs), (''patch_calls'', DeltaCalls)])),
          (''zero'', JObj [fld (''calls'', ZeroCalls)]),
          (''io'', JObj (map fld [(''blob_read_ns'', BlobReadNs), (''blob_read_calls'', BlobReadCalls),
             (''zstd_decompress_ns'', ZstdDecompressNs), (''zstd_decompress_calls'', ZstdDecompressCalls),
             (''full_copy_out_ns'', FullCopyOutNs), (''full_drop_blob_ns'', FullDropBlobNs)]))])])"

lemma saturating_sub_min: "saturating_sub a b = a - min a b"
  using linear [of a b] by (auto simp: saturating_sub_def min_def)

lemma report_rendered: "report_json pid c = render (report_tree pid c)"
  by (simp add: report_json_def report_tree_def Let_def jnum_def saturating_sub_min)

lemma report_tree_ok: "json_ok (report_tree pid c)"
  by (simp add: report_tree_def Let_def)

text \<open>The report written when the process ends is one JSON value that reads back to the
  counters: every number of it stands at its place and is the counter (or the difference that
  stops at zero) of the table above, also at the largest values; it goes to the path of the
  environment variable, and nothing else is written.\<close>

theorem report_reads_back:
  "\<exists>body. on_exit_report (Some path) cwd pid c (\<lambda>_. None) files = (files(path \<mapsto> body), []) \<and>
     read_json body = Some (report_tree pid c)"
proof -
  have "read_value (length (report_json pid c)) (report_json pid c @ []) = Some (report_tree pid c, [])"
    unfolding report_rendered by (rule read_rendered(1) [OF report_tree_ok]) simp_all
  then have "read_json (report_json pid c) = Some (report_tree pid c)" by (simp add: read_json_def)
  moreover have "on_exit_report (Some path) cwd pid c (\<lambda>_. None) files = (files(path \<mapsto> report_json pid c), [])"
    by (simp add: on_exit_report_def log_path_def)
  ultimately show ?thesis by blast
qed

end
