(* ===== verification/Torn.thy ===== *)
theory Torn
  imports Saves Convert
begin

text \<open>
  A log that ends in the middle of a record, as a writer that was killed while the operating
  system took its bytes leaves it: what the readers make of it, and what happens to a save
  that follows. The fragment is \<open>take j\<close> of the bytes of some record.
\<close>

section \<open>Reading a torn log\<close>

lemma encoded_len_cases: "encoded_len r = (if r_kind r = Delta then 30 else 22)"
  by (simp add: encoded_len_def LOG_RECORD_BASE_SIZE_def)

text \<open>A fragment shorter than the fixed part of a record is taken for the end of the log.\<close>

lemma short_fragment: "j < LOG_RECORD_BASE_SIZE \<Longrightarrow> read_from (take j (write_to r)) = Inr None"
  by (simp add: read_from_def read_exact_def encoded_len_cases LOG_RECORD_BASE_SIZE_def)

text \<open>A fragment that ends inside the base key is an error.\<close>

lemma long_fragment:
  assumes "LOG_RECORD_BASE_SIZE \<le> j" "j < encoded_len r"
  shows "read_from (take j (write_to r)) = Inl (IoErr UnexpectedEof)" "r_kind r = Delta"
proof -
  show delta: "r_kind r = Delta"
    using assms by (auto simp: encoded_len_cases LOG_RECORD_BASE_SIZE_def split: if_splits)
  have j: "22 \<le> j" "j < 30" using assms by (simp_all add: encoded_len_cases LOG_RECORD_BASE_SIZE_def delta)
  have "take 22 (take j (write_to r)) = take 22 (write_to r)" using j by (simp add: min_absorb1)
  moreover have "from_u8 (write_to r ! 8) = Inr Delta" by (simp add: codec delta nth_append from_u8_Inr_iff)
  moreover have "length (take j (write_to r)) = j" using j by (simp add: encoded_len_cases delta)
  ultimately show "read_from (take j (write_to r)) = Inl (IoErr UnexpectedEof)"
    using j by (simp add: read_from_def read_exact_def LOG_RECORD_BASE_SIZE_def Let_def)
qed

lemma read_records_prefix:
  assumes "\<forall>x \<in> set xs. log_record_ok x"
  shows "read_records (encode_log xs @ s) = rbind (read_records s) (\<lambda>rs. Inr (xs @ rs))"
  using assms
proof (induction xs)
  case Nil
  then show ?case by (cases "read_records s") simp_all
next
  case (Cons x xs)
  have "read_from (encode_log (x # xs) @ s) = Inr (Some (x, encode_log xs @ s))"
    using Cons.prems by (simp add: encode_log_def read_from_write_to)
  with Cons show ?case by (cases "read_records s") (simp_all add: read_records.simps [of "encode_log (x # xs) @ s"])
qed

lemma read_log_prefix:
  assumes "\<forall>x \<in> set xs. log_record_ok x"
  shows "read_log_records (log_file m xs @ s) = rbind (read_records s) (\<lambda>rs. Inr (xs @ rs))"
  using read_records_prefix [OF assms] by (simp add: read_log_records_def log_file_def)

lemma read_torn_log:
  assumes "\<forall>x \<in> set xs. log_record_ok x" "j < encoded_len r"
  shows "read_log_records (log_file m xs @ take j (write_to r)) =
    (if j < LOG_RECORD_BASE_SIZE then Inr xs else Inl (IoErr UnexpectedEof))"
  unfolding read_log_prefix [OF assms(1)]
  using short_fragment [of j r] long_fragment(1) [of j r] assms(2)
  by (simp add: read_records.simps [of "take j (write_to r)"])

section \<open>Queries see the records, not the bytes\<close>

abbreviation log_store :: "bytes \<Rightarrow> blobs \<Rightarrow> page_store" where
  "log_store l bl \<equiv> \<lparr>ps_source = AppendOnlySource l None, ps_blobs = bl, ps_mode = AppendOnly\<rparr>"

lemma same_records_resolve:
  assumes "read_log_records l = read_log_records l'"
  shows "resolve_cached cpu zd (log_store l bl) c rec out = resolve_cached cpu zd (log_store l' bl) c rec out"
proof -
  have base: "lookup_base (log_store l bl) k = lookup_base (log_store l' bl) k" for k
    using assms by (simp add: lookup_base_def exact_lookup_def ensure_lazy_index_def build_lazy_index_def)
  have blob: "decompress_blob_into zd (log_store l bl) r o' = decompress_blob_into zd (log_store l' bl) r o'" for r o'
    by (simp add: decompress_blob_into_def)
  have delta: "delta_blob_of (log_store l bl) rec = delta_blob_of (log_store l' bl) rec"
    by (simp add: delta_blob_of_def)
  show ?thesis unfolding resolve_cached_def load_full_cached_def base blob delta by (rule refl)
qed

lemma same_records_load:
  assumes "read_log_records l = read_log_records l'"
  shows "fst (load_page cpu zd \<lparr>bd_store = log_store l bl, bd_cache = None\<rparr> out pa s) =
    fst (load_page cpu zd \<lparr>bd_store = log_store l' bl, bd_cache = None\<rparr> out pa s)"
proof -
  have "store_floor (log_store l bl) pa s = store_floor (log_store l' bl) pa s"
    using assms by (simp add: store_floor_def ensure_lazy_index_def build_lazy_index_def)
  then show ?thesis
    by (simp add: load_page_def same_records_resolve [OF assms] split: sum.split option.split prod.split)
qed

lemma read_log_session:
  assumes "dd_index dir = None" "dd_log dir = Some (log_file m xs @ s)"
  shows "read_session cpu zd dir out pa snap =
    fst (load_page cpu zd \<lparr>bd_store = log_store (log_file m xs @ s) (dd_blobs dir), bd_cache = None\<rparr> out pa snap)"
proof -
  have "read_and_verify_header (log_file m xs @ s) MAGIC_LOG = Inr (m, encode_log xs @ s)"
    unfolding log_file_def append_assoc by (rule read_log_header)
  then have "page_store_open dir = Inr (log_store (log_file m xs @ s) (dd_blobs dir))"
    using assms by (simp add: page_store_open_def verify_log_header_def)
  then show ?thesis by (simp add: read_session_def btree_db_open_def DISABLE_SHARED_CACHE_def case_prod_unfold)
qed

text \<open>Two logs with the same records answer alike, whatever bytes follow the records.\<close>

lemma same_records_session:
  assumes "dd_index dir = None" "dd_log dir = Some (log_file m xs @ s)"
    and "read_log_records (log_file m xs @ s) = read_log_records (log_file m' ys @ s')"
  shows "read_session cpu zd dir out pa snap = read_session cpu zd (dir\<lparr>dd_log := Some (log_file m' ys @ s')\<rparr>) out pa snap"
  using read_log_session [OF assms(1,2)] read_log_session [of "dir\<lparr>dd_log := Some (log_file m' ys @ s')\<rparr>" m' ys s']
    same_records_load [OF assms(3)] assms(1) by simp

lemma undecodable_session:
  assumes "dd_index dir = None" "dd_log dir = Some (log_file m xs @ s)" "read_log_records (log_file m xs @ s) = Inl e"
    and "snap \<le> MAX_SNAPSHOT_ID"
  shows "read_session cpu zd dir out pa snap = Inl e"
proof -
  have "\<not> MAX_SNAPSHOT_ID < snap" using assms(4) by simp
  then show ?thesis unfolding read_log_session [OF assms(1,2)] using assms(3)
    by (simp add: load_page_def store_floor_def ensure_lazy_index_def build_lazy_index_def)
qed

section \<open>Appending behind a fragment\<close>

text \<open>
  The fragment and the first bytes of the next record make one record, with the key and the
  kind of the fragment's; the bytes that are left are too few for another.
\<close>

lemma merged_record:
  assumes "9 \<le> j" "j < LOG_RECORD_BASE_SIZE" "r_kind r \<noteq> Delta" "r_kind r' \<noteq> Delta"
  obtains g where "read_records (take j (write_to r) @ write_to r') = Inr [g]"
    "r_key g = r_key r" "r_kind g = r_kind r" "log_record_ok g"
proof -
  let ?s = "take j (write_to r) @ write_to r'"
  have len: "length (write_to r) = 22" "length (write_to r') = 22" using assms(3,4) by (simp_all add: encoded_len_cases)
  have j: "j < 22" using assms(2) by (simp add: LOG_RECORD_BASE_SIZE_def)
  have long: "22 \<le> length ?s" using len by simp
  have head: "take 9 ?s = take 9 (write_to r)" using assms(1) j len by (simp add: min_absorb1)
  have "rslice 0 8 (take 22 ?s) = take 8 (take 9 ?s)" by (simp add: rslice_def del: take_append)
  also have "\<dots> = to_le 8 (r_key r)" unfolding head by (simp add: codec)
  finally have key: "rslice 0 8 (take 22 ?s) = to_le 8 (r_key r)" .
  have "take 22 ?s ! 8 = take 9 ?s ! 8" by (simp del: take_append)
  also have "\<dots> = as_u8 (r_kind r)" unfolding head by (simp add: codec nth_append)
  finally have kind: "take 22 ?s ! 8 = as_u8 (r_kind r)" .
  obtain g where g: "read_from ?s = Inr (Some (g, drop 22 ?s))" "r_key g = r_key r" "r_kind g = r_kind r" "r_base_key g = 0"
    using long key kind assms(3)
    by (simp add: read_from_def read_exact_def LOG_RECORD_BASE_SIZE_def Let_def from_le_to_le del: take_append drop_append length_append)
  have "length (drop 22 ?s) < LOG_RECORD_BASE_SIZE" using j len by (simp add: LOG_RECORD_BASE_SIZE_def)
  then have "read_records (drop 22 ?s) = Inr []"
    by (simp add: read_records.simps [of "drop 22 ?s"] read_from_eof del: drop_append)
  with g(1) have "read_records ?s = Inr [g]" by (simp add: read_records.simps [of ?s])
  with g show thesis using that by (simp add: log_record_ok_def)
qed

text \<open>The task of one page, when no base is known: a zero or a full record, never an error.\<close>

lemma fresh_job:
  assumes "length page = PAGE_SIZE" "get_range mem (unat pa * PAGE_SIZE) (unat pa * PAGE_SIZE + PAGE_SIZE) = Some page"
    and "zstd_ok zc zd" "shadow_get (js_shadow st) pa = None"
  obtains rec st' where "run_job zc db mem s st (0, pa) = (Inr (), st')" "js_buf st' = (js_buf st)(0 \<mapsto> rec)"
    "r_kind rec \<noteq> Delta" "r_key rec = encode_key pa s"
proof (cases "is_all_zero page")
  case True
  with assms(2) have "\<exists>st'. run_job zc db mem s st (0, pa) = (Inr (), st') \<and> js_buf st' = (js_buf st)(0 \<mapsto> new_zero (encode_key pa s))"
    by (simp add: run_job_def process_one_def Let_def)
  then show thesis using that by (fastforce simp: new_zero_def)
next
  case False
  obtain z where z: "zc page = Some z" "length z \<le> COMPRESS_CAP" using assms(1,3) by (auto simp: zstd_ok_def)
  then have "length z < 2 ^ 32" by (simp add: COMPRESS_CAP_def DEFAULT_BUF_def)
  with z False assms(2,4) have "\<exists>st' wid off. run_job zc db mem s st (0, pa) = (Inr (), st') \<and>
      js_buf st' = (js_buf st)(0 \<mapsto> new_full (encode_key pa s) wid off (of_nat (length z)))"
    by (simp add: run_job_def process_one_def write_full_def compress_to_buffer_def append_blob_def Let_def) blast
  then show thesis using that by (fastforce simp: new_full_def)
qed

text \<open>A session that saves one page behind whatever bytes the log ends with.\<close>

lemma one_page_session:
  assumes "dd_index dir = None" "dd_log dir = Some (log_file m xs @ frag)" "0 < n" "n \<le> 255"
    and op: "op_fits op" "op_pages op = [pa]" "m < op_snapshot op" and sched: "schedule_ok sched" and zstd: "zstd_ok zc zd"
  obtains dir' rec where "write_session zc n thr use_shadow [(sched, op)] dir = Inr dir'" "dd_index dir' = None"
    "dd_log dir' = Some (log_file (op_snapshot op) xs @ frag @ write_to rec)" "r_kind rec \<noteq> Delta"
    "r_key rec = encode_key pa (op_snapshot op)"
proof -
  let ?s = "op_snapshot op" and ?log = "log_file m xs @ frag"
  let ?w = "\<lparr>bw_file = ?log, bw_pos = length ?log, bw_append = False, bw_buf = [], bw_cap = LOG_BUF\<rparr>"
  have snap: "?s \<le> MAX_SNAPSHOT_ID" using op(1) by (cases op) auto
  have "read_and_verify_header ?log MAGIC_LOG = Inr (m, encode_log xs @ frag)"
    unfolding log_file_def append_assoc by (rule read_log_header)
  moreover have "log_file m xs \<noteq> []" by (auto simp: log_file_def write_log_header_def write_header_eq)
  ultimately obtain db where db: "append_open dir n thr use_shadow = Inr db" "ad_log db = ?w" "ad_last db = Some m"
    "ad_index db = None" "ad_shadow db = shadow_new"
    using assms(1-4) by (simp add: append_open_def Let_def)
  let ?db = "db\<lparr>ad_last := Some ?s\<rparr>"
  have start: "begin_save ?s db = (Inr (), ?db)"
    using op(3) snap by (simp add: begin_save_def db(3) not_less not_le)
  let ?st = "\<lparr>js_shadow = ad_shadow db, js_blobs = ad_blobs db, js_buf = (\<lambda>_. None)\<rparr>"
    and ?page = "rslice (unat pa * PAGE_SIZE) (unat pa * PAGE_SIZE + PAGE_SIZE) (op_mem op)"
  have "unat pa * PAGE_SIZE + PAGE_SIZE \<le> length (op_mem op)" using op_pages_ok(2) [OF op(1)] op(2) by simp
  then have page: "length ?page = PAGE_SIZE"
    "get_range (op_mem op) (unat pa * PAGE_SIZE) (unat pa * PAGE_SIZE + PAGE_SIZE) = Some ?page"
    by (simp_all add: get_range_def rslice_def)
  have empty: "shadow_get (js_shadow ?st) pa = None" using bases.get_empty by (simp add: db(5))
  obtain rec st' where job: "run_job zc ?db (op_mem op) ?s ?st (0, pa) = (Inr (), st')" "js_buf st' = [0 \<mapsto> rec]"
    and rec: "r_kind rec \<noteq> Delta" "r_key rec = encode_key pa ?s"
    by (rule fresh_job [OF page zstd empty, where db = ?db and s = ?s]) auto
  have one: "sched [(0, pa)] = [(0, pa)]"
  proof -
    have "set (sched [(0, pa)]) = {(0, pa)}" "distinct (sched [(0, pa)])" using sched by (auto simp: schedule_ok_def)
    then show ?thesis by (cases "sched [(0, pa)]" rule: remdups_adj.cases) auto
  qed
  let ?db' = "?db\<lparr>ad_shadow := js_shadow st', ad_blobs := js_blobs st', ad_log := update_header ?s (write_all ?w (write_to rec))\<rparr>"
  have "commit_jobs sched zc (op_mem op) ?s 1 [(0, pa)] ?db = (Inr (), ?db')"
    using job by (simp add: commit_jobs_def one db(2) Let_def)
  then have save: "run_saves zc [(sched, op)] db = (Inr (), ?db')"
    using run_save_commit [OF op(1) start, of sched zc] op(2) by simp
  have app: "appending ?w" by (simp add: appending_def LOG_BUF_def)
  have w: "appending (write_all ?w (write_to rec))" "bw_view (write_all ?w (write_to rec)) = ?log @ write_to rec"
    using write_all_appending [OF app, of "write_to rec"] by (simp_all add: bw_view_def)
  have keep: "\<not> bw_append (write_all ?w (write_to rec))"
    by (simp add: write_all_def flush_buf_def raw_write_def Let_def)
  have "9 + length (to_le 4 ?s) \<le> length (?log @ write_to rec)" by (simp add: log_file_def HEADER_SIZE_def)
  note patched = seek_write_seek [OF w(1) keep this [folded w(2)], unfolded w(2)]
  have upd: "bw_file (ad_log ?db') = patch_max_snapshot ?s (?log @ write_to rec)" "bw_buf (ad_log ?db') = []"
    using patched(2,3) by (simp_all add: update_header_def patch_max_snapshot_def)
  have "patch_max_snapshot ?s (?log @ write_to rec) = log_file ?s xs @ frag @ write_to rec"
    by (simp add: patch_max_snapshot_def log_file_def write_log_header_def write_header_eq copy_at_def)
  with upd have "dd_log (dir_of (append_flush ?db')) = Some (log_file ?s xs @ frag @ write_to rec)"
    by (simp add: dir_of_def append_flush_def flush_buf_def)
  moreover have "dd_index (dir_of (append_flush ?db')) = None" using db(4) by (simp add: dir_of_def append_flush_def)
  ultimately show thesis using that rec db(1) save by (simp add: write_session_def)
qed

section \<open>Properties\<close>

text \<open>C25: A writer does not cut off such a fragment, and the page saved next is lost. After a
  full or zero record was torn behind its kind byte at the end of a log without an index, a
  session (1 to 255 workers, any threshold) whose one save, with a snapshot above the one in
  the header, is of one page (full or by bitmap, any content) reports success, but the record
  it writes is read as the rest of the fragment: the log then holds the old records and one with the key and kind of the torn record, none
  with the key of the page saved, and every query answers accordingly. (The snapshot in the
  header is at least that of every record, and the torn record was not of the page and
  snapshot saved.)\<close>

theorem torn_record_swallows_save:
  assumes "dd_index dir = None" "dd_log dir = Some (log_file m xs @ take j (write_to r))" "\<forall>x \<in> set xs. log_record_ok x"
    and "9 \<le> j" "j < LOG_RECORD_BASE_SIZE" "r_kind r \<noteq> Delta"
    and "0 < n" "n \<le> 255" "op_fits op" "op_pages op = [pa]" "m < op_snapshot op" "schedule_ok sched" "zstd_ok zc zd"
    and "\<forall>x \<in> set xs. snapshot_of (r_key x) \<le> m" "r_key r \<noteq> encode_key pa (op_snapshot op)"
  shows "\<exists>dir' log' g. write_session zc n thr use_shadow [(sched, op)] dir = Inr dir' \<and>
    dd_log dir' = Some log' \<and> read_log_records log' = Inr (xs @ [g]) \<and> r_key g = r_key r \<and> r_kind g = r_kind r \<and>
    encode_key pa (op_snapshot op) \<notin> r_key ` set (xs @ [g]) \<and>
    (\<forall>cpu zd out pa snap. read_session cpu zd dir' out pa snap =
       read_session cpu zd (dir'\<lparr>dd_log := Some (log_file (op_snapshot op) (xs @ [g]))\<rparr>) out pa snap)"
proof -
  let ?frag = "take j (write_to r)" and ?s = "op_snapshot op"
  obtain dir' rec where dir': "write_session zc n thr use_shadow [(sched, op)] dir = Inr dir'"
    "dd_index dir' = None" "dd_log dir' = Some (log_file ?s xs @ ?frag @ write_to rec)" "r_kind rec \<noteq> Delta"
    by (rule one_page_session [OF assms(1,2,7-13)])
  obtain g where g: "read_records (?frag @ write_to rec) = Inr [g]" "r_key g = r_key r" "r_kind g = r_kind r" "log_record_ok g"
    by (rule merged_record [OF assms(4-6) dir'(4)])
  have recs: "read_log_records (log_file ?s xs @ ?frag @ write_to rec) = Inr (xs @ [g])"
    using read_log_prefix [OF assms(3), of ?s "?frag @ write_to rec"] g(1) by simp
  moreover have "\<forall>x \<in> set (xs @ [g]). log_record_ok x" using assms(3) g(4) by simp
  ultimately have "read_log_records (log_file ?s xs @ ?frag @ write_to rec) = read_log_records (log_file ?s (xs @ [g]) @ [])"
    by simp
  note same = same_records_session [OF dir'(2,3) this]
  have "?s \<le> MAX_SNAPSHOT_ID" using assms(9) by (cases op) auto
  then have "snapshot_of (encode_key pa ?s) = ?s" by simp
  then have "encode_key pa ?s \<notin> r_key ` set xs" using assms(11,14) by fastforce
  with assms(15) g(2) have "encode_key pa ?s \<notin> r_key ` set (xs @ [g])" by auto
  with dir' recs g(2,3) same show ?thesis by auto
qed

text \<open>A page of bytes 7 saved as page 1, behind a torn zero record of page 1 at an older snapshot.\<close>

theorem torn_record_swallows_save_witness:
  "\<exists>dir' log' g. write_session Some 2 0 True [(rev, SaveDirty (replicate PAGE_SIZE 3 @ replicate PAGE_SIZE 7) [2] 2 5)]
       \<lparr>dd_index = None, dd_log = Some (log_file 3 [new_zero 0] @ take 12 (write_to (new_zero (encode_key 1 4)))), dd_blobs = (\<lambda>_. None)\<rparr> = Inr dir' \<and>
     dd_log dir' = Some log' \<and> read_log_records log' = Inr [new_zero 0, g] \<and> r_key g = encode_key 1 4"
proof -
  let ?dir = "\<lparr>dd_index = None, dd_log = Some (log_file 3 [new_zero 0] @ take 12 (write_to (new_zero (encode_key 1 4)))), dd_blobs = (\<lambda>_. None)\<rparr>"
  let ?op = "SaveDirty (replicate PAGE_SIZE 3 @ replicate PAGE_SIZE 7) [2] 2 5"
  have dir: "dd_index ?dir = None" "dd_log ?dir = Some (log_file 3 [new_zero 0] @ take 12 (write_to (new_zero (encode_key 1 4))))"
    by simp_all
  have rec: "\<forall>x \<in> set [new_zero 0]. log_record_ok x" "(9 :: nat) \<le> 12" "12 < LOG_RECORD_BASE_SIZE"
    "r_kind (new_zero (encode_key 1 4)) \<noteq> Delta"
    by (simp_all add: log_record_ok_def new_zero_def LOG_RECORD_BASE_SIZE_def)
  have n: "(0 :: nat) < 2" "(2 :: nat) \<le> 255" by simp_all
  have op: "op_fits ?op" "op_pages ?op = [1]" "3 < op_snapshot ?op"
    by (simp_all add: snapshot_le_max_unat dirty_pages_def PAGE_SIZE_def upt_rec)
  have sched: "schedule_ok (rev :: (nat \<times> u64) list \<Rightarrow> _)" by (simp add: schedule_ok_def)
  have old: "\<forall>x \<in> set [new_zero 0]. snapshot_of (r_key x) \<le> 3" by (simp add: new_zero_def snapshot_of_def)
  have key: "r_key (new_zero (encode_key 1 4)) \<noteq> encode_key 1 (op_snapshot ?op)"
    by (simp add: new_zero_def encode_key_def SNAPSHOT_BITS_def SNAPSHOT_MASK_def)
  have stored: "zstd_ok Some Some" by (simp add: zstd_ok_def COMPRESS_CAP_def DEFAULT_BUF_def PAGE_SIZE_def)
  from torn_record_swallows_save [OF dir rec n op sched stored old key, of 0 True] show ?thesis
    by (auto simp: new_zero_def)
qed

end
