(* ===== verification/Interrupt.thy ===== *)
theory Interrupt
  imports Purge
begin

text \<open>
  A purge as the sequence of changes it makes to the directory, in the order of the hash map
  of the blob files to cut and of the listing of \<open>blobs/\<close>: each change is one system call (a
  file is replaced by renaming a finished one), so the states between them are what a purge
  that is killed or stopped by an error leaves behind.
\<close>

section \<open>The changes of a purge\<close>

datatype purge_op = CutBlob byte nat | RemoveBlob byte | RenameIndex bytes | RenameLog bytes

definition purge_ops ::
  "(byte list \<Rightarrow> byte list) \<Rightarrow> (byte list \<Rightarrow> byte list) \<Rightarrow> db_dir \<Rightarrow> u32 \<Rightarrow> (nat \<times> purge_op list) res" where
  "purge_ops map_order dir_order dir snapshot_threshold =
     (case (dd_index dir, dd_log dir) of
        (None, None) \<Rightarrow> Inl (IoErr NotFound)
      | (idx, log) \<Rightarrow>
          rbind (case idx of Some i \<Rightarrow> read_index i | None \<Rightarrow> read_log (the log)) (\<lambda>records.
            let before = length records;
                records = filter (\<lambda>r. snapshot_of (r_key r) \<le> snapshot_threshold) records;
                removed = before - length records
            in if removed = 0 then Inr (0, [])
               else
                 let max_snap = max_snapshot records;
                     ends = worker_max_end records
                 in Inr (removed,
                      map (\<lambda>w. CutBlob w (unat (the (ends w)))) (map_order (filter (\<lambda>w. ends w \<noteq> None) worker_ids)) @
                      map RemoveBlob (filter (\<lambda>w. w \<notin> r_worker_id ` set records)
                        (dir_order (filter (\<lambda>w. dd_blobs dir w \<noteq> None) worker_ids))) @
                      (if idx \<noteq> None then [RenameIndex (write_index_file records max_snap)] else []) @
                      (if log \<noteq> None then [RenameLog (write_log_file records max_snap)] else []))))"

fun exec_op :: "purge_op \<Rightarrow> db_dir \<Rightarrow> unit res \<times> db_dir" where
  "exec_op (CutBlob w n) dir =
     (case dd_blobs dir w of
        None \<Rightarrow> (Inl (IoErr NotFound), dir)
      | Some f \<Rightarrow> (Inr (), dir\<lparr>dd_blobs := (dd_blobs dir)(w \<mapsto> set_len n f)\<rparr>))"
| "exec_op (RemoveBlob w) dir = (Inr (), dir\<lparr>dd_blobs := (dd_blobs dir)(w := None)\<rparr>)"
| "exec_op (RenameIndex f) dir = (Inr (), dir\<lparr>dd_index := Some f\<rparr>)"
| "exec_op (RenameLog f) dir = (Inr (), dir\<lparr>dd_log := Some f\<rparr>)"

fun exec_ops :: "purge_op list \<Rightarrow> db_dir \<Rightarrow> unit res \<times> db_dir" where
  "exec_ops [] dir = (Inr (), dir)"
| "exec_ops (o1 # os) dir =
     (case exec_op o1 dir of (Inl e, dir) \<Rightarrow> (Inl e, dir) | (Inr _, dir) \<Rightarrow> exec_ops os dir)"

lemma exec_ops_append:
  "exec_ops (os @ ps) dir = (case exec_ops os dir of (Inl e, dir) \<Rightarrow> (Inl e, dir) | (Inr _, dir) \<Rightarrow> exec_ops ps dir)"
  by (induction os arbitrary: dir) (simp_all split: prod.split sum.split)

lemma exec_ops_then: "exec_ops os dir = (Inr (), dir') \<Longrightarrow> exec_ops (os @ ps) dir = exec_ops ps dir'"
  by (simp add: exec_ops_append)

lemma all_workers [simp]: "w \<in> set worker_ids"
proof -
  have "unat w < 256" using unsigned_less [of w, where ?'a = nat] by simp
  moreover have "w = of_nat (unat w)" by simp
  ultimately show ?thesis unfolding worker_ids_def set_map set_upt by (metis atLeastLessThan_iff imageI zero_le)
qed

lemma distinct_workers [simp]: "distinct worker_ids"
proof -
  have "inj_on (of_nat :: nat \<Rightarrow> byte) {0..<256}" 
    by (rule inj_on_inverseI [where g = unat]) (simp add: unat_of_nat)
  then show ?thesis by (simp add: worker_ids_def distinct_map)
qed

section \<open>All changes together\<close>

lemma exec_cuts:
  assumes "distinct ws" "\<forall>w \<in> set ws. dd_blobs dir w \<noteq> None"
  shows "exec_ops (map (\<lambda>w. CutBlob w (n w)) ws) dir =
    (Inr (), dir\<lparr>dd_blobs := (\<lambda>w. if w \<in> set ws then map_option (set_len (n w)) (dd_blobs dir w) else dd_blobs dir w)\<rparr>)"
  using assms
proof (induction ws arbitrary: dir)
  case (Cons w ws)
  then obtain f where f: "dd_blobs dir w = Some f" by auto
  let ?dir = "dir\<lparr>dd_blobs := (dd_blobs dir)(w \<mapsto> set_len (n w) f)\<rparr>"
  have "exec_ops (map (\<lambda>w. CutBlob w (n w)) ws) ?dir =
      (Inr (), ?dir\<lparr>dd_blobs := (\<lambda>v. if v \<in> set ws then map_option (set_len (n v)) (dd_blobs ?dir v) else dd_blobs ?dir v)\<rparr>)"
    using Cons by (intro Cons.IH) auto
  moreover have "(\<lambda>v. if v \<in> set ws then map_option (set_len (n v)) (dd_blobs ?dir v) else dd_blobs ?dir v) =
      (\<lambda>v. if v \<in> set (w # ws) then map_option (set_len (n v)) (dd_blobs dir v) else dd_blobs dir v)"
    using Cons.prems(1) f by auto
  ultimately show ?case using f by simp
qed simp

lemma cuts_fail:
  assumes "\<exists>w \<in> set ws. dd_blobs dir w = None"
  shows "\<exists>dir'. exec_ops (map (\<lambda>w. CutBlob w (n w)) ws) dir = (Inl (IoErr NotFound), dir')"
  using assms
proof (induction ws arbitrary: dir)
  case (Cons w ws)
  show ?case
  proof (cases "dd_blobs dir w")
    case (Some f)
    from Cons.prems obtain v where v: "v \<in> set (w # ws)" "dd_blobs dir v = None" by blast
    with Some have "v \<in> set ws" "v \<noteq> w" by auto
    note v = this v(2)
    then have "\<exists>v \<in> set ws. dd_blobs (dir\<lparr>dd_blobs := (dd_blobs dir)(w \<mapsto> set_len (n w) f)\<rparr>) v = None" by auto
    from Cons.IH [OF this] Some show ?thesis by simp
  qed simp
qed simp

lemma exec_removes:
  "exec_ops (map RemoveBlob ws) dir =
     (Inr (), dir\<lparr>dd_blobs := (\<lambda>w. if w \<in> set ws then None else dd_blobs dir w)\<rparr>)"
proof (induction ws arbitrary: dir)
  case (Cons w ws)
  let ?dir = "dir\<lparr>dd_blobs := (dd_blobs dir)(w := None)\<rparr>"
  have "(\<lambda>v. if v \<in> set ws then None else dd_blobs ?dir v) =
      (\<lambda>v. if v \<in> set (w # ws) then None else dd_blobs dir v)" by auto
  with Cons [of ?dir] show ?case by simp
qed simp

lemma exec_removes_at:
  "exec_ops (map RemoveBlob ws) (dir\<lparr>dd_blobs := bl\<rparr>) = (Inr (), dir\<lparr>dd_blobs := (\<lambda>w. if w \<in> set ws then None else bl w)\<rparr>)"
  by (simp add: exec_removes cong: if_cong)

lemma exec_renames:
  "exec_ops ((if dd_index dir \<noteq> None then [RenameIndex f] else []) @ (if dd_log dir \<noteq> None then [RenameLog g] else [])) dir =
     (Inr (), \<lparr>dd_index = map_option (\<lambda>_. f) (dd_index dir), dd_log = map_option (\<lambda>_. g) (dd_log dir), dd_blobs = dd_blobs dir\<rparr>)"
  by (cases dir) auto

text \<open>Run to the end, in any orders, the changes are the purge.\<close>

lemma steps_are_purge:
  assumes "schedule_ok map_order" "schedule_ok dir_order"
  shows "purge dir t = rbind (purge_ops map_order dir_order dir t) (\<lambda>(removed, os).
    case exec_ops os dir of (Inl e, _) \<Rightarrow> Inl e | (Inr _, dir') \<Rightarrow> Inr (removed, dir'))"
proof (cases "dd_index dir = None \<and> dd_log dir = None")
  case True
  then show ?thesis by (simp add: purge_def purge_ops_def)
next
  case files: False
  let ?read = "case dd_index dir of Some i \<Rightarrow> read_index i | None \<Rightarrow> read_log (the (dd_log dir))"
  show ?thesis
  proof (cases ?read)
    case (Inl e)
    with files show ?thesis
      by (cases "dd_index dir"; cases "dd_log dir") (simp_all add: purge_def purge_ops_def)
  next
    case (Inr records)
    let ?ks = "filter (\<lambda>r. snapshot_of (r_key r) \<le> t) records"
    let ?n = "length records - length ?ks" and ?ends = "worker_max_end ?ks"
    let ?cut = "map_order (filter (\<lambda>w. ?ends w \<noteq> None) worker_ids)"
    let ?gone = "filter (\<lambda>w. w \<notin> r_worker_id ` set ?ks) (dir_order (filter (\<lambda>w. dd_blobs dir w \<noteq> None) worker_ids))"
    let ?files = "(if dd_index dir \<noteq> None then [RenameIndex (write_index_file ?ks (max_snapshot ?ks))] else []) @
      (if dd_log dir \<noteq> None then [RenameLog (write_log_file ?ks (max_snapshot ?ks))] else [])"
    have cut: "set ?cut = {w. ?ends w \<noteq> None}" "distinct ?cut"
      using assms(1) unfolding schedule_ok_def by (simp_all add: distinct_filter)
    have gone: "set ?gone = {w. dd_blobs dir w \<noteq> None \<and> w \<notin> r_worker_id ` set ?ks}"
      using assms(2) unfolding schedule_ok_def by auto
    have ops: "purge_ops map_order dir_order dir t = (if ?n = 0 then Inr (0, []) else
        Inr (?n, map (\<lambda>w. CutBlob w (unat (the (?ends w)))) ?cut @ map RemoveBlob ?gone @ ?files))"
      using files Inr by (cases "dd_index dir"; cases "dd_log dir") (simp_all add: purge_ops_def Let_def)
    have whole: "purge dir t = (if ?n = 0 then Inr (0, dir) else rbind (truncate_blobs (dd_blobs dir) ?ks) (\<lambda>bl.
        Inr (?n, \<lparr>dd_index = map_option (\<lambda>_. write_index_file ?ks (max_snapshot ?ks)) (dd_index dir),
          dd_log = map_option (\<lambda>_. write_log_file ?ks (max_snapshot ?ks)) (dd_log dir),
          dd_blobs = cleanup_unused_blob_files bl ?ks\<rparr>)))"
      using files Inr by (cases "dd_index dir"; cases "dd_log dir") (simp_all add: purge_def Let_def)
    show ?thesis
    proof (cases "?n = 0")
      case True
      with ops whole show ?thesis by simp
    next
      case some: False
      show ?thesis
      proof (cases "\<exists>w \<in> set ?cut. dd_blobs dir w = None")
        case True
        then obtain dir' where "exec_ops (map (\<lambda>w. CutBlob w (unat (the (?ends w)))) ?cut) dir = (Inl (IoErr NotFound), dir')"
          using cuts_fail [of ?cut dir "\<lambda>w. unat (the (?ends w))"] by blast
        moreover have "truncate_blobs (dd_blobs dir) ?ks = Inl (IoErr NotFound)"
          using True cut(1) by (auto simp: truncate_blobs_def Let_def)
        ultimately show ?thesis using some ops whole by (simp add: exec_ops_append)
      next
        case False
        let ?bl = "\<lambda>w. if w \<in> set ?cut then map_option (set_len (unat (the (?ends w)))) (dd_blobs dir w) else dd_blobs dir w"
        let ?bl' = "\<lambda>w. case ?ends w of None \<Rightarrow> dd_blobs dir w | Some n \<Rightarrow> map_option (set_len (unat n)) (dd_blobs dir w)"
        have trunc: "truncate_blobs (dd_blobs dir) ?ks = Inr ?bl'"
          using False cut(1) by (auto simp: truncate_blobs_def Let_def)
        have left: "(\<lambda>w. if w \<in> set ?gone then None else ?bl w) = cleanup_unused_blob_files ?bl' ?ks"
          unfolding gone cut(1) by (auto simp: cleanup_unused_blob_files_def fun_eq_iff split: option.split)
        have cuts: "exec_ops (map (\<lambda>w. CutBlob w (unat (the (?ends w)))) ?cut) dir = (Inr (), dir\<lparr>dd_blobs := ?bl\<rparr>)"
          using False by (intro exec_cuts cut(2)) auto
        have gone: "exec_ops (map RemoveBlob ?gone) (dir\<lparr>dd_blobs := ?bl\<rparr>) =
            (Inr (), dir\<lparr>dd_blobs := cleanup_unused_blob_files ?bl' ?ks\<rparr>)"
          unfolding left [symmetric] by (rule exec_removes_at)
        have files: "exec_ops ?files (dir\<lparr>dd_blobs := cleanup_unused_blob_files ?bl' ?ks\<rparr>) = (Inr (),
            \<lparr>dd_index = map_option (\<lambda>_. write_index_file ?ks (max_snapshot ?ks)) (dd_index dir),
             dd_log = map_option (\<lambda>_. write_log_file ?ks (max_snapshot ?ks)) (dd_log dir),
             dd_blobs = cleanup_unused_blob_files ?bl' ?ks\<rparr>)"
          using exec_renames [of "dir\<lparr>dd_blobs := cleanup_unused_blob_files ?bl' ?ks\<rparr>"] by simp
        show ?thesis unfolding ops whole using some
          by (simp only: if_False rbind_simps prod.case exec_ops_then [OF cuts] exec_ops_then [OF gone] files trunc sum.case)
      qed
    qed
  qed
qed

section \<open>The states in between\<close>

text \<open>
  The blob files on the way: each is as it was, cut after its last kept chunk, or, when no kept
  record names its worker, removed.
\<close>

definition between :: "blobs \<Rightarrow> chunk_record list \<Rightarrow> blobs \<Rightarrow> bool" where
  "between bl ks bl' \<longleftrightarrow>
     (\<forall>w. bl' w = bl w \<or>
        (\<exists>n. worker_max_end ks w = Some n \<and> bl' w = map_option (set_len (unat n)) (bl w)) \<or>
        (w \<notin> r_worker_id ` set ks \<and> bl' w = None))"

definition blob_op :: "chunk_record list \<Rightarrow> purge_op \<Rightarrow> bool" where
  "blob_op ks o1 \<longleftrightarrow>
     (\<exists>w n. o1 = CutBlob w (unat n) \<and> worker_max_end ks w = Some n) \<or> (\<exists>w. o1 = RemoveBlob w \<and> w \<notin> r_worker_id ` set ks)"

lemma set_len_twice [simp]: "set_len n (set_len n f) = set_len n f"
  by (simp add: set_len_def)

lemma between_update:
  assumes "between bl ks bl'"
    and "(\<exists>n. worker_max_end ks w = Some n \<and> x = map_option (set_len (unat n)) (bl w)) \<or> (w \<notin> r_worker_id ` set ks \<and> x = None)"
  shows "between bl ks (bl'(w := x))"
  unfolding between_def
proof
  fix v
  show "(bl'(w := x)) v = bl v \<or>
      (\<exists>n. worker_max_end ks v = Some n \<and> (bl'(w := x)) v = map_option (set_len (unat n)) (bl v)) \<or>
      (v \<notin> r_worker_id ` set ks \<and> (bl'(w := x)) v = None)"
    using assms(1) [unfolded between_def, rule_format, of v] assms(2) by (cases "v = w") simp_all
qed

lemma exec_blob_op:
  assumes "blob_op ks o1" "between bl ks (dd_blobs dir)" "exec_op o1 dir = (r, dir')"
  shows "between bl ks (dd_blobs dir') \<and> dd_log dir' = dd_log dir \<and> dd_index dir' = dd_index dir"
proof (cases o1)
  case (CutBlob w n)
  then obtain n' where n: "n = unat n'" "worker_max_end ks w = Some n'" using assms(1) by (auto simp: blob_op_def)
  show ?thesis
  proof (cases "dd_blobs dir w")
    case None
    with assms(2,3) CutBlob show ?thesis by simp
  next
    case (Some f)
    have "bl w = Some f \<or> map_option (set_len n) (bl w) = Some f"
      using assms(2) Some n unfolding between_def by (metis option.distinct(1) option.inject)
    then have "Some (set_len n f) = map_option (set_len n) (bl w)" by (cases "bl w") auto
    then have dir': "dir' = dir\<lparr>dd_blobs := (dd_blobs dir)(w := map_option (set_len n) (bl w))\<rparr>"
      using assms(3) CutBlob Some by simp
    have "between bl ks (dd_blobs dir')"
      using between_update [OF assms(2)] n by (auto simp: dir')
    then show ?thesis by (simp add: dir')
  qed
next
  case (RemoveBlob w)
  with assms(1,3) between_update [OF assms(2), of w None] show ?thesis by (auto simp: blob_op_def)
qed (use assms(1) in \<open>auto simp: blob_op_def\<close>)

lemma exec_blob_ops:
  assumes "\<forall>o1 \<in> set os. blob_op ks o1" "between bl ks (dd_blobs dir)"
  shows "between bl ks (dd_blobs (snd (exec_ops os dir))) \<and> dd_log (snd (exec_ops os dir)) = dd_log dir \<and>
    dd_index (snd (exec_ops os dir)) = dd_index dir"
  using assms
proof (induction os arbitrary: dir)
  case (Cons o1 os)
  obtain r dir' where e: "exec_op o1 dir = (r, dir')" by fastforce
  have d: "between bl ks (dd_blobs dir')" "dd_log dir' = dd_log dir" "dd_index dir' = dd_index dir"
    using exec_blob_op [OF _ Cons.prems(2) e] Cons.prems(1) by simp_all
  show ?case
  proof (cases r)
    case (Inl f)
    with e d show ?thesis by simp
  next
    case (Inr u)
    with e d Cons.IH [of dir'] Cons.prems(1) show ?thesis by simp
  qed
qed simp

text \<open>Purging the blob files again from such a state gives the same files.\<close>

lemma between_purged:
  assumes "between bl ks bl'"
  shows "purged_blobs bl' ks = purged_blobs bl ks"
proof
  fix w
  have "\<exists>r \<in> set ks. r_worker_id r = w" if "worker_max_end ks w = Some n" for n
    using worker_max_end_from [OF that] by blast
  then show "purged_blobs bl' ks w = purged_blobs bl ks w"
    using assms [unfolded between_def, rule_format, of w]
    by (auto simp: purged_blobs_def cleanup_unused_blob_files_def option.map_comp comp_def split: option.split)
qed

text \<open>What the kept records refer to is still there.\<close>

lemma between_grow:
  assumes "between bl ks bl'" "\<And>w n f. worker_max_end ks w = Some n \<Longrightarrow> bl w = Some f \<Longrightarrow> unat n \<le> length f"
  shows "blobs_grow (purged_blobs bl ks) bl'"
  unfolding blobs_grow_def
proof (intro allI impI)
  fix w f
  assume p: "purged_blobs bl ks w = Some f"
  then have used: "w \<in> r_worker_id ` set ks" by (auto simp: purged_blobs_def cleanup_unused_blob_files_def split: if_splits)
  show "\<exists>g. bl' w = Some (f @ g)"
  proof (cases "worker_max_end ks w")
    case None
    with p used assms(1) [unfolded between_def, rule_format, of w] show ?thesis
      by (auto simp: purged_blobs_def cleanup_unused_blob_files_def)
  next
    case (Some n)
    with p used obtain f' where f': "bl w = Some f'" "f = set_len (unat n) f'"
      by (auto simp: purged_blobs_def cleanup_unused_blob_files_def)
    then have "f = take (unat n) f'" using assms(2) [OF Some f'(1)] by (simp add: set_len_def)
    then have "f' = f @ drop (unat n) f'" by simp
    with Some used f' assms(1) [unfolded between_def, rule_format, of w] show ?thesis by auto
  qed
qed

text \<open>The cut of a blob file is the end of a kept chunk, so it never makes the file longer.\<close>

lemma worker_max_end_attained:
  "worker_max_end ks w = Some n \<Longrightarrow>
     \<exists>r \<in> set ks. r_kind r \<noteq> Zero \<and> r_worker_id r = w \<and> n = r_offset r + ucast (r_len r)"
proof -
  have "foldl note_end m ks w = Some n \<Longrightarrow> m w = Some n \<or>
      (\<exists>r \<in> set ks. r_kind r \<noteq> Zero \<and> r_worker_id r = w \<and> n = r_offset r + ucast (r_len r))" for m
  proof (induction ks arbitrary: m)
    case (Cons r ks)
    from Cons.IH [of "note_end m r"] Cons.prems
    have "note_end m r w = Some n \<or> (\<exists>r \<in> set ks. r_kind r \<noteq> Zero \<and> r_worker_id r = w \<and> n = r_offset r + ucast (r_len r))"
      by simp
    then show ?case
      by (auto simp: note_end_def Let_def max_def split: if_splits option.splits)
  qed simp
  from this [of "\<lambda>_. None"] show "worker_max_end ks w = Some n \<Longrightarrow> ?thesis" by (simp add: worker_max_end_def)
qed

lemma cut_inside:
  assumes "hist_match zd bl rs h" "set ks \<subseteq> set rs" "worker_max_end ks w = Some n" "bl w = Some f"
  shows "unat n \<le> length f"
proof -
  obtain r where r: "r \<in> set ks" "r_kind r \<noteq> Zero" "r_worker_id r = w" "n = r_offset r + ucast (r_len r)"
    using worker_max_end_attained [OF assms(3)] by blast
  obtain s m pa p where "rec_ok zd bl (set rs) s pa p r"
    by (rule hist_match_recE [OF assms(1)]) (use r(1) assms(2) in auto)
  then obtain z where "blob_range bl r = Some z"
    using r(2) by (auto simp: rec_ok_def chunk_at_def full_at_def split: chunk_kind.splits)
  then have "unat (r_offset r) + unat (r_len r) < 2 ^ 64" "unat (r_offset r) + unat (r_len r) \<le> length f"
    using assms(4) r(3) by (auto simp: blob_range_def get_range_def split: if_splits)
  then show ?thesis by (simp add: r(4) unat_word_ariths)
qed

text \<open>A log whose blob files are in such a state still gives every page up to the threshold.\<close>

lemma between_reads:
  assumes "dir_inv zd h dir" "dd_index dir = None" "dd_log dir = Some (log_file hdr rs)" "hist_match zd (dd_blobs dir) rs h"
    and ks: "set ks = {r \<in> set rs. snapshot_of (r_key r) \<le> t}" "distinct (map r_key ks)"
    and mid: "between (dd_blobs dir) ks bl'" and s: "s \<le> t" "s \<le> MAX_SNAPSHOT_ID" "length out = PAGE_SIZE"
  shows "read_session cpu zd (dir\<lparr>dd_blobs := bl'\<rparr>) out pa s = Inr (abs_read h pa s)"
proof -
  let ?mid = "dir\<lparr>dd_blobs := bl'\<rparr>" and ?pb = "purged_blobs (dd_blobs dir) ks"
  have hok: "history_ok h" using assms(1) by (auto simp: dir_inv_def)
  have logs: "\<forall>r \<in> set rs. log_record_ok r" using hist_match_log_ok [OF assms(4)] by blast
  obtain st where st: "page_store_open ?mid = Inr st" "store_ok st" "store_records st = canon r_key rs" "ps_blobs st = bl'"
    by (rule open_log_store [of ?mid hdr rs]) (use assms(2,3) logs in auto)
  have set: "set (store_records st) = set rs"
    using assms(4) st(3) by (simp add: hist_match_def set_canon_distinct)
  have grow: "blobs_grow ?pb bl'"
    by (rule between_grow [OF mid]) (rule cut_inside [OF assms(4)], use ks(1) in auto)
  let ?hk = "filter (\<lambda>(s, m). s \<le> t) h"
  have kept: "hist_match zd bl' ks ?hk" by (rule hist_match_grow [OF purge_hist_match [OF assms(4) hok ks] grow])
  have "read_page zd st pa s = Inr (abs_read ?hk pa s)"
    by (rule read_page_upto [OF st(2) _ _ history_ok_filter [OF hok] _ s(2)])
      (use kept set st(4) ks(1) s(1) in auto)
  also have "abs_read ?hk pa s = abs_read h pa s" using s(1) by (simp add: abs_read_purged min_def)
  finally show ?thesis using read_session_eq [OF st(1,2) s(3)] by simp
qed

section \<open>Interrupted and repeated\<close>

lemma purge_log_eq:
  fixes t :: u32
  assumes "dd_index dir = None" "dd_log dir = Some log" "read_log log = Inr cs"
    and blobs: "\<And>r. r \<in> set cs \<Longrightarrow> snapshot_of (r_key r) \<le> t \<Longrightarrow> r_kind r \<noteq> Zero \<Longrightarrow> dd_blobs dir (r_worker_id r) \<noteq> None"
  defines "ks \<equiv> filter (\<lambda>r. snapshot_of (r_key r) \<le> t) cs"
  shows "purge dir t = (if length cs - length ks = 0 then Inr (0, dir) else Inr (length cs - length ks,
      \<lparr>dd_index = None, dd_log = Some (write_log_file ks (max_snapshot ks)), dd_blobs = purged_blobs (dd_blobs dir) ks\<rparr>))"
proof -
  have "\<And>r. r \<in> set ks \<Longrightarrow> r_kind r \<noteq> Zero \<Longrightarrow> dd_blobs dir (r_worker_id r) \<noteq> None" using blobs by (simp add: ks_def)
  then obtain bl' where "truncate_blobs (dd_blobs dir) ks = Inr bl'" "cleanup_unused_blob_files bl' ks = purged_blobs (dd_blobs dir) ks"
    using truncate_purged by blast
  with assms(1-3) show ?thesis by (simp add: purge_def Let_def ks_def)
qed

lemma purge_log_ops:
  assumes "schedule_ok map_order" "dd_index dir = None" "dd_log dir = Some log" "read_log log = Inr cs"
    and "length cs - length (filter (\<lambda>r. snapshot_of (r_key r) \<le> t) cs) \<noteq> 0"
  defines "ks \<equiv> filter (\<lambda>r. snapshot_of (r_key r) \<le> (t :: u32)) cs"
  shows "\<exists>os. purge_ops map_order dir_order dir t =
      Inr (length cs - length ks, os @ [RenameLog (write_log_file ks (max_snapshot ks))]) \<and> (\<forall>o1 \<in> set os. blob_op ks o1)"
proof -
  let ?cuts = "map_order (filter (\<lambda>w. worker_max_end ks w \<noteq> None) worker_ids)"
  let ?gone = "filter (\<lambda>w. w \<notin> r_worker_id ` set ks) (dir_order (filter (\<lambda>w. dd_blobs dir w \<noteq> None) worker_ids))"
  let ?os = "map (\<lambda>w. CutBlob w (unat (the (worker_max_end ks w)))) ?cuts @ map RemoveBlob ?gone"
  have "set ?cuts = {w. worker_max_end ks w \<noteq> None}"
    using assms(1) unfolding schedule_ok_def by (simp add: distinct_filter)
  then have "\<forall>o1 \<in> set ?os. blob_op ks o1" by (auto simp: blob_op_def)
  moreover have "purge_ops map_order dir_order dir t =
      Inr (length cs - length ks, ?os @ [RenameLog (write_log_file ks (max_snapshot ks))])"
    using assms(2-5) unfolding ks_def by (simp add: purge_ops_def Let_def)
  ultimately show ?thesis by blast
qed

lemma purged_again:
  assumes "dir_inv zd (filter (\<lambda>(s, m). s \<le> t) h) dir" "dd_index dir = None"
  shows "purge dir t = Inr (0, dir)"
proof -
  obtain hdr rs where log: "dd_log dir = Some (log_file hdr rs)" and hm: "hist_match zd (dd_blobs dir) rs (filter (\<lambda>(s, m). s \<le> t) h)"
    and hok: "history_ok (filter (\<lambda>(s, m). s \<le> t) h)" using assms(1) by (auto simp: dir_inv_def)
  have "snapshot_of (r_key r) \<le> t" if r: "r \<in> set rs" for r
  proof -
    obtain s m pa p where "(s, m) \<in> set (filter (\<lambda>(s, m). s \<le> t) h)" "m pa = Some p" "rec_ok zd (dd_blobs dir) (set rs) s pa p r"
      by (rule hist_match_recE [OF hm r])
    with history_snapshots [OF hok] show ?thesis by (auto simp: rec_ok_def)
  qed
  moreover have "\<forall>r \<in> set rs. log_record_ok r" using hist_match_log_ok [OF hm] by blast
  then have "read_log (log_file hdr rs) = Inr (canon r_key rs)" by (simp add: read_log_def canon_def)
  moreover have "set (canon r_key rs) = set rs" by (rule set_canon_distinct) (use hm in \<open>simp add: hist_match_def\<close>)
  ultimately have "filter (\<lambda>r. snapshot_of (r_key r) \<le> t) (canon r_key rs) = canon r_key rs" by (intro filter_True) simp
  with assms(2) log \<open>read_log (log_file hdr rs) = Inr (canon r_key rs)\<close> show ?thesis by (simp add: purge_def)
qed

lemma purge_prefix:
  assumes dir: "dir_inv zd h dir" "dd_index dir = None"
    and sched: "schedule_ok map_order" "schedule_ok dir_order"
    and ops: "purge_ops map_order dir_order dir t = Inr (removed, os)"
  shows "\<exists>dir'. purge dir t = Inr (removed, dir') \<and> exec_ops os dir = (Inr (), dir') \<and>
    (let mid = snd (exec_ops (take k os) dir)
     in (\<exists>n. purge mid t = Inr (n, dir')) \<and>
        (\<forall>cpu out pa s. s \<le> t \<longrightarrow> s \<le> MAX_SNAPSHOT_ID \<longrightarrow> length out = PAGE_SIZE \<longrightarrow>
           read_session cpu zd mid out pa s = Inr (abs_read h pa s)))"
proof -
  obtain hdr rs where log: "dd_log dir = Some (log_file hdr rs)" and hm: "hist_match zd (dd_blobs dir) rs h"
    and hok: "history_ok h" using dir(1) by (auto simp: dir_inv_def)
  have "\<forall>r \<in> set rs. log_record_ok r" using hist_match_log_ok [OF hm] by blast
  then have rd: "read_log (log_file hdr rs) = Inr (canon r_key rs)" by (simp add: read_log_def canon_def)
  let ?cs = "canon r_key rs" and ?hk = "filter (\<lambda>(s, m). s \<le> t) h"
  let ?ks = "filter (\<lambda>r. snapshot_of (r_key r) \<le> t) ?cs"
  have cs: "set ?cs = set rs" by (rule set_canon_distinct) (use hm in \<open>simp add: hist_match_def\<close>)
  have ks: "set ?ks = {r \<in> set rs. snapshot_of (r_key r) \<le> t}" "distinct (map r_key ?ks)"
    using cs sorted_canon [of r_key rs] by (auto simp: strict_sorted_iff distinct_map_filter)
  obtain n dir' where p: "purge dir t = Inr (n, dir')" "dir_inv zd ?hk dir'" "dd_index dir' = None"
    using purge_log_inv [OF dir] by blast
  have run: "n = removed" "exec_ops os dir = (Inr (), dir')"
    using steps_are_purge [OF sched, of dir t] p(1) ops by (auto split: prod.splits sum.splits)
  let ?mid = "snd (exec_ops (take k os) dir)"
  have kept: "abs_read ?hk pa s = abs_read h pa s" if "s \<le> t" for pa s using that by (simp add: abs_read_purged min_def)
  have done_case: ?thesis if "?mid = dir'"
    using p run purged_again [OF p(2,3)] read_session_history [OF p(2,3)] that kept
    by (intro exI [of _ dir']) (simp add: Let_def)
  show ?thesis
  proof (cases "length ?cs - length ?ks = 0")
    case True
    then have "os = []" using ops dir(2) log rd by (simp add: purge_ops_def Let_def)
    with run(2) done_case show ?thesis by simp
  next
    case False
    obtain bs where bs: "os = bs @ [RenameLog (write_log_file ?ks (max_snapshot ?ks))]" "\<forall>o1 \<in> set bs. blob_op ?ks o1"
      using purge_log_ops [OF sched(1) dir(2) log rd False, of dir_order] ops by auto
    show ?thesis
    proof (cases "k \<le> length bs")
      case False
      then have "take k os = os" by (simp add: bs(1))
      with run(2) done_case show ?thesis by simp
    next
      case True
      then have take: "take k os = take k bs" by (simp add: bs(1))
      have start: "between (dd_blobs dir) ?ks (dd_blobs dir)" by (simp add: between_def)
      have some: "\<forall>o1 \<in> set (take k bs). blob_op ?ks o1" using bs(2) by (meson in_set_takeD)
      note mid = exec_blob_ops [OF some start, folded take]
      define bl' where "bl' = dd_blobs ?mid"
      have eq: "?mid = dir\<lparr>dd_blobs := bl'\<rparr>" unfolding bl'_def using mid by (cases ?mid; cases dir) simp
      have btw: "between (dd_blobs dir) ?ks bl'" unfolding bl'_def using mid by blast
      have here: "dd_blobs dir (r_worker_id r) \<noteq> None" if "r \<in> set ?cs" "r_kind r \<noteq> Zero" for r
        using hist_match_blob [OF hm _ that(2)] that(1) cs by simp
      have there: "bl' (r_worker_id r) \<noteq> None" if "r \<in> set ?cs" "snapshot_of (r_key r) \<le> t" "r_kind r \<noteq> Zero" for r
        using btw [unfolded between_def, rule_format, of "r_worker_id r"] here [OF that(1,3)] that(1,2) by auto
      have "purge dir t = Inr (length ?cs - length ?ks,
          \<lparr>dd_index = None, dd_log = Some (write_log_file ?ks (max_snapshot ?ks)), dd_blobs = purged_blobs (dd_blobs dir) ?ks\<rparr>)"
        using purge_log_eq [OF dir(2) log rd] here \<open>length ?cs - length ?ks \<noteq> 0\<close> by simp
      moreover have "purge ?mid t = Inr (length ?cs - length ?ks,
          \<lparr>dd_index = None, dd_log = Some (write_log_file ?ks (max_snapshot ?ks)), dd_blobs = purged_blobs bl' ?ks\<rparr>)"
        unfolding eq using purge_log_eq [of "dir\<lparr>dd_blobs := bl'\<rparr>", OF _ _ rd, of t] there dir(2) log \<open>length ?cs - length ?ks \<noteq> 0\<close> by simp
      ultimately have "purge ?mid t = purge dir t" by (simp add: between_purged [OF btw])
      moreover have "read_session cpu zd ?mid out pa s = Inr (abs_read h pa s)"
        if "s \<le> t" "s \<le> MAX_SNAPSHOT_ID" "length out = PAGE_SIZE" for cpu out pa s
        unfolding eq by (rule between_reads [OF dir log hm ks btw that])
      ultimately show ?thesis using p(1) run by (intro exI [of _ dir']) (simp add: Let_def)
    qed
  qed
qed

section \<open>Properties\<close>

text \<open>Where both files are present, a purge stopped between the two renames cannot be finished: the
  next one reads the new index, finds nothing to remove, and leaves the log with all records,
  those whose blobs are gone included.\<close>

theorem purge_between_renames:
  assumes "dd_index dir = Some (index_file m rs)" "dd_log dir = Some log" "\<exists>r \<in> set rs. t < snapshot_of (r_key r)"
    and blobs: "\<And>r. r \<in> set rs \<Longrightarrow> r_kind r \<noteq> Zero \<Longrightarrow> dd_blobs dir (r_worker_id r) \<noteq> None"
    and sched: "schedule_ok map_order" "schedule_ok dir_order"
  shows "\<exists>n os mid. purge_ops map_order dir_order dir t = Inr (n, os) \<and> exec_ops (butlast os) dir = (Inr (), mid) \<and>
    purge mid t = Inr (0, mid) \<and> dd_log mid = Some log"
proof -
  let ?ks = "filter (\<lambda>r. snapshot_of (r_key r) \<le> t) rs"
  let ?idx = "RenameIndex (write_index_file ?ks (max_snapshot ?ks))" and ?log = "RenameLog (write_log_file ?ks (max_snapshot ?ks))"
  have ne: "?ks \<noteq> rs" using assms(3) by (metis filter_id_conv not_le)
  then have len: "length rs - length ?ks \<noteq> 0" using filter_id_conv [of _ rs] length_filter_less [of _ rs] by fastforce
  let ?cuts = "map_order (filter (\<lambda>w. worker_max_end ?ks w \<noteq> None) worker_ids)"
  let ?gone = "filter (\<lambda>w. w \<notin> r_worker_id ` set ?ks) (dir_order (filter (\<lambda>w. dd_blobs dir w \<noteq> None) worker_ids))"
  let ?bs = "map (\<lambda>w. CutBlob w (unat (the (worker_max_end ?ks w)))) ?cuts @ map RemoveBlob ?gone"
  have ops: "purge_ops map_order dir_order dir t = Inr (length rs - length ?ks, ?bs @ [?idx] @ [?log])"
    using assms(1,2) len by (simp add: purge_ops_def read_index_file Let_def)
  have "set ?cuts = {w. worker_max_end ?ks w \<noteq> None}"
    using sched(1) unfolding schedule_ok_def by (simp add: distinct_filter)
  then have blob_ops: "\<forall>o1 \<in> set ?bs. blob_op ?ks o1" by (auto simp: blob_op_def)
  have removed: "length (filter (\<lambda>r. t < snapshot_of (r_key r)) rs) = length rs - length ?ks"
    using sum_length_filter_compl [of "\<lambda>r. snapshot_of (r_key r) \<le> t" rs] by (simp add: not_le)
  obtain dir' where p: "purge dir t = Inr (length rs - length ?ks, dir')" "dd_index dir' = Some (index_file (max_snapshot ?ks) ?ks)"
    "dd_blobs dir' = purged_blobs (dd_blobs dir) ?ks"
    using purge_index_eq [OF assms(1) blobs, of t] ne removed by auto
  have all: "exec_ops (?bs @ [?idx] @ [?log]) dir = (Inr (), dir')"
    using steps_are_purge [OF sched, of dir t] p(1) unfolding ops by (auto split: prod.splits sum.splits)
  obtain r mid where mid: "exec_ops (?bs @ [?idx]) dir = (r, mid)" by fastforce
  with all obtain u where r: "r = Inr u" and last: "dir' = mid\<lparr>dd_log := Some (write_log_file ?ks (max_snapshot ?ks))\<rparr>"
    using exec_ops_append [of "?bs @ [?idx]" "[?log]" dir] by (cases r) auto
  have start: "between (dd_blobs dir) ?ks (dd_blobs dir)" by (simp add: between_def)
  obtain q d where d: "exec_ops ?bs dir = (q, d)" by fastforce
  with mid r obtain v where "q = Inr v" "mid = d\<lparr>dd_index := Some (write_index_file ?ks (max_snapshot ?ks))\<rparr>"
    using exec_ops_append [of ?bs "[?idx]" dir] by (cases q) auto
  then have log: "dd_log mid = Some log" using exec_blob_ops [OF blob_ops start] d assms(2) by simp
  have idx: "dd_index mid = Some (index_file (max_snapshot ?ks) ?ks)" using p(2) last by simp
  have "purge mid t = Inr (0, mid)" using idx by (simp add: purge_def read_index_file split: option.split)
  moreover have "butlast (?bs @ [?idx] @ [?log]) = ?bs @ [?idx]" by (simp add: butlast_append)
  ultimately show ?thesis using ops mid r log by auto
qed

end
