(* ===== verification/Pool.thy ===== *)
theory Pool
  imports Prelude
begin

text \<open>
  Tasks over a shared state, run by threads in any interleaving: one step relation for the
  page tasks of a save, the loads of readers that share a cache, and the workers of a bulk load,
  whose steps are given by a function. The locale holds what they have in common: every run
  ends.
\<close>

section \<open>The step relation\<close>

text \<open>Any task that has not ended takes its next step; the others stay where they are.\<close>

inductive pool_step ::
  "('j \<Rightarrow> 'p \<Rightarrow> 's \<Rightarrow> 'p \<times> 's) \<Rightarrow> ('p \<Rightarrow> bool) \<Rightarrow> 'j set \<Rightarrow> 's \<times> ('j \<Rightarrow> 'p) \<Rightarrow> 's \<times> ('j \<Rightarrow> 'p) \<Rightarrow> bool"
  for next_step ended tasks where
  step: "j \<in> tasks \<Longrightarrow> \<not> ended (ph j) \<Longrightarrow> next_step j (ph j) s = (p, s') \<Longrightarrow>
    pool_step next_step ended tasks (s, ph) (s', ph(j := p))"

inductive_cases pool_stepE: "pool_step next_step ended tasks (s, ph) c'"

lemma pool_step_or_end:
  "(\<exists>c. pool_step next_step ended tasks (s, ph) c) \<or> (\<forall>j \<in> tasks. ended (ph j))"
  by (metis pool_step.step surj_pair)

lemma pool_end_stuck:
  "\<forall>j \<in> tasks. ended (ph j) \<Longrightarrow> \<not> pool_step next_step ended tasks (s, ph) c"
  by (auto elim: pool_stepE)

lemma pool_inv:
  assumes "(pool_step next_step ended tasks)\<^sup>*\<^sup>* c c'" "I (fst c) (snd c)"
    and "\<And>j ph s p s'. j \<in> tasks \<Longrightarrow> \<not> ended (ph j) \<Longrightarrow> I s ph \<Longrightarrow> next_step j (ph j) s = (p, s') \<Longrightarrow> I s' (ph(j := p))"
  shows "I (fst c') (snd c')"
  using assms(1,2)
proof (induction rule: rtranclp_induct)
  case (step c1 c2)
  then show ?case using assms(3) by (auto simp del: fun_upd_apply elim!: pool_step.cases)
qed

section \<open>Runs end\<close>

text \<open>Each step of a task lowers the number of steps it has left.\<close>

locale pool =
  fixes next_step :: "'j \<Rightarrow> 'p \<Rightarrow> 's \<Rightarrow> 'p \<times> 's"
    and ended :: "'p \<Rightarrow> bool"
    and steps_left :: "'p \<Rightarrow> nat"
  assumes progress: "\<not> ended p \<Longrightarrow> next_step j p s = (p', s') \<Longrightarrow> steps_left p' < steps_left p"
begin

lemma step_less:
  assumes "finite tasks" "pool_step next_step ended tasks c c'"
  shows "(\<Sum>j \<in> tasks. steps_left (snd c' j)) < (\<Sum>j \<in> tasks. steps_left (snd c j))"
  using assms(2)
proof cases
  case (step j ph s p s')
  note less = progress [OF step(4,5)]
  show ?thesis
    by (rule sum_strict_mono_ex1 [OF assms(1)]) (use step less in auto)
qed

lemma run_bound:
  assumes "finite tasks" "(pool_step next_step ended tasks ^^ n) c c'"
  shows "(\<Sum>j \<in> tasks. steps_left (snd c' j)) + n \<le> (\<Sum>j \<in> tasks. steps_left (snd c j))"
  using assms(2)
proof (induction n arbitrary: c')
  case (Suc n)
  then obtain c1 where c1: "(pool_step next_step ended tasks ^^ n) c c1" "pool_step next_step ended tasks c1 c'" by auto
  from step_less [OF assms(1) c1(2)] Suc.IH [OF c1(1)] show ?case by simp
qed simp

lemma run_ends:
  assumes "finite tasks"
  obtains n s ph where "(pool_step next_step ended tasks ^^ n) c (s, ph)" "\<forall>j \<in> tasks. ended (ph j)"
proof -
  have "\<exists>n c'. (pool_step next_step ended tasks ^^ n) c c' \<and> (\<forall>j \<in> tasks. ended (snd c' j))"
  proof (induction "\<Sum>j \<in> tasks. steps_left (snd c j)" arbitrary: c rule: less_induct)
    case less
    obtain s ph where c: "c = (s, ph)" by fastforce
    from pool_step_or_end [of next_step ended tasks s ph] show ?case
    proof
      assume "\<exists>c1. pool_step next_step ended tasks (s, ph) c1"
      then obtain c1 where c1: "pool_step next_step ended tasks c c1" using c by blast
      from less [OF step_less [OF assms c1]] obtain n c' where
        "(pool_step next_step ended tasks ^^ n) c1 c'" "\<forall>j \<in> tasks. ended (snd c' j)" by blast
      with relpowp_Suc_I2 [where P = "pool_step next_step ended tasks", OF c1] show ?case by blast
    next
      assume "\<forall>j \<in> tasks. ended (ph j)"
      then show ?case by (intro exI [of _ 0] exI [of _ c]) (simp add: c)
    qed
  qed
  then show thesis using that by auto
qed

end

end
