(* ===== verification/Threads.thy ===== *)
theory Threads
  imports Failures Pool
begin

text \<open>
  The page tasks of a save on the threads of the pool (\<open>process_one\<close> and the loops of
  \<open>append_only.rs\<close>). A task touches shared state three or four times: it looks its page up in
  the shadow, appends to a blob file, inserts into the shadow, and writes its slot of the
  record buffer; each is atomic under a lock of its own, and other tasks run in between. The
  other theories run each task in one piece, in an order that is a parameter. Here every
  interleaving is shown to end as one of those orders does: a task takes its place in the order
  when it appends to its blob file (a zero page, when it is looked at), and what it still has to
  do, or has read before, concerns its own page and slot only. The pool gives a thread the pages
  of a group one after the other, so its interleavings are among these.
\<close>

section \<open>A task in steps\<close>

text \<open>
  Where a task is: with the page and what the shadow held, with a full chunk that is stored but
  not in the shadow yet, with its record, or finished.
\<close>

datatype phase =
    Ready | Looked bytes "shadow_entry option" | Stored bytes chunk_record | Made chunk_record | Done | Failed fault

definition append_step :: "job_state \<Rightarrow> u64 \<Rightarrow> bytes \<Rightarrow> (u64 \<times> u32 \<Rightarrow> phase) \<Rightarrow> phase \<times> job_state" where
  "append_step st pa data next_phase =
     (let wid = unat pa mod length (js_blobs st)
      in case append_blob (js_blobs st ! wid) data of
           (r, blob) \<Rightarrow>
             ((case r of Inl e \<Rightarrow> Failed e | Inr p \<Rightarrow> next_phase p), st\<lparr>js_blobs := (js_blobs st)[wid := blob]\<rparr>))"

text \<open>The patch against a base page, if it is small enough.\<close>

definition delta_of :: "nat \<Rightarrow> bytes \<Rightarrow> shadow_entry option \<Rightarrow> (u64 \<times> (u16 \<times> u64) list) option" where
  "delta_of threshold page base =
     (case base of
        None \<Rightarrow> None
      | Some (base_key, base_page) \<Rightarrow>
          let patch = compute_xor_patch page base_page
          in if length patch \<le> threshold then Some (base_key, patch) else None)"

fun task_step ::
  "compressor \<Rightarrow> append_db \<Rightarrow> bytes \<Rightarrow> u32 \<Rightarrow> nat \<times> u64 \<Rightarrow> phase \<Rightarrow> job_state \<Rightarrow> phase \<times> job_state" where
  "task_step zc db mem s (slot, pa) Ready st =
     (let mem_off = unat pa * PAGE_SIZE
      in case ok_or (get_range mem mem_off (mem_off + PAGE_SIZE)) Panic of
           Inl e \<Rightarrow> (Failed e, st)
         | Inr page \<Rightarrow>
             (if is_all_zero page then Made (new_zero (encode_key pa s))
              else Looked page (if ad_use_shadow db then shadow_get (js_shadow st) pa else None), st))"
| "task_step zc db mem s (slot, pa) (Looked page base) st =
     (let key = encode_key pa s;
          wid = of_nat (unat pa mod length (js_blobs st))
      in case delta_of (ad_threshold db) page base of
           Some (base_key, patch) \<Rightarrow>
             append_step st pa (encode_delta_patch patch) (\<lambda>(offset, len). Made (new_delta key wid offset len base_key))
         | None \<Rightarrow>
             (case compress_to_buffer zc page of
                Inl e \<Rightarrow> (Failed e, st)
              | Inr buf \<Rightarrow> append_step st pa buf (\<lambda>(offset, len).
                  let rec = new_full key wid offset len
                  in if ad_use_shadow db then Stored page rec else Made rec)))"
| "task_step zc db mem s (slot, pa) (Stored page rec) st =
     (Made rec, st\<lparr>js_shadow := insert_if_newer (js_shadow st) pa (encode_key pa s) page\<rparr>)"
| "task_step zc db mem s (slot, pa) (Made rec) st = (Done, st\<lparr>js_buf := (js_buf st)(slot \<mapsto> rec)\<rparr>)"
| "task_step zc db mem s (slot, pa) p st = (p, st)"

fun halted :: "phase \<Rightarrow> bool" where
  "halted Done = True"
| "halted (Failed e) = True"
| "halted p = False"

lemma halted_iff: "halted p \<longleftrightarrow> p = Done \<or> (\<exists>e. p = Failed e)"
  by (cases p) auto

text \<open>Any task that is not at its end takes the next step.\<close>

definition par_step ::
  "compressor \<Rightarrow> append_db \<Rightarrow> bytes \<Rightarrow> u32 \<Rightarrow> (nat \<times> u64) set \<Rightarrow>
     job_state \<times> (nat \<times> u64 \<Rightarrow> phase) \<Rightarrow> job_state \<times> (nat \<times> u64 \<Rightarrow> phase) \<Rightarrow> bool" where
  "par_step zc db mem s jobs = pool_step (task_step zc db mem s) halted jobs"

section \<open>One task alone\<close>

text \<open>The record a task has made and not yet written to its slot.\<close>

fun made :: "phase \<Rightarrow> chunk_record option" where
  "made (Stored page rec) = Some rec"
| "made (Made rec) = Some rec"
| "made _ = None"

definition appended :: "phase \<Rightarrow> bool" where
  "appended p \<longleftrightarrow> made p \<noteq> None \<or> p = Done"

lemma process_one_eq:
  "process_one zc pa page s wid sh blob threshold use_shadow =
     (if is_all_zero page then (Inr (new_zero (encode_key pa s)), sh, blob)
      else case delta_of threshold page (if use_shadow then shadow_get sh pa else None) of
          Some (base_key, patch) \<Rightarrow>
            (case append_blob blob (encode_delta_patch patch) of
               (Inl e, blob) \<Rightarrow> (Inl e, sh, blob)
             | (Inr (offset, len), blob) \<Rightarrow> (Inr (new_delta (encode_key pa s) wid offset len base_key), sh, blob))
        | None \<Rightarrow> write_full zc pa page (encode_key pa s) wid sh blob use_shadow)"
  by (cases use_shadow; cases "shadow_get sh pa")
    (auto simp: process_one_def delta_of_def Let_def split: prod.split option.split sum.split)

text \<open>A zero page, and the appending step, done by the whole task at once.\<close>

lemma run_job_zero:
  assumes "get_range mem (unat pa * PAGE_SIZE) (unat pa * PAGE_SIZE + PAGE_SIZE) = Some page" "is_all_zero page"
  shows "run_job zc db mem s st (slot, pa) = (Inr (), st\<lparr>js_buf := (js_buf st)(slot \<mapsto> new_zero (encode_key pa s))\<rparr>)"
  using assms by (simp add: run_job_def process_one_def Let_def ok_or_def)

lemma run_job_append:
  assumes page: "get_range mem (unat pa * PAGE_SIZE) (unat pa * PAGE_SIZE + PAGE_SIZE) = Some page" "\<not> is_all_zero page"
    and base: "base = (if ad_use_shadow db then shadow_get (js_shadow st) pa else None)"
    and blobs: "js_blobs st' = js_blobs st"
    and step: "task_step zc db mem s (slot, pa) (Looked page base) st' = (p, st'')" "made p = Some rec"
  shows "run_job zc db mem s st (slot, pa) = (Inr (), st\<lparr>
      js_shadow := (if p = Stored page rec then insert_if_newer (js_shadow st) pa (encode_key pa s) page else js_shadow st),
      js_blobs := js_blobs st'', js_buf := (js_buf st)(slot \<mapsto> rec)\<rparr>) \<and>
    js_shadow st'' = js_shadow st' \<and> js_buf st'' = js_buf st' \<and> (p = Stored page rec \<or> p = Made rec)"
proof -
  let ?wid = "unat pa mod length (js_blobs st)"
  show ?thesis
  proof (cases "delta_of (ad_threshold db) page base")
    case (Some d)
    obtain base_key patch where d: "d = (base_key, patch)" by fastforce
    obtain r blob where a: "append_blob (js_blobs st ! ?wid) (encode_delta_patch patch) = (r, blob)" by fastforce
    with step Some d blobs obtain x where r: "r = Inr x" by (cases r) (auto simp: append_step_def Let_def)
    obtain offset len where x: "x = (offset, len)" by fastforce
    from step Some d blobs a r x
    have p: "p = Made rec" "rec = new_delta (encode_key pa s) (of_nat ?wid) offset len base_key"
      "st'' = st'\<lparr>js_blobs := (js_blobs st)[?wid := blob]\<rparr>" by (auto simp: append_step_def Let_def)
    have "process_one zc pa page s (of_nat ?wid) (js_shadow st) (js_blobs st ! ?wid) (ad_threshold db) (ad_use_shadow db) =
        (Inr rec, js_shadow st, blob)"
      using page(2) base Some d a r x p(2) by (simp add: process_one_eq)
    with page(1) p show ?thesis by (simp add: run_job_def Let_def ok_or_def)
  next
    case None
    with step obtain buf where buf: "compress_to_buffer zc page = Inr buf"
      by (cases "compress_to_buffer zc page") (auto simp: Let_def)
    obtain r blob where a: "append_blob (js_blobs st ! ?wid) buf = (r, blob)" by fastforce
    with step None buf blobs obtain x where r: "r = Inr x" by (cases r) (auto simp: append_step_def Let_def)
    obtain offset len where x: "x = (offset, len)" by fastforce
    let ?rec = "new_full (encode_key pa s) (of_nat ?wid) offset len"
    from step None buf blobs a r x
    have p: "p = (if ad_use_shadow db then Stored page ?rec else Made ?rec)" "rec = ?rec"
      "st'' = st'\<lparr>js_blobs := (js_blobs st)[?wid := blob]\<rparr>"
      by (auto simp: append_step_def Let_def split: if_splits)
    have "process_one zc pa page s (of_nat ?wid) (js_shadow st) (js_blobs st ! ?wid) (ad_threshold db) (ad_use_shadow db) =
        (Inr rec, if ad_use_shadow db then insert_if_newer (js_shadow st) pa (encode_key pa s) page else js_shadow st, blob)"
      using page(2) base None buf a r x p(2) by (simp add: process_one_eq write_full_def Let_def)
    with page(1) p show ?thesis by (simp add: run_job_def Let_def ok_or_def)
  qed
qed

section \<open>The order in which tasks append\<close>

definition put_entry :: "u64 \<Rightarrow> bytes \<Rightarrow> shadow_entry option \<Rightarrow> shadow_entry option" where
  "put_entry k p e = (case e of None \<Rightarrow> Some (k, p) | Some (k0, p0) \<Rightarrow> if k0 < k then Some (k, p) else e)"

lemma insert_entry:
  assumes "shadow_ok sh" "i < SHADOW_SHARDS"
  shows "(insert_if_newer sh pa k p ! i) q = (if i = shard_idx pa \<and> q = pa then put_entry k p ((sh ! i) q) else (sh ! i) q)"
proof (cases "i = shard_idx pa")
  case True
  with assms show ?thesis
    by (cases "(sh ! shard_idx pa) pa") (auto simp: insert_if_newer_def put_entry_def shadow_ok_def Let_def)
next
  case False
  then show ?thesis by (simp add: insert_if_newer_def Let_def)
qed

text \<open>
  The state against the one in which the tasks that have appended ran whole, in the order of
  their appends: the blob files are the same; the shadow lacks the insertions still to come,
  the buffer the records not yet written; and what a task has read of the shadow still holds.
\<close>

fun pending :: "phase \<Rightarrow> bytes option" where
  "pending (Stored page rec) = Some page"
| "pending _ = None"

definition shadow_lag :: "u32 \<Rightarrow> (nat \<times> u64) set \<Rightarrow> (nat \<times> u64 \<Rightarrow> phase) \<Rightarrow> shadow \<Rightarrow> shadow \<Rightarrow> bool" where
  "shadow_lag s jobs ph sh sh' \<longleftrightarrow> shadow_ok sh \<and> shadow_ok sh' \<and>
     (\<forall>i < SHADOW_SHARDS. \<forall>q. i \<noteq> shard_idx q \<or> q \<notin> snd ` jobs \<longrightarrow> (sh' ! i) q = (sh ! i) q) \<and>
     (\<forall>(slot, q) \<in> jobs. shadow_get sh' q =
        (case pending (ph (slot, q)) of
           Some page \<Rightarrow> put_entry (encode_key q s) page (shadow_get sh q) | None \<Rightarrow> shadow_get sh q))"

definition buf_lag :: "(nat \<times> u64) set \<Rightarrow> (nat \<times> u64 \<Rightarrow> phase) \<Rightarrow> (nat \<Rightarrow> chunk_record option) \<Rightarrow> (nat \<Rightarrow> chunk_record option) \<Rightarrow> bool" where
  "buf_lag jobs ph buf buf' \<longleftrightarrow>
     (\<forall>slot. slot \<notin> fst ` jobs \<longrightarrow> buf' slot = buf slot) \<and>
     (\<forall>(slot, q) \<in> jobs. buf' slot = (case made (ph (slot, q)) of Some r \<Rightarrow> Some r | None \<Rightarrow> buf slot))"

definition looked_ok :: "append_db \<Rightarrow> bytes \<Rightarrow> (nat \<times> u64) set \<Rightarrow> (nat \<times> u64 \<Rightarrow> phase) \<Rightarrow> shadow \<Rightarrow> bool" where
  "looked_ok db mem jobs ph sh \<longleftrightarrow>
     (\<forall>slot q page base. (slot, q) \<in> jobs \<longrightarrow> ph (slot, q) = Looked page base \<longrightarrow>
        get_range mem (unat q * PAGE_SIZE) (unat q * PAGE_SIZE + PAGE_SIZE) = Some page \<and> \<not> is_all_zero page \<and>
        base = (if ad_use_shadow db then shadow_get sh q else None))"

definition serial_inv ::
  "compressor \<Rightarrow> append_db \<Rightarrow> bytes \<Rightarrow> u32 \<Rightarrow> (nat \<times> u64) set \<Rightarrow> job_state \<Rightarrow> job_state \<times> (nat \<times> u64 \<Rightarrow> phase) \<Rightarrow> bool" where
  "serial_inv zc db mem s jobs st0 = (\<lambda>(st, ph).
     \<exists>ord whole. run_jobs zc db mem s st0 ord = (Inr (), whole) \<and> distinct ord \<and>
       set ord = {j \<in> jobs. appended (ph j)} \<and> js_blobs whole = js_blobs st \<and>
       shadow_lag s jobs ph (js_shadow st) (js_shadow whole) \<and> buf_lag jobs ph (js_buf st) (js_buf whole) \<and>
       looked_ok db mem jobs ph (js_shadow st))"

lemma run_jobs_snoc:
  "run_jobs zc db mem s st0 ord = (Inr (), st) \<Longrightarrow> run_jobs zc db mem s st0 (ord @ [j]) = (run_job zc db mem s st j)"
  by (induction ord arbitrary: st0) (auto split: prod.splits sum.splits)

lemma inj_upd:
  "inj_on fst jobs \<Longrightarrow> (slot, q) \<in> jobs \<Longrightarrow> (slot, q') \<in> jobs \<Longrightarrow> q' = q"
  "inj_on snd jobs \<Longrightarrow> (slot, q) \<in> jobs \<Longrightarrow> (slot', q) \<in> jobs \<Longrightarrow> slot' = slot"
  unfolding inj_on_def by force+

text \<open>A change of phase that touches neither shadow nor buffer.\<close>

lemma lag_phase:
  "pending p = pending (ph j) \<Longrightarrow> shadow_lag s jobs (ph(j := p)) sh sh' = shadow_lag s jobs ph sh sh'"
  "made p = made (ph j) \<Longrightarrow> buf_lag jobs (ph(j := p)) buf buf' = buf_lag jobs ph buf buf'"
proof -
  show "pending p = pending (ph j) \<Longrightarrow> shadow_lag s jobs (ph(j := p)) sh sh' = shadow_lag s jobs ph sh sh'"
  proof -
    assume "pending p = pending (ph j)"
    then have "pending ((ph(j := p)) x) = pending (ph x)" for x by simp
    then show ?thesis unfolding shadow_lag_def by (simp del: fun_upd_apply)
  qed
  assume "made p = made (ph j)"
  then have "made ((ph(j := p)) x) = made (ph x)" for x by simp
  then show "buf_lag jobs (ph(j := p)) buf buf' = buf_lag jobs ph buf buf'" unfolding buf_lag_def by (simp del: fun_upd_apply)
qed

lemma looked_ok_phase:
  "looked_ok db mem jobs ph sh \<Longrightarrow> \<not> (\<exists>page base. p = Looked page base) \<Longrightarrow> looked_ok db mem jobs (ph(j := p)) sh"
  unfolding looked_ok_def by auto

lemma buf_lag_made:
  assumes "buf_lag jobs ph buf buf'" "inj_on fst jobs" "(slot, pa) \<in> jobs" "made p = Some rec"
  shows "buf_lag jobs (ph((slot, pa) := p)) buf (buf'(slot \<mapsto> rec))"
  unfolding buf_lag_def
proof (intro conjI allI impI ballI, goal_cases)
  case (1 slot')
  then have "slot' \<noteq> slot" using assms(3) by force
  with 1 assms(1) show ?case by (simp add: buf_lag_def)
next
  case (2 x)
  obtain slot' q where x: "x = (slot', q)" by fastforce
  show ?case
  proof (cases "slot' = slot")
    case True
    with 2 x inj_upd(1) [OF assms(2,3)] assms(4) show ?thesis by simp
  next
    case False
    with 2 x assms(1) show ?thesis by (auto simp: buf_lag_def)
  qed
qed

lemma shadow_lag_get:
  assumes "shadow_lag s jobs ph sh sh'" "(slot, pa) \<in> jobs" "pending (ph (slot, pa)) = None"
  shows "shadow_get sh' pa = shadow_get sh pa"
  using assms unfolding shadow_lag_def by (auto dest!: bspec)

lemma looked_makes:
  assumes "task_step zc db mem s (slot, pa) (Looked page base) st = (p, st')" "\<not> (\<exists>e. p = Failed e)"
  shows "\<exists>rec. made p = Some rec"
  using assms
  by (auto simp: append_step_def Let_def split: option.splits prod.splits sum.splits if_splits)

lemma get_insert:
  assumes "shadow_ok sh"
  shows "shadow_get (insert_if_newer sh pa k p) q = (if q = pa then put_entry k p (shadow_get sh q) else shadow_get sh q)"
  using insert_entry [OF assms shard_idx_bound [of q], of pa k p q] by (auto simp: shadow_get_def)

text \<open>The insertion done in the whole tasks' shadow first, then in the shared one.\<close>

lemma lag_store:
  assumes "shadow_lag s jobs ph sh sh'" "inj_on snd jobs" "(slot, pa) \<in> jobs" "pending (ph (slot, pa)) = None"
  shows "shadow_lag s jobs (ph((slot, pa) := Stored page rec)) sh (insert_if_newer sh' pa (encode_key pa s) page)"
  unfolding shadow_lag_def
proof (intro conjI allI impI ballI, goal_cases)
  case (3 i q)
  then have "\<not> (i = shard_idx pa \<and> q = pa)" using assms(3) by force
  with 3 assms(1) show ?case by (subst insert_entry) (auto simp: shadow_lag_def)
next
  case (4 x)
  obtain slot' q where x: "x = (slot', q)" by fastforce
  have ok: "shadow_ok sh'" using assms(1) by (simp add: shadow_lag_def)
  show ?case
  proof (cases "q = pa")
    case True
    with 4 x inj_upd(2) [OF assms(2,3)] shadow_lag_get [OF assms(1,3,4)] show ?thesis by (simp add: get_insert [OF ok])
  next
    case False
    with 4 x assms(1) show ?thesis by (auto simp: get_insert [OF ok] shadow_lag_def)
  qed
qed (use assms(1) in \<open>simp_all add: shadow_lag_def bases.ins_ok\<close>)

lemma lag_insert:
  assumes "shadow_lag s jobs ph sh sh'" "inj_on snd jobs" "(slot, pa) \<in> jobs" "ph (slot, pa) = Stored page rec"
  shows "shadow_lag s jobs (ph((slot, pa) := Made rec)) (insert_if_newer sh pa (encode_key pa s) page) sh'"
  unfolding shadow_lag_def
proof (intro conjI allI impI ballI, goal_cases)
  case (3 i q)
  then have "\<not> (i = shard_idx pa \<and> q = pa)" using assms(3) by force
  with 3 assms(1) show ?case by (subst insert_entry) (auto simp: shadow_lag_def)
next
  case (4 x)
  obtain slot' q where x: "x = (slot', q)" by fastforce
  have ok: "shadow_ok sh" using assms(1) by (simp add: shadow_lag_def)
  have old: "shadow_get sh' q = (case pending (ph (slot', q)) of
      Some page \<Rightarrow> put_entry (encode_key q s) page (shadow_get sh q) | None \<Rightarrow> shadow_get sh q)"
    using assms(1) 4 x by (auto simp: shadow_lag_def)
  show ?case
  proof (cases "q = pa")
    case True
    with 4 x inj_upd(2) [OF assms(2,3)] assms(4) old show ?thesis by (simp add: get_insert [OF ok])
  next
    case False
    with x old show ?thesis by (simp add: get_insert [OF ok] split: option.split)
  qed
qed (use assms(1) in \<open>simp_all add: shadow_lag_def bases.ins_ok\<close>)

lemma looked_insert:
  assumes "looked_ok db mem jobs ph sh" "inj_on snd jobs" "(slot, pa) \<in> jobs" "shadow_ok sh"
  shows "looked_ok db mem jobs (ph((slot, pa) := Made rec)) (insert_if_newer sh pa k page)"
  unfolding looked_ok_def
proof (intro allI impI)
  fix slot' q page' base
  assume x: "(slot', q) \<in> jobs" "(ph((slot, pa) := Made rec)) (slot', q) = Looked page' base"
  then have ph: "ph (slot', q) = Looked page' base" "(slot', q) \<noteq> (slot, pa)" by (auto split: if_splits)
  then have "q \<noteq> pa" using inj_upd(2) [OF assms(2,3)] x(1) by blast
  then have "shadow_get (insert_if_newer sh pa k page) q = shadow_get sh q" by (simp add: get_insert [OF assms(4)])
  with assms(1) [unfolded looked_ok_def, rule_format, OF x(1) ph(1)]
  show "get_range mem (unat q * PAGE_SIZE) (unat q * PAGE_SIZE + PAGE_SIZE) = Some page' \<and> \<not> is_all_zero page' \<and>
      base = (if ad_use_shadow db then shadow_get (insert_if_newer sh pa k page) q else None)" by simp
qed

lemma buf_written:
  assumes "buf_lag jobs ph buf buf'" "inj_on fst jobs" "(slot, pa) \<in> jobs" "ph (slot, pa) = Made rec"
  shows "buf_lag jobs (ph((slot, pa) := Done)) (buf(slot \<mapsto> rec)) buf'"
  unfolding buf_lag_def
proof (intro conjI allI impI ballI, goal_cases)
  case (1 slot')
  then have "slot' \<noteq> slot" using assms(3) by force
  with 1 assms(1) show ?case by (simp add: buf_lag_def)
next
  case (2 x)
  obtain slot' q where x: "x = (slot', q)" by fastforce
  have old: "buf' slot' = (case made (ph (slot', q)) of Some r \<Rightarrow> Some r | None \<Rightarrow> buf slot')"
    using assms(1) 2 x by (auto simp: buf_lag_def)
  show ?case
  proof (cases "slot' = slot")
    case True
    with 2 x inj_upd(1) [OF assms(2,3)] assms(4) old show ?thesis by simp
  next
    case False
    with x old show ?thesis by (simp split: option.split)
  qed
qed

lemma appended_upd:
  "j \<in> jobs \<Longrightarrow> {x \<in> jobs. appended ((ph(j := p)) x)} =
     (if appended p then insert j {x \<in> jobs. appended (ph x)} else {x \<in> jobs. appended (ph x)} - {j})"
  by auto

lemma appended_simps [simp]:
  "\<not> appended Ready" "\<not> appended (Looked page base)" "appended (Stored page rec)" "appended (Made rec)" "appended Done"
  by (simp_all add: appended_def)

section \<open>Every interleaving is serial\<close>

lemma serial_step:
  assumes inj: "inj_on fst jobs" "inj_on snd jobs" and j: "j \<in> jobs" "\<not> (\<exists>e. ph j = Failed e)" "ph j \<noteq> Done"
    and step: "task_step zc db mem s j (ph j) st = (p, st')" "\<not> (\<exists>e. p = Failed e)"
    and inv: "serial_inv zc db mem s jobs st0 (st, ph)"
  shows "serial_inv zc db mem s jobs st0 (st', ph(j := p))"
proof -
  obtain slot pa where sp: "j = (slot, pa)" by fastforce
  obtain ord whole where run: "run_jobs zc db mem s st0 ord = (Inr (), whole)" "distinct ord" "set ord = {j \<in> jobs. appended (ph j)}"
    and blobs: "js_blobs whole = js_blobs st" and sh: "shadow_lag s jobs ph (js_shadow st) (js_shadow whole)"
    and buf: "buf_lag jobs ph (js_buf st) (js_buf whole)" and look: "looked_ok db mem jobs ph (js_shadow st)"
    using inv unfolding serial_inv_def by blast
  have ins: "(slot, pa) \<in> jobs" using j(1) sp by simp
  have same: ?thesis if "appended p = appended (ph j)" "js_blobs st' = js_blobs st"
    "shadow_lag s jobs (ph(j := p)) (js_shadow st') (js_shadow whole)" "buf_lag jobs (ph(j := p)) (js_buf st') (js_buf whole)"
    "looked_ok db mem jobs (ph(j := p)) (js_shadow st')"
  proof -
    have "{x \<in> jobs. appended ((ph(j := p)) x)} = {x \<in> jobs. appended (ph x)}" using that(1) by auto
    with that run blobs show ?thesis unfolding serial_inv_def by (auto simp del: fun_upd_apply)
  qed
  have next_ord: ?thesis if "run_job zc db mem s whole j = (Inr (), whole')" "\<not> appended (ph j)" "appended p" "js_blobs whole' = js_blobs st'"
    "shadow_lag s jobs (ph(j := p)) (js_shadow st') (js_shadow whole')" "buf_lag jobs (ph(j := p)) (js_buf st') (js_buf whole')"
    "looked_ok db mem jobs (ph(j := p)) (js_shadow st')" for whole'
  proof -
    have "run_jobs zc db mem s st0 (ord @ [j]) = (Inr (), whole')" using run_jobs_snoc [OF run(1), of j] that(1) by simp
    moreover have "distinct (ord @ [j])" using run(2,3) that(2) by auto
    moreover have "set (ord @ [j]) = {x \<in> jobs. appended ((ph(j := p)) x)}"
      using appended_upd [OF j(1), of ph p] run(3) that(3) by auto
    ultimately show ?thesis using that(4-7) unfolding serial_inv_def by blast
  qed
  show ?thesis
  proof (cases "ph j")
    case Ready
    with step sp obtain page where page: "get_range mem (unat pa * PAGE_SIZE) (unat pa * PAGE_SIZE + PAGE_SIZE) = Some page"
      "st' = st" "p = (if is_all_zero page then Made (new_zero (encode_key pa s))
        else Looked page (if ad_use_shadow db then shadow_get (js_shadow st) pa else None))"
      by (auto simp: Let_def ok_or_def split: option.splits)
    show ?thesis
    proof (cases "is_all_zero page")
      case True
      note job = run_job_zero [OF page(1) True, of zc db s whole slot]
      show ?thesis
        by (rule next_ord [OF job [folded sp]])
          (use True page Ready blobs sh buf_lag_made [OF buf inj(1) ins, of p "new_zero (encode_key pa s)"] look sp in
            \<open>simp_all add: lag_phase looked_ok_phase\<close>)
    next
      case False
      have "looked_ok db mem jobs (ph(j := p)) (js_shadow st)"
        using look False page sp unfolding looked_ok_def by auto
      with False page Ready sh buf show ?thesis by (intro same) (simp_all add: lag_phase)
    qed
  next
    case (Looked page base)
    have l: "get_range mem (unat pa * PAGE_SIZE) (unat pa * PAGE_SIZE + PAGE_SIZE) = Some page" "\<not> is_all_zero page"
      "base = (if ad_use_shadow db then shadow_get (js_shadow st) pa else None)"
      using look Looked ins sp unfolding looked_ok_def by auto
    have free: "pending (ph (slot, pa)) = None" using Looked sp by simp
    have base: "base = (if ad_use_shadow db then shadow_get (js_shadow whole) pa else None)"
      using l(3) shadow_lag_get [OF sh ins free] by simp
    have ts: "task_step zc db mem s (slot, pa) (Looked page base) st = (p, st')" using step(1) Looked sp by simp
    obtain rec where made: "made p = Some rec" using looked_makes [OF ts step(2)] by blast
    note app = run_job_append [OF l(1,2) base blobs [symmetric] ts made]
    have lag: "shadow_lag s jobs (ph(j := p)) (js_shadow st')
        (if p = Stored page rec then insert_if_newer (js_shadow whole) pa (encode_key pa s) page else js_shadow whole)"
      using app lag_store [OF sh inj(2) ins free, of page rec] sh Looked sp by (auto simp: lag_phase)
    have bl: "buf_lag jobs (ph(j := p)) (js_buf st') ((js_buf whole)(slot \<mapsto> rec))"
      using app buf_lag_made [OF buf inj(1) ins made] sp by simp
    have "looked_ok db mem jobs (ph(j := p)) (js_shadow st')" using app look by (auto intro!: looked_ok_phase)
    with app lag bl Looked sp show ?thesis
      by (intro next_ord [of "whole\<lparr>js_shadow := (if p = Stored page rec then insert_if_newer (js_shadow whole) pa (encode_key pa s) page
        else js_shadow whole), js_blobs := js_blobs st', js_buf := (js_buf whole)(slot \<mapsto> rec)\<rparr>"]) auto
  next
    case (Stored page rec)
    with step sp have p: "p = Made rec" "st' = st\<lparr>js_shadow := insert_if_newer (js_shadow st) pa (encode_key pa s) page\<rparr>" by simp_all
    have ok: "shadow_ok (js_shadow st)" using sh by (simp add: shadow_lag_def)
    have "looked_ok db mem jobs (ph(j := p)) (js_shadow st')"
      using looked_insert [OF look inj(2) ins ok] sp p by simp
    with p Stored sp lag_insert [OF sh inj(2) ins, of page rec] buf show ?thesis by (intro same) (simp_all add: lag_phase)
  next
    case (Made rec)
    with step sp have p: "p = Done" "st' = st\<lparr>js_buf := (js_buf st)(slot \<mapsto> rec)\<rparr>" by simp_all
    with Made sp buf_written [OF buf inj(1) ins, of rec] sh look show ?thesis
      by (intro same) (simp_all add: lag_phase looked_ok_phase)
  qed (use j in auto)
qed

lemma serial_start:
  "shadow_ok (js_shadow st0) \<Longrightarrow> serial_inv zc db mem s jobs st0 (st0, \<lambda>_. Ready)"
  unfolding serial_inv_def
  by (simp add: shadow_lag_def buf_lag_def looked_ok_def)

text \<open>When no task is left the shared state is that of the whole tasks.\<close>

lemma serial_done:
  assumes "serial_inv zc db mem s jobs st0 (st, ph)" "\<forall>j \<in> jobs. ph j = Done"
  shows "\<exists>ord. distinct ord \<and> set ord = jobs \<and> run_jobs zc db mem s st0 ord = (Inr (), st)"
proof -
  obtain ord whole where run: "run_jobs zc db mem s st0 ord = (Inr (), whole)" "distinct ord" "set ord = {j \<in> jobs. appended (ph j)}"
    and blobs: "js_blobs whole = js_blobs st" and sh: "shadow_lag s jobs ph (js_shadow st) (js_shadow whole)"
    and buf: "buf_lag jobs ph (js_buf st) (js_buf whole)"
    using assms(1) unfolding serial_inv_def by blast
  have "js_shadow whole = js_shadow st"
  proof (rule nth_equalityI)
    show "length (js_shadow whole) = length (js_shadow st)" using sh by (simp add: shadow_lag_def shadow_ok_def)
  next
    fix i
    assume "i < length (js_shadow whole)"
    then have i: "i < SHADOW_SHARDS" using sh by (simp add: shadow_lag_def shadow_ok_def)
    show "js_shadow whole ! i = js_shadow st ! i"
    proof
      fix q
      show "(js_shadow whole ! i) q = (js_shadow st ! i) q"
      proof (cases "i = shard_idx q \<and> q \<in> snd ` jobs")
        case True
        then obtain slot where slot: "(slot, q) \<in> jobs" by force
        with assms(2) have "pending (ph (slot, q)) = None" by auto
        with shadow_lag_get [OF sh slot] True show ?thesis by (simp add: shadow_get_def)
      next
        case False
        with sh i show ?thesis by (auto simp: shadow_lag_def)
      qed
    qed
  qed
  moreover have "js_buf whole = js_buf st"
  proof
    fix slot
    show "js_buf whole slot = js_buf st slot"
      using buf assms(2) unfolding buf_lag_def by (cases "slot \<in> fst ` jobs") fastforce+
  qed
  ultimately have "whole = st" using blobs by (cases whole; cases st) simp
  moreover have "set ord = jobs" using run(3) assms(2) by auto
  ultimately show ?thesis using run(1,2) by blast
qed

text \<open>Every run of the tasks ends: each takes at most four steps.\<close>

fun steps_left :: "phase \<Rightarrow> nat" where
  "steps_left Ready = 4"
| "steps_left (Looked page base) = 3"
| "steps_left (Stored page rec) = 2"
| "steps_left (Made rec) = 1"
| "steps_left _ = 0"

lemma task_progress:
  assumes "\<not> halted p" "task_step zc db mem s j p st = (p', st')"
  shows "steps_left p' < steps_left p"
proof -
  obtain slot pa where j: "j = (slot, pa)" by fastforce
  show ?thesis
  proof (cases p)
    case (Looked page base)
    with assms(2) j show ?thesis
      by (auto simp: append_step_def Let_def split: option.splits prod.splits sum.splits if_splits)
  qed (use assms j in \<open>auto simp: Let_def split: sum.splits if_splits\<close>)
qed

interpretation page_tasks: pool "task_step zc db mem s" halted steps_left for zc db mem s
  by unfold_locales (rule task_progress)

lemma run_jobs_fill:
  "run_jobs zc db mem s st ord = (Inr (), st') \<Longrightarrow> (slot, pa) \<in> set ord \<or> js_buf st slot \<noteq> None \<Longrightarrow> js_buf st' slot \<noteq> None"
proof (induction ord arbitrary: st)
  case (Cons j ord)
  obtain slot' pa' where j: "j = (slot', pa')" by fastforce
  obtain r st1 where r: "run_job zc db mem s st j = (r, st1)" by fastforce
  with Cons.prems(1) have ok: "r = Inr ()" "run_jobs zc db mem s st1 ord = (Inr (), st')" by (auto split: sum.splits)
  then have "\<exists>rec. js_buf st1 = (js_buf st)(slot' \<mapsto> rec)"
    using r j by (auto simp: run_job_def Let_def split: sum.splits prod.splits)
  then have "(slot, pa) \<in> set ord \<or> js_buf st1 slot \<noteq> None" using Cons.prems(2) j by (cases "slot = slot'") auto
  with Cons.IH [OF ok(2)] show ?case by blast
qed simp

text \<open>With a compressor that works on every page no task fails.\<close>

lemma append_small:
  assumes "append_step st pa data np = (p, st')" "length data \<le> COMPRESS_CAP" "\<And>x. \<not> (\<exists>e. np x = Failed e)"
  shows "\<not> (\<exists>e. p = Failed e)"
proof -
  have "length data < 2 ^ 32" using assms(2) by (simp add: COMPRESS_CAP_def)
  with assms(1,3) show ?thesis by (auto simp: append_step_def append_blob_def Let_def)
qed

lemma patch_small: "length (encode_delta_patch (compute_xor_patch page base)) \<le> COMPRESS_CAP"
  using length_compute_xor_patch [of page base]
  by (simp add: length_encode_delta_patch COMPRESS_CAP_def PAGE_WORDS_val)

lemma delta_of_SomeE:
  assumes "delta_of thr page base = Some (k, patch)"
  obtains b where "base = Some (k, b)" "patch = compute_xor_patch page b" "length patch \<le> thr"
  using assms by (auto simp: delta_of_def Let_def split: option.splits if_splits)

lemma task_succeeds:
  assumes zstd: "zstd_ok zc zd" and mem: "\<forall>(slot, pa) \<in> jobs. unat pa * PAGE_SIZE + PAGE_SIZE \<le> length mem"
    and j: "j \<in> jobs" "\<not> (\<exists>e. ph j = Failed e)" and look: "looked_ok db mem jobs ph sh"
    and step: "task_step zc db mem s j (ph j) st = (p, st')"
  shows "\<not> (\<exists>e. p = Failed e)"
proof -
  obtain slot pa where sp: "j = (slot, pa)" by fastforce
  have range: "unat pa * PAGE_SIZE + PAGE_SIZE \<le> length mem" using mem j(1) sp by auto
  show ?thesis
  proof (cases "ph j")
    case Ready
    with step sp range show ?thesis by (auto simp: Let_def ok_or_def get_range_def split: if_splits)
  next
    case (Looked page base)
    with look j(1) sp have "get_range mem (unat pa * PAGE_SIZE) (unat pa * PAGE_SIZE + PAGE_SIZE) = Some page"
      unfolding looked_ok_def by blast
    then have "length page = PAGE_SIZE" using range by (auto simp: get_range_def split: if_splits)
    then obtain z where z: "zc page = Some z" "length z \<le> COMPRESS_CAP" using zstd unfolding zstd_ok_def by blast
    show ?thesis
    proof (cases "delta_of (ad_threshold db) page base")
      case None
      let ?np = "\<lambda>(offset, len).
        let rec = new_full (encode_key pa s) (of_nat (unat pa mod length (js_blobs st))) offset len
        in if ad_use_shadow db then Stored page rec else Made rec"
      have "append_step st pa z ?np = (p, st')"
        using step Looked sp None z by (simp add: compress_to_buffer_def Let_def)
      then show ?thesis by (rule append_small [OF _ z(2)]) (auto simp: Let_def split: if_splits)
    next
      case (Some d)
      then obtain k b where d: "d = (k, compute_xor_patch page b)" by (metis delta_of_SomeE surj_pair)
      let ?np = "\<lambda>(offset, len). Made (new_delta (encode_key pa s) (of_nat (unat pa mod length (js_blobs st))) offset len k)"
      have "append_step st pa (encode_delta_patch (compute_xor_patch page b)) ?np = (p, st')"
        using step Looked sp Some d by (simp add: Let_def)
      then show ?thesis by (rule append_small [OF _ patch_small]) auto
    qed
  qed (use step sp j(2) in auto)
qed

lemma serial_reach_ok:
  assumes zstd: "zstd_ok zc zd" and mem: "\<forall>(slot, pa) \<in> jobs. unat pa * PAGE_SIZE + PAGE_SIZE \<le> length mem"
    and inj: "inj_on fst jobs" "inj_on snd jobs" and "shadow_ok (js_shadow st0)"
    and run: "(par_step zc db mem s jobs)\<^sup>*\<^sup>* (st0, \<lambda>_. Ready) c"
  shows "(\<forall>j \<in> jobs. \<not> (\<exists>e. snd c j = Failed e)) \<and> serial_inv zc db mem s jobs st0 c"
proof -
  let ?I = "\<lambda>st ph. (\<forall>j \<in> jobs. \<not> (\<exists>e. ph j = Failed e)) \<and> serial_inv zc db mem s jobs st0 (st, ph)"
  have "?I (fst c) (snd c)"
  proof (rule pool_inv [OF run [unfolded par_step_def]])
    show "?I (fst (st0, \<lambda>_. Ready)) (snd (st0, \<lambda>_. Ready))"
      using serial_start [OF assms(5)] by auto
  next
    fix j ph st p st'
    assume j: "j \<in> jobs" "\<not> halted (ph j)" and inv: "?I st ph" and step: "task_step zc db mem s j (ph j) st = (p, st')"
    have look: "looked_ok db mem jobs ph (js_shadow st)" using inv unfolding serial_inv_def by blast
    have live: "\<not> (\<exists>e. ph j = Failed e)" "ph j \<noteq> Done" using j(2) by (auto simp: halted_iff)
    note fine = task_succeeds [OF zstd mem j(1) live(1) look step]
    from serial_step [OF inj j(1) live step fine conjunct2 [OF inv]] fine inv
    show "?I st' (ph(j := p))" by auto
  qed
  then show ?thesis by simp
qed

section \<open>A save on several threads\<close>

definition op_jobs :: "save_op \<Rightarrow> (nat \<times> u64) set" where
  "op_jobs op = set (enumerate 0 (op_pages op))"

definition tasks_start :: "append_db \<Rightarrow> job_state \<times> (nat \<times> u64 \<Rightarrow> phase)" where
  "tasks_start db = (\<lparr>js_shadow = ad_shadow db, js_blobs = ad_blobs db, js_buf = (\<lambda>_. None)\<rparr>, \<lambda>_. Ready)"

text \<open>
  What the save makes of the state its tasks leave: the shadow and blob files they changed;
  when all are done, their records in the log and its header.
\<close>

definition tasks_end :: "append_db \<Rightarrow> job_state \<Rightarrow> append_db" where
  "tasks_end db st = db\<lparr>ad_shadow := js_shadow st, ad_blobs := js_blobs st\<rparr>"

definition tasks_commit :: "save_op \<Rightarrow> append_db \<Rightarrow> job_state \<Rightarrow> append_db" where
  "tasks_commit op db st =
     (tasks_end db st)\<lparr>ad_log := update_header (op_snapshot op)
         (foldl write_all (ad_log db) (map (write_to \<circ> the \<circ> js_buf st) [0..<length (op_pages op)]))\<rparr>"

text \<open>
  The outcomes of a save that fits: the checks reject it, or it has no page to write, or the
  pool runs its tasks, with an error of a task as soon as one has failed.
\<close>

inductive par_save :: "compressor \<Rightarrow> save_op \<Rightarrow> append_db \<Rightarrow> unit res \<Rightarrow> append_db \<Rightarrow> bool" where
  rejected: "begin_save (op_snapshot op) db = (Inl e, db1) \<Longrightarrow> par_save zc op db (Inl e) db1"
| no_pages: "begin_save (op_snapshot op) db = (Inr (), db1) \<Longrightarrow> op_pages op = [] \<Longrightarrow> par_save zc op db (Inr ()) db1"
| all_done: "begin_save (op_snapshot op) db = (Inr (), db1) \<Longrightarrow> op_pages op \<noteq> [] \<Longrightarrow>
    (par_step zc db1 (op_mem op) (op_snapshot op) (op_jobs op))\<^sup>*\<^sup>* (tasks_start db1) (st, ph) \<Longrightarrow>
    \<forall>j \<in> op_jobs op. ph j = Done \<Longrightarrow> par_save zc op db (Inr ()) (tasks_commit op db1 st)"
| one_failed: "begin_save (op_snapshot op) db = (Inr (), db1) \<Longrightarrow> op_pages op \<noteq> [] \<Longrightarrow>
    (par_step zc db1 (op_mem op) (op_snapshot op) (op_jobs op))\<^sup>*\<^sup>* (tasks_start db1) (st, ph) \<Longrightarrow>
    j \<in> op_jobs op \<Longrightarrow> ph j = Failed e \<Longrightarrow> par_save zc op db (Inl e) (tasks_end db1 st)"

inductive_cases par_saveE: "par_save zc op db r db'"

lemma op_jobs_inj:
  assumes "op_fits op"
  shows "inj_on fst (op_jobs op)" "inj_on snd (op_jobs op)"
    and "\<forall>(slot, pa) \<in> op_jobs op. unat pa * PAGE_SIZE + PAGE_SIZE \<le> length (op_mem op)"
proof -
  have "distinct (map fst (enumerate 0 (op_pages op)))" "distinct (map snd (enumerate 0 (op_pages op)))"
    using op_pages_ok(1) [OF assms] by simp_all
  then show "inj_on fst (op_jobs op)" "inj_on snd (op_jobs op)"
    unfolding op_jobs_def distinct_map by blast+
  show "\<forall>(slot, pa) \<in> op_jobs op. unat pa * PAGE_SIZE + PAGE_SIZE \<le> length (op_mem op)"
    using op_pages_ok(2) [OF assms] by (auto simp: op_jobs_def in_set_enumerate_eq)
qed

text \<open>The schedule that runs the tasks of a save in the order \<open>ord\<close>.\<close>

lemma serial_commit:
  assumes "op_fits op" "begin_save (op_snapshot op) db = (Inr (), db1)" "op_pages op \<noteq> []"
    and ord: "distinct ord" "set ord = op_jobs op"
    "run_jobs zc db1 (op_mem op) (op_snapshot op) (fst (tasks_start db1)) ord = (Inr (), st)"
  shows "\<exists>sched. schedule_ok sched \<and> run_save sched zc op db = (Inr (), tasks_commit op db1 st)"
proof -
  let ?jobs = "enumerate 0 (op_pages op)"
  let ?sched = "\<lambda>js. if js = ?jobs then ord else js"
  have "schedule_ok ?sched" using ord(1,2) by (simp add: schedule_ok_def op_jobs_def)
  moreover have "\<forall>i \<in> set [0..<length (op_pages op)]. \<exists>r. js_buf st i = Some r"
  proof
    fix i
    assume "i \<in> set [0..<length (op_pages op)]"
    then have "(i, op_pages op ! i) \<in> set ord" using ord(2) by (simp add: op_jobs_def in_set_enumerate_eq)
    with run_jobs_fill [OF ord(3)] show "\<exists>r. js_buf st i = Some r" by blast
  qed
  then have "collect (js_buf st) [0..<length (op_pages op)] = Inr (map (the \<circ> js_buf st) [0..<length (op_pages op)])"
    by (rule collect_all)
  then have "run_save ?sched zc op db = (Inr (), tasks_commit op db1 st)"
    using run_save_commit [OF assms(1,2), of ?sched zc] assms(3) ord(3)
    by (simp add: commit_jobs_def tasks_commit_def tasks_end_def tasks_start_def Let_def comp_assoc)
  ultimately show ?thesis by blast
qed

lemma db_inv_shadow_ok: "db_inv zd h db rs \<Longrightarrow> shadow_ok (ad_shadow db)"
  by (simp add: db_inv_def bases.all_entries_def)

lemma tasks_reach:
  assumes inv: "db_inv zd h db rs" and zstd: "zstd_ok zc zd" and fits: "op_fits op"
    and start: "begin_save (op_snapshot op) db = (Inr (), db1)"
    and run: "(par_step zc db1 (op_mem op) (op_snapshot op) (op_jobs op))\<^sup>*\<^sup>* (tasks_start db1) c"
  shows "\<forall>j \<in> op_jobs op. \<not> (\<exists>e. snd c j = Failed e)"
    and "serial_inv zc db1 (op_mem op) (op_snapshot op) (op_jobs op) (fst (tasks_start db1)) c"
proof -
  have "db1 = db\<lparr>ad_last := Some (op_snapshot op)\<rparr>" using start by (simp add: begin_save_def split: if_splits)
  then have "shadow_ok (js_shadow (fst (tasks_start db1)))" using db_inv_shadow_ok [OF inv] by (simp add: tasks_start_def)
  from serial_reach_ok [OF zstd op_jobs_inj(3,1,2) [OF fits] this, of db1 "op_snapshot op" c] run
  show "\<forall>j \<in> op_jobs op. \<not> (\<exists>e. snd c j = Failed e)"
    "serial_inv zc db1 (op_mem op) (op_snapshot op) (op_jobs op) (fst (tasks_start db1)) c"
    by (simp_all add: tasks_start_def)
qed

section \<open>Properties\<close>

lemma finite_op_jobs [simp]: "finite (op_jobs op)"
  by (simp add: op_jobs_def)

lemma par_save_serial:
  assumes "db_inv zd h db rs" "zstd_ok zc zd" "op_fits op" "\<forall>l. ad_last db = Some l \<longrightarrow> l < op_snapshot op"
    and "par_save zc op db r db'"
  shows "\<exists>sched. schedule_ok sched \<and> run_save sched zc op db = (r, db')"
proof -
  have s: "op_snapshot op \<le> MAX_SNAPSHOT_ID" using assms(3) by (cases op) auto
  note start = begin_save_ok(1) [OF assms(1) s assms(4)]
  note reach = tasks_reach [OF assms(1-3)]
  from assms(5) show ?thesis
  proof cases
    case no_pages
    then show ?thesis using run_save_commit [OF assms(3) no_pages(2), of id zc]
      by (intro exI [of _ id]) (simp add: schedule_ok_def)
  next
    case (all_done db1 st ph)
    from serial_done [OF reach(2) [OF all_done(3,5)] all_done(6)] obtain ord where "distinct ord" "set ord = op_jobs op"
      "run_jobs zc db1 (op_mem op) (op_snapshot op) (fst (tasks_start db1)) ord = (Inr (), st)" by blast
    from serial_commit [OF assms(3) all_done(3,4) this] all_done show ?thesis by simp
  next
    case (one_failed db1 st ph j e)
    with reach(1) [OF one_failed(3,5)] show ?thesis by auto
  qed (use start in auto)
qed

text \<open>C11: a save on several threads refines the abstract save: however the pool interleaves the
  tasks at their locks, the save succeeds and ends as a save on a single thread that runs the
  tasks whole in some order, files and shadow included; the database then holds the old
  history and the pages saved, the new records those of the saved pages in page order.\<close>

theorem parallel_save_refines:
  assumes "db_inv zd h db rs" "zstd_ok zc zd" "op_fits op" "\<forall>l. ad_last db = Some l \<longrightarrow> l < op_snapshot op"
    and "blob_room (length (op_pages op)) (ad_blobs db)" "par_save zc op db r db'"
  shows "r = Inr () \<and> (\<exists>sched. schedule_ok sched \<and> run_save sched zc op db = (Inr (), db')) \<and>
    (\<exists>recs. db_inv zd (abs_save op h) db' (rs @ recs) \<and> map r_key recs = op_keys op)"
proof -
  obtain sched where sched: "schedule_ok sched" "run_save sched zc op db = (r, db')"
    using par_save_serial [OF assms(1-4,6)] by blast
  from run_save_spec [OF assms(1,2) sched(1) assms(3,4), of 0] assms(5) sched show ?thesis by auto
qed

text \<open>C13: the tasks of a save never block one another: whatever order they take, after at most four
  steps per page none is left, and at any moment before that some task can go on; when none can,
  all have finished and the save commits.\<close>

theorem parallel_save_ends:
  assumes "db_inv zd h db rs" "zstd_ok zc zd" "op_fits op" "op_pages op \<noteq> []"
    and "begin_save (op_snapshot op) db = (Inr (), db1)"
    and "(par_step zc db1 (op_mem op) (op_snapshot op) (op_jobs op) ^^ n) (tasks_start db1) (st, ph)"
  shows "n \<le> 4 * length (op_pages op) \<and>
    ((\<exists>c. par_step zc db1 (op_mem op) (op_snapshot op) (op_jobs op) (st, ph) c) \<or>
     par_save zc op db (Inr ()) (tasks_commit op db1 st))"
proof
  have "card (op_jobs op) \<le> length (op_pages op)" using card_length [of "enumerate 0 (op_pages op)"] by (simp add: op_jobs_def)
  with page_tasks.run_bound [OF finite_op_jobs assms(6) [unfolded par_step_def]] show "n \<le> 4 * length (op_pages op)" by (simp add: tasks_start_def)
  have run: "(par_step zc db1 (op_mem op) (op_snapshot op) (op_jobs op))\<^sup>*\<^sup>* (tasks_start db1) (st, ph)"
    using assms(6) by (rule relpowp_imp_rtranclp)
  from tasks_reach(1) [OF assms(1-3,5) run] par_save.all_done [OF assms(5,4) run]
    pool_step_or_end [of "task_step zc db1 (op_mem op) (op_snapshot op)" halted "op_jobs op" st ph]
  show "(\<exists>c. par_step zc db1 (op_mem op) (op_snapshot op) (op_jobs op) (st, ph) c) \<or>
      par_save zc op db (Inr ()) (tasks_commit op db1 st)"
    unfolding par_step_def halted_iff by fastforce
qed

section \<open>Two tasks on a new database\<close>

definition two_pages :: save_op where
  "two_pages = SaveAll (replicate (2 * PAGE_SIZE) 1) 2 0"

lemma two_pages_fit: "op_fits two_pages" "op_pages two_pages = [0, 1]" "op_snapshot two_pages = 0"
  by (simp_all add: two_pages_def snapshot_le_max_unat upt_rec)

lemma two_pages_start: "begin_save (op_snapshot two_pages) (new_db 0 True) = (Inr (), new_db 0 True\<lparr>ad_last := Some 0\<rparr>)"
  by (simp add: begin_save_def new_db_def two_pages_fit not_less [symmetric])

text \<open>A run of the two tasks to their end.\<close>

lemma two_pages_run:
  assumes zstd: "zstd_ok zc zd"
  obtains n st ph where
    "(par_step zc (new_db 0 True\<lparr>ad_last := Some 0\<rparr>) (op_mem two_pages) (op_snapshot two_pages) (op_jobs two_pages) ^^ n)
      (tasks_start (new_db 0 True\<lparr>ad_last := Some 0\<rparr>)) (st, ph)"
    "\<forall>j \<in> op_jobs two_pages. ph j = Done"
proof -
  let ?step = "par_step zc (new_db 0 True\<lparr>ad_last := Some 0\<rparr>) (op_mem two_pages) (op_snapshot two_pages) (op_jobs two_pages)"
  let ?start = "tasks_start (new_db 0 True\<lparr>ad_last := Some 0\<rparr>)"
  obtain n st ph where run: "(?step ^^ n) ?start (st, ph)" "\<forall>j \<in> op_jobs two_pages. halted (ph j)"
    unfolding par_step_def by (rule page_tasks.run_ends [OF finite_op_jobs])
  with tasks_reach(1) [OF new_db_inv(1) zstd two_pages_fit(1) two_pages_start relpowp_imp_rtranclp [OF run(1)]]
  have "\<forall>j \<in> op_jobs two_pages. ph j = Done" by (auto simp: halted_iff)
  with run(1) show thesis by (rule that)
qed

lemma zstd_id: "zstd_ok Some Some"
  by (simp add: zstd_ok_def COMPRESS_CAP_def PAGE_SIZE_def)

theorem parallel_save_refines_witness:
  "\<exists>db' sched recs. par_save Some two_pages (new_db 0 True) (Inr ()) db' \<and> run_save sched Some two_pages (new_db 0 True) = (Inr (), db') \<and>
     db_inv Some [(0, save_map (replicate (2 * PAGE_SIZE) 1) [0, 1])] db' recs \<and> map r_key recs = [encode_key 0 0, encode_key 1 0]"
proof -
  obtain n st ph where run: "(par_step Some (new_db 0 True\<lparr>ad_last := Some 0\<rparr>) (op_mem two_pages) (op_snapshot two_pages) (op_jobs two_pages) ^^ n)
      (tasks_start (new_db 0 True\<lparr>ad_last := Some 0\<rparr>)) (st, ph)" "\<forall>j \<in> op_jobs two_pages. ph j = Done"
    by (rule two_pages_run [OF zstd_id])
  have save: "par_save Some two_pages (new_db 0 True) (Inr ()) (tasks_commit two_pages (new_db 0 True\<lparr>ad_last := Some 0\<rparr>) st)"
    by (rule par_save.all_done [OF two_pages_start _ relpowp_imp_rtranclp [OF run(1)] run(2)]) (simp add: two_pages_fit)
  have newer: "\<forall>l. ad_last (new_db 0 True) = Some l \<longrightarrow> l < op_snapshot two_pages" by (simp add: new_db_def)
  have room: "blob_room (length (op_pages two_pages)) (ad_blobs (new_db 0 True))"
    by (rule new_db_inv) (simp add: two_pages_fit COMPRESS_CAP_def)
  have hist: "abs_save two_pages [] = [(0, save_map (replicate (2 * PAGE_SIZE) 1) [0, 1])]"
    by (simp only: abs_save.simps two_pages_fit list.simps if_False) (simp add: two_pages_def)
  have keys: "op_keys two_pages = [encode_key 0 0, encode_key 1 0]" by (simp add: op_keys_def two_pages_fit)
  from parallel_save_refines [OF new_db_inv(1) zstd_id two_pages_fit(1) newer room save, unfolded hist keys append_Nil] save
  show ?thesis by (elim conjE exE) (rule exI conjI | assumption)+
qed

theorem parallel_save_ends_witness:
  "\<exists>n st ph. (par_step Some (new_db 0 True\<lparr>ad_last := Some 0\<rparr>) (op_mem two_pages) 0 (op_jobs two_pages) ^^ n)
       (tasks_start (new_db 0 True\<lparr>ad_last := Some 0\<rparr>)) (st, ph) \<and> (\<forall>j \<in> op_jobs two_pages. ph j = Done) \<and> n \<le> 8 \<and>
     par_save Some two_pages (new_db 0 True) (Inr ()) (tasks_commit two_pages (new_db 0 True\<lparr>ad_last := Some 0\<rparr>) st)"
proof -
  obtain n st ph where run: "(par_step Some (new_db 0 True\<lparr>ad_last := Some 0\<rparr>) (op_mem two_pages) (op_snapshot two_pages) (op_jobs two_pages) ^^ n)
      (tasks_start (new_db 0 True\<lparr>ad_last := Some 0\<rparr>)) (st, ph)" "\<forall>j \<in> op_jobs two_pages. ph j = Done"
    by (rule two_pages_run [OF zstd_id])
  have stop: "\<not> par_step Some (new_db 0 True\<lparr>ad_last := Some 0\<rparr>) (op_mem two_pages) (op_snapshot two_pages) (op_jobs two_pages) (st, ph) c" for c
    unfolding par_step_def by (rule pool_end_stuck) (use run(2) in simp)
  have "op_pages two_pages \<noteq> []" by (simp add: two_pages_fit)
  from parallel_save_ends [OF new_db_inv(1) zstd_id two_pages_fit(1) this two_pages_start run(1)] stop run
  show ?thesis by (auto simp: two_pages_fit)
qed

end
