(* ===== verification/Workers.thy ===== *)
theory Workers
  imports Load Pool
begin

text \<open>
  The worker threads of a bulk load (\<open>load_all_btree\<close> and \<open>load_all_scan\<close> of
  \<open>append_only.rs\<close>) as a step relation. Each fills its own region, page by page; what they
  share is the flag \<open>success\<close>, which a worker clears when a page is not found, and the store,
  which they only read. \<open>Load\<close> runs them one after the other.
\<close>

section \<open>A worker in steps\<close>

text \<open>
  The pages filled, the index of the next page and the rest of the region; the end of the
  loop; the error that ended it.
\<close>

datatype worker = Working bytes nat bytes | Finished bytes | Stopped fault

fun worker_step :: "(nat \<Rightarrow> bytes \<Rightarrow> (bytes \<times> bool) res) \<Rightarrow> worker \<Rightarrow> bool \<Rightarrow> worker \<times> bool" where
  "worker_step f (Working filled idx rest) success =
     (if length rest < PAGE_SIZE then (Finished (filled @ rest), success)
      else case f idx (take PAGE_SIZE rest) of
          Inl e \<Rightarrow> (Stopped e, success)
        | Inr (slot, found) \<Rightarrow> (Working (filled @ slot) (idx + 1) (drop PAGE_SIZE rest), success \<and> found))"
| "worker_step f w success = (w, success)"

fun joinable :: "worker \<Rightarrow> bool" where
  "joinable (Working filled idx rest) = False"
| "joinable w = True"

text \<open>The threads of \<open>n\<close> workers.\<close>

definition workers_step ::
  "(nat \<Rightarrow> bytes \<Rightarrow> (bytes \<times> bool) res) \<Rightarrow> nat \<Rightarrow> bool \<times> (nat \<Rightarrow> worker) \<Rightarrow> bool \<times> (nat \<Rightarrow> worker) \<Rightarrow> bool" where
  "workers_step f n = pool_step (\<lambda>i. worker_step f) joinable {..<n}"

text \<open>What a joined handle gives.\<close>

fun handle :: "worker \<Rightarrow> (bytes \<times> bool) res" where
  "handle (Stopped e) = Inl e"
| "handle (Finished region) = Inr (region, True)"
| "handle (Working filled idx rest) = Inr (filled @ rest, True)"

definition cut_work :: "nat \<Rightarrow> nat \<Rightarrow> bytes \<Rightarrow> (nat \<times> bytes) list \<times> bytes" where
  "cut_work worker_count pages out = split_work worker_count pages ((pages + worker_count - 1) div worker_count) 0 out"

definition spawn_workers :: "(nat \<times> bytes) list \<Rightarrow> nat \<Rightarrow> worker" where
  "spawn_workers starts i = (case starts ! i of (idx, region) \<Rightarrow> Working [] idx region)"

text \<open>The end of the scope: the handles are joined in order, then the flag is read.\<close>

definition join_scope :: "nat \<Rightarrow> nat \<Rightarrow> bytes \<Rightarrow> bool \<times> (nat \<Rightarrow> worker) \<Rightarrow> (bytes \<times> bool) res" where
  "join_scope worker_count pages out = (\<lambda>(success, ws).
     case cut_work worker_count pages out of (starts, left) \<Rightarrow>
       rbind (join_workers (map (handle \<circ> ws) [0..<length starts])) (\<lambda>(filled, _). Inr (filled @ left, success)))"

section \<open>What a step keeps\<close>

text \<open>The result a worker is on its way to, given whether it has found all pages so far.\<close>

fun outlook :: "(nat \<Rightarrow> bytes \<Rightarrow> (bytes \<times> bool) res) \<Rightarrow> worker \<Rightarrow> bool \<Rightarrow> (bytes \<times> bool) res" where
  "outlook f (Working filled idx rest) found =
     rbind (fill_slice f idx rest) (\<lambda>(region, all_found). Inr (filled @ region, found \<and> all_found))"
| "outlook f (Finished region) found = Inr (region, found)"
| "outlook f (Stopped e) found = Inl e"

lemma outlook_step:
  assumes "worker_step f w s = (w', s')"
  shows "\<exists>b. s' = (s \<and> b) \<and> outlook f w' (g \<and> b) = outlook f w g"
proof (cases w)
  case (Working filled idx rest)
  show ?thesis
  proof (cases "length rest < PAGE_SIZE")
    case True
    with assms Working show ?thesis by (auto simp: fill_slice_short intro!: exI [of _ True])
  next
    case False
    note fill = fill_slice.simps [of f idx rest]
    show ?thesis
    proof (cases "f idx (take PAGE_SIZE rest)")
      case (Inl e)
      with assms Working False fill show ?thesis by (auto intro!: exI [of _ True])
    next
      case (Inr x)
      obtain slot found where x: "x = (slot, found)" by fastforce
      have "w' = Working (filled @ slot) (idx + 1) (drop PAGE_SIZE rest)" "s' = (s \<and> found)"
        using assms Working False Inr x by auto
      moreover have "fill_slice f idx rest = rbind (fill_slice f (idx + 1) (drop PAGE_SIZE rest))
          (\<lambda>(region, all_found). Inr (slot @ region, found \<and> all_found))"
        using False Inr x fill by simp
      ultimately show ?thesis
        by (intro exI [of _ found]) (simp add: Working rbind_assoc split_def conj_assoc)
    qed
  qed
next
  case (Finished region)
  with assms show ?thesis by (intro exI [of _ True]) simp
next
  case (Stopped e)
  with assms show ?thesis by (intro exI [of _ True]) simp
qed

text \<open>The flag says whether all workers have found all pages so far.\<close>

definition workers_inv :: "(nat \<Rightarrow> bytes \<Rightarrow> (bytes \<times> bool) res) \<Rightarrow> (nat \<times> bytes) list \<Rightarrow> bool \<Rightarrow> (nat \<Rightarrow> worker) \<Rightarrow> bool" where
  "workers_inv f starts success ws \<longleftrightarrow>
     (\<exists>gs. success = (\<forall>i < length starts. gs i) \<and>
        (\<forall>i < length starts. outlook f (ws i) (gs i) = (case starts ! i of (idx, region) \<Rightarrow> fill_slice f idx region)))"

lemma workers_inv_step:
  assumes "i < length starts" "workers_inv f starts s ws" "worker_step f (ws i) s = (w, s')"
  shows "workers_inv f starts s' (ws(i := w))"
proof -
  obtain gs where gs: "s = (\<forall>i < length starts. gs i)"
    "\<forall>i < length starts. outlook f (ws i) (gs i) = (case starts ! i of (idx, region) \<Rightarrow> fill_slice f idx region)"
    using assms(2) unfolding workers_inv_def by blast
  obtain b where b: "s' = (s \<and> b)" "outlook f w (gs i \<and> b) = outlook f (ws i) (gs i)"
    using outlook_step [OF assms(3)] by blast
  have "s' = (\<forall>j < length starts. (gs(i := gs i \<and> b)) j)" unfolding b(1) gs(1) using assms(1) by auto
  moreover have "\<forall>j < length starts. outlook f ((ws(i := w)) j) ((gs(i := gs i \<and> b)) j) =
      (case starts ! j of (idx, region) \<Rightarrow> fill_slice f idx region)"
    using gs(2) assms(1) b(2) by simp
  ultimately show ?thesis unfolding workers_inv_def by blast
qed

lemma workers_inv_start: "workers_inv f starts True (spawn_workers starts)"
proof -
  have "outlook f (Working [] i region) True = fill_slice f i region" for i region
    by (simp add: rbind_def split: sum.split)
  then show ?thesis unfolding workers_inv_def spawn_workers_def
    by (intro exI [of _ "\<lambda>_. True"]) (simp split: prod.split)
qed

lemma workers_inv_run:
  assumes "(workers_step f (length starts))\<^sup>*\<^sup>* (True, spawn_workers starts) (success, ws)"
  shows "workers_inv f starts success ws"
proof -
  have "workers_inv f starts (fst (success, ws)) (snd (success, ws))"
    by (rule pool_inv [OF assms [unfolded workers_step_def], of "workers_inv f starts"])
      (simp_all add: workers_inv_start workers_inv_step)
  then show ?thesis by simp
qed

text \<open>Joined handles against the outlooks.\<close>

lemma join_handles:
  assumes "length gs = length ws" "\<forall>w \<in> set ws. joinable w"
  shows "join_workers (map2 (outlook f) ws gs) =
    rbind (join_workers (map handle ws)) (\<lambda>(filled, _). Inr (filled, \<forall>g \<in> set gs. g))"
  using assms
proof (induction ws gs rule: list_induct2')
  case (4 w ws g gs)
  have panic: "Inl Panic \<in> set (map2 (outlook f) ws gs) \<longleftrightarrow> Inl Panic \<in> set (map handle ws)"
    using 4(2,3)
  proof (induction ws gs rule: list_induct2')
    case (4 v vs h hs)
    then show ?case by (cases v) auto
  qed simp_all
  show ?case
  proof (cases w)
    case (Stopped e)
    with panic show ?thesis by simp
  next
    case (Finished region)
    with 4 show ?thesis by (auto simp: rbind_def split: sum.splits)
  next
    case (Working a b c)
    with 4(3) show ?thesis by simp
  qed
qed simp_all

section \<open>Steps left\<close>

fun pages_left :: "worker \<Rightarrow> nat" where
  "pages_left (Working filled idx rest) = length rest div PAGE_SIZE + 1"
| "pages_left w = 0"

lemma worker_step_left:
  assumes "\<not> joinable w" "worker_step f w s = (w', s')"
  shows "pages_left w' < pages_left w"
proof (cases w)
  case (Working filled idx rest)
  have "(length rest - PAGE_SIZE) div PAGE_SIZE < length rest div PAGE_SIZE" if "\<not> length rest < PAGE_SIZE"
    using that by (simp add: le_div_geq PAGE_SIZE_def)
  with assms Working show ?thesis by (auto split: if_splits sum.splits)
qed (use assms in auto)

interpretation load_threads: pool "\<lambda>i. worker_step f" joinable pages_left for f
  by unfold_locales (rule worker_step_left)

lemma spawned_left:
  assumes "cut_work worker_count pages out = (starts, left)"
  shows "(\<Sum>i < length starts. pages_left (spawn_workers starts i)) \<le> length out div PAGE_SIZE + worker_count"
proof -
  let ?left = "\<lambda>(i, region). length region div PAGE_SIZE + 1"
  have "sum_list (map ?left (fst (split_work workers pages ppw cursor rem))) \<le> length rem div PAGE_SIZE + workers"
    for workers ppw cursor and rem :: bytes
  proof (induction workers arbitrary: cursor rem)
    case (Suc workers)
    let ?t = "min ppw (pages - cursor) * PAGE_SIZE"
    have "length (take ?t rem) div PAGE_SIZE + length (drop ?t rem) div PAGE_SIZE \<le> length rem div PAGE_SIZE"
      using div_add1_eq [of "length (take ?t rem)" "length (drop ?t rem)" PAGE_SIZE]
      by (simp add: min_def split: if_splits)
    with Suc.IH [of "cursor + min ppw (pages - cursor)" "drop ?t rem"] show ?case by (simp add: Let_def split_def)
  qed simp
  from this [of worker_count "(pages + worker_count - 1) div worker_count" 0 out] assms
  have "sum_list (map ?left starts) \<le> length out div PAGE_SIZE + worker_count" by (simp add: cut_work_def)
  moreover have "(\<Sum>i < length starts. pages_left (spawn_workers starts i)) = sum_list (map ?left starts)"
    by (simp add: sum_list_sum_nth lessThan_atLeast0 spawn_workers_def split_def)
  ultimately show ?thesis by simp
qed

section \<open>Properties\<close>

text \<open>C14: the worker threads of a bulk load may run in any interleaving: after at most
  one step per page and worker all have ended, at any moment before that one of them can go
  on, and when none can, joining them and reading the shared flag gives what \<open>load_all_btree\<close>
  and \<open>load_all_scan\<close> return when the workers run one after the other: the same bytes, the
  same flag, and in case of errors the same one.\<close>

theorem workers_any_order:
  assumes "cut_work worker_count pages out = (starts, left)"
    and "(workers_step f (length starts) ^^ n) (True, spawn_workers starts) (success, ws)"
  shows "n \<le> length out div PAGE_SIZE + worker_count \<and>
    ((\<exists>y. workers_step f (length starts) (success, ws) y) \<or>
     join_scope worker_count pages out (success, ws) = run_workers f worker_count pages out)"
proof
  show "n \<le> length out div PAGE_SIZE + worker_count"
    using load_threads.run_bound [OF _ assms(2) [unfolded workers_step_def]] spawned_left [OF assms(1)] by simp
  let ?n = "length starts"
  obtain gs where gs: "success = (\<forall>i < ?n. gs i)"
    "\<forall>i < ?n. outlook f (ws i) (gs i) = (case starts ! i of (idx, region) \<Rightarrow> fill_slice f idx region)"
    using workers_inv_run [OF relpowp_imp_rtranclp [OF assms(2)]] unfolding workers_inv_def by blast
  have results: "map (\<lambda>(i, region). fill_slice f i region) starts = map2 (outlook f) (map ws [0..<?n]) (map gs [0..<?n])"
    by (rule nth_equalityI) (use gs(2) in \<open>auto simp: split_def\<close>)
  have all: "(\<forall>g \<in> set (map gs [0..<?n]). g) = success" by (auto simp: gs(1))
  from pool_step_or_end [of "\<lambda>i. worker_step f" joinable "{..<?n}" success ws]
  show "(\<exists>y. workers_step f ?n (success, ws) y) \<or>
      join_scope worker_count pages out (success, ws) = run_workers f worker_count pages out"
  proof
    assume "\<forall>i \<in> {..<?n}. joinable (ws i)"
    then have "\<forall>w \<in> set (map ws [0..<?n]). joinable w" by auto
    note join = join_handles [OF _ this, of "map gs [0..<?n]" f, unfolded all]
    have "join_scope worker_count pages out (success, ws) = run_workers f worker_count pages out"
      unfolding join_scope_def run_workers_def Let_def assms(1) prod.case assms(1) [unfolded cut_work_def] results
      using join by (simp add: rbind_assoc split_def)
    then show ?thesis ..
  qed (simp add: workers_step_def)
qed

text \<open>Two workers with a page each, of which the scan has found none.\<close>

definition no_store :: page_store where
  "no_store = \<lparr>ps_source = AppendOnlySource [] None, ps_blobs = (\<lambda>_. None), ps_mode = AppendOnly\<rparr>"

theorem workers_any_order_witness:
  "\<exists>n success ws starts. cut_work 2 2 (replicate (2 * PAGE_SIZE) 7) = (starts, []) \<and> length starts = 2 \<and>
     (workers_step (scan_slot Some no_store [None, None]) 2 ^^ n) (True, spawn_workers starts) (success, ws) \<and> n \<le> 4 \<and>
     join_scope 2 2 (replicate (2 * PAGE_SIZE) 7) (success, ws) =
       run_workers (scan_slot Some no_store [None, None]) 2 2 (replicate (2 * PAGE_SIZE) 7)"
proof -
  let ?f = "scan_slot Some no_store [None, None]" and ?out = "replicate (2 * PAGE_SIZE) (7 :: byte)"
  let ?starts = "[(0, replicate PAGE_SIZE 7), (1, replicate PAGE_SIZE 7)] :: (nat \<times> bytes) list"
  have "split_work (Suc (Suc 0)) 2 1 0 ?out = (?starts, [])" by (simp add: Let_def PAGE_SIZE_def)
  then have cut: "cut_work 2 2 ?out = (?starts, [])" by (simp add: cut_work_def flip: numeral_2_eq_2)
  obtain n success ws where run: "(workers_step ?f (length ?starts) ^^ n) (True, spawn_workers ?starts) (success, ws)"
    "\<forall>i \<in> {..<length ?starts}. joinable (ws i)"
    unfolding workers_step_def
    by (rule load_threads.run_ends [OF finite_lessThan, of ?f "length ?starts" "(True, spawn_workers ?starts)"])
  have "\<not> workers_step ?f (length ?starts) (success, ws) y" for y
    unfolding workers_step_def by (rule pool_end_stuck) (use run(2) in simp)
  with workers_any_order [OF cut run(1)]
  have end_of_run: "n \<le> 4" "join_scope 2 2 ?out (success, ws) = run_workers ?f 2 2 ?out" by (simp_all add: PAGE_SIZE_def)
  have two: "length ?starts = 2" by simp
  from cut two run(1) [unfolded two] end_of_run show ?thesis by blast
qed

end
