(* ===== verification/Readers.thy ===== *)
theory Readers
  imports Store
begin

text \<open>
  Readers of several processes and threads on one database and one shared cache
  (\<open>load_page\<close> of \<open>btree.rs\<close> over \<open>get\<close> and \<open>put\<close> of \<open>cache.rs\<close>), in any interleaving. A page
  of metadata is locked during \<open>get\<close> and during \<open>put\<close>, but not between them: after a miss a reader
  decompresses the page while others read and replace entries. A reader may be killed at any
  moment. The mutex is robust: the next process to lock it finds the owner dead and goes on.
\<close>

section \<open>A load in steps\<close>

type_synonym request = "cpu \<times> bytes \<times> u64 \<times> u32"

text \<open>
  Before the floor query; before \<open>get\<close>; after a miss; before \<open>put\<close>; inside \<open>put\<close>, with the writes
  still to do; with the answer; dead. Records come with the output buffer.
\<close>

datatype load_phase =
    Asking
  | Wanting chunk_record bytes
  | Fetching chunk_record bytes
  | Putting chunk_record bytes
  | Storing chunk_record bytes "cache_write list"
  | Answered "bytes option res"
  | Killed

text \<open>The key a record is looked up by: its own, or that of its base page.\<close>

definition cached_key :: "chunk_record \<Rightarrow> u64" where
  "cached_key rec = (if r_kind rec = Delta then r_base_key rec else r_key rec)"

definition fetch :: "decoder \<Rightarrow> page_store \<Rightarrow> chunk_record \<Rightarrow> bytes \<Rightarrow> bytes res" where
  "fetch zd st rec out =
     (if r_kind rec = Delta then rbind (lookup_base st (r_base_key rec)) (\<lambda>b. decompress_blob_into zd st b out)
      else decompress_blob_into zd st rec out)"

definition finish_load :: "page_store \<Rightarrow> chunk_record \<Rightarrow> bytes \<Rightarrow> bytes option res" where
  "finish_load st rec out =
     (if r_kind rec = Delta
      then rbind (delta_blob_of st rec) (\<lambda>d. rbind (apply_delta_patch_in_place d out) (\<lambda>p. Inr (Some p)))
      else Inr (Some out))"

fun load_step :: "decoder \<Rightarrow> page_store \<Rightarrow> request \<Rightarrow> load_phase \<Rightarrow> shared_cache \<Rightarrow> load_phase \<times> shared_cache" where
  "load_step zd st (cpu, out, pa, s) Asking c =
     (if MAX_SNAPSHOT_ID < s then Answered (Inl (IoErr InvalidInput))
      else case store_floor st pa s of
          Inl e \<Rightarrow> Answered (Inl e)
        | Inr None \<Rightarrow> Answered (Inr None)
        | Inr (Some rec) \<Rightarrow>
            if r_kind rec = Zero then Answered (Inr (Some (replicate PAGE_SIZE 0))) else Wanting rec out, c)"
| "load_step zd st (cpu, out, pa, s) (Wanting rec buf) c =
     (case cache_get cpu c (cached_key rec) buf of
        (hit, buf, c) \<Rightarrow> (if hit then Answered (finish_load st rec buf) else Fetching rec buf, c))"
| "load_step zd st (cpu, out, pa, s) (Fetching rec buf) c =
     (case fetch zd st rec buf of Inl e \<Rightarrow> Answered (Inl e) | Inr page \<Rightarrow> Putting rec page, c)"
| "load_step zd st (cpu, out, pa, s) (Putting rec page) c = (Storing rec page (put_writes cpu c (cached_key rec) page), c)"
| "load_step zd st (cpu, out, pa, s) (Storing rec page (w # ws)) c = (Storing rec page ws, exec_write c w)"
| "load_step zd st (cpu, out, pa, s) (Storing rec page []) c = (Answered (finish_load st rec page), c)"
| "load_step zd st req p c = (p, c)"

text \<open>
  The lock of a key is that of its metadata page; \<open>get\<close> and \<open>put\<close> of the empty key take none. A
  \<open>get\<close> takes its lock, reads and releases it in one step, which no step of another process on
  that page could come between; a \<open>put\<close> holds it until its writes are done.
\<close>

definition lock_of :: "u64 \<Rightarrow> nat option" where
  "lock_of key = (if key = EMPTY_KEY then None else Some (fst (locate key)))"

fun takes :: "load_phase \<Rightarrow> nat option" where
  "takes (Wanting rec buf) = lock_of (cached_key rec)"
| "takes (Putting rec page) = lock_of (cached_key rec)"
| "takes p = None"

fun holds :: "load_phase \<Rightarrow> nat option" where
  "holds (Storing rec page ws) = lock_of (cached_key rec)"
| "holds p = None"

fun load_ended :: "load_phase \<Rightarrow> bool" where
  "load_ended (Answered r) = True"
| "load_ended Killed = True"
| "load_ended p = False"

definition can_go :: "nat \<Rightarrow> (nat \<Rightarrow> load_phase) \<Rightarrow> nat \<Rightarrow> bool" where
  "can_go n ph i \<longleftrightarrow> \<not> load_ended (ph i) \<and> (\<forall>j < n. takes (ph i) \<noteq> None \<longrightarrow> holds (ph j) \<noteq> takes (ph i))"

text \<open>
  What the cache is when a process is killed: as it was, or with the ages of a set half updated;
  or, which is the window, with a page half copied, or copied and its way not yet renamed.
\<close>

inductive killed_in :: "bool \<Rightarrow> load_phase \<Rightarrow> shared_cache \<Rightarrow> shared_cache \<Rightarrow> bool" where
  quiet: "\<not> (\<exists>rec page m s w k ws. p = Storing rec page (SetId m s w k # ws)) \<Longrightarrow> killed_in window p c c"
| in_get: "cached_key rec \<noteq> EMPTY_KEY \<Longrightarrow> locate (cached_key rec) = (m, s) \<Longrightarrow>
    cut_short (TouchWay m s w) c c' \<Longrightarrow> killed_in window (Wanting rec buf) c c'"
| in_ages: "cut_short (TouchWay m s w) c c' \<Longrightarrow> killed_in window (Storing rec page (TouchWay m s w # ws)) c c'"
| in_copy: "cut_short (CopyPage m s w b) c c' \<Longrightarrow> killed_in True (Storing rec page (CopyPage m s w b # ws)) c c'"
| not_renamed: "killed_in True (Storing rec page (SetId m s w k # ws)) c c"

text \<open>
  Readers on one cache; \<open>window\<close> says whether one may be killed in the window. A process killed
  inside \<open>get\<close> had its lock.
\<close>

inductive readers_step ::
  "bool \<Rightarrow> decoder \<Rightarrow> page_store \<Rightarrow> request list \<Rightarrow> shared_cache \<times> (nat \<Rightarrow> load_phase) \<Rightarrow>
     shared_cache \<times> (nat \<Rightarrow> load_phase) \<Rightarrow> bool"
  for window zd st reqs where
  go: "i < length reqs \<Longrightarrow> can_go (length reqs) ph i \<Longrightarrow> load_step zd st (reqs ! i) (ph i) c = (p, c') \<Longrightarrow>
    readers_step window zd st reqs (c, ph) (c', ph(i := p))"
| die: "i < length reqs \<Longrightarrow> \<not> load_ended (ph i) \<Longrightarrow> killed_in window (ph i) c c' \<Longrightarrow> c' = c \<or> can_go (length reqs) ph i \<Longrightarrow>
    readers_step window zd st reqs (c, ph) (c', ph(i := Killed))"

inductive_cases readers_stepE: "readers_step window zd st reqs x y"

text \<open>A reader alone runs \<open>load_page\<close>.\<close>

definition alone :: "decoder \<Rightarrow> page_store \<Rightarrow> request \<Rightarrow> load_phase \<times> shared_cache \<Rightarrow> load_phase \<times> shared_cache" where
  "alone zd st req = (\<lambda>(p, c). load_step zd st req p c)"

lemma alone_storing:
  "(alone zd st req ^^ (length ws + 1)) (Storing rec page ws, c) = (Answered (finish_load st rec page), foldl exec_write c ws)"
proof (induction ws arbitrary: c)
  case Nil
  then show ?case by (cases req) (simp add: alone_def)
next
  case (Cons w ws)
  have "alone zd st req (Storing rec page (w # ws), c) = (Storing rec page ws, exec_write c w)"
    by (cases req) (simp add: alone_def)
  with Cons show ?case by (simp add: funpow_swap1)
qed

lemma alone_then: "(alone zd st req ^^ n) (alone zd st req x) = y \<Longrightarrow> \<exists>n. (alone zd st req ^^ n) x = y"
  by (intro exI [of _ "Suc n"]) (simp add: funpow_swap1)

lemma load_alone:
  assumes "load_page cpu zd \<lparr>bd_store = st, bd_cache = Some c\<rparr> out pa s = (r, db)"
  shows "\<exists>n. (alone zd st (cpu, out, pa, s) ^^ n) (Asking, c) = (Answered r, the (bd_cache db))"
proof -
  let ?run = "alone zd st (cpu, out, pa, s)"
  have ask: "\<exists>n. (?run ^^ n) (Asking, c) = y" if "(?run ^^ n) (load_step zd st (cpu, out, pa, s) Asking c) = y" for n y
    by (rule alone_then [of n]) (use that in \<open>simp add: alone_def del: load_step.simps\<close>)
  show ?thesis
  proof (cases "MAX_SNAPSHOT_ID < s \<or> (\<forall>rec. store_floor st pa s = Inr (Some rec) \<longrightarrow> r_kind rec = Zero)")
    case True
    with assms show ?thesis
      by (intro ask [of 0]) (auto simp: load_page_def resolve_cached_def split: sum.splits option.splits)
  next
    case False
    then obtain rec where rec: "store_floor st pa s = Inr (Some rec)" "r_kind rec \<noteq> Zero" and s: "\<not> MAX_SNAPSHOT_ID < s" by auto
    obtain hit o1 c1 where get: "cache_get cpu c (cached_key rec) out = (hit, o1, c1)" by (metis prod_cases3)
    have load: "(r, db) = (case (if hit then (Inr o1, Some c1)
          else case fetch zd st rec o1 of Inl e \<Rightarrow> (Inl e, Some c1) | Inr p \<Rightarrow> (Inr p, Some (cache_put cpu c1 (cached_key rec) p))) of
        (q, c') \<Rightarrow> (rbind q (finish_load st rec), \<lparr>bd_store = st, bd_cache = c'\<rparr>))"
      using assms rec s get
      by (cases "r_kind rec"; cases hit; cases "fetch zd st rec o1")
        (auto simp: load_page_def resolve_cached_def load_full_cached_def opt_get_def opt_put_def cached_key_def
          fetch_def finish_load_def [abs_def] rbind_assoc)
    have want: "\<exists>n. (?run ^^ n) (Asking, c) = y"
      if "(?run ^^ n) (if hit then Answered (finish_load st rec o1) else Fetching rec o1, c1) = y" for n y
      by (rule ask [of "Suc n"]) (use rec s get that in \<open>simp add: funpow_swap1 alone_def\<close>)
    show ?thesis
    proof (cases hit)
      case True
      with load show ?thesis by (intro want [of 0]) simp
    next
      case miss: False
      show ?thesis
      proof (cases "fetch zd st rec o1")
        case (Inl e)
        with miss load show ?thesis by (intro want [of 1]) (simp add: alone_def)
      next
        case (Inr page)
        let ?ws = "put_writes cpu c1 (cached_key rec) page"
        have "(?run ^^ Suc (Suc (length ?ws + 1))) (Fetching rec o1, c1) = (Answered (finish_load st rec page), foldl exec_write c1 ?ws)"
          using alone_storing [of ?ws zd st "(cpu, out, pa, s)" rec page c1] Inr
          by (simp only: funpow_Suc_right comp_apply) (simp add: alone_def)
        with miss Inr load show ?thesis by (intro want [of "Suc (Suc (length ?ws + 1))"]) (simp add: cache_put_def)
      qed
    qed
  qed
qed

section \<open>What a step keeps\<close>

definition asked_for :: "page_store \<Rightarrow> u64 \<Rightarrow> u32 \<Rightarrow> chunk_record \<Rightarrow> bool" where
  "asked_for st pa s rec \<longleftrightarrow> s \<le> MAX_SNAPSHOT_ID \<and> store_floor st pa s = Inr (Some rec) \<and> r_kind rec \<noteq> Zero"

lemma fetch_content:
  assumes "store_ok st" "asked_for st pa s rec" "length out = PAGE_SIZE"
  shows "fetch zd st rec out = Inr p \<longleftrightarrow> store_content zd st (cached_key rec) p"
proof -
  have floor: "store_floor st pa s = Inr (floor_answer (store_records st) (encode_key pa s) pa)"
    using store_query [OF assms(1), of pa s] by simp
  then have "rec \<in> set (store_records st)" using assms(2) floor_answer_in by (auto simp: asked_for_def)
  then have "exact_lookup st (r_key rec) = Inr (Some rec)" by (rule store.exact_hit [OF assms(1)])
  with assms(2,3) show ?thesis
    by (cases "r_kind rec = Delta")
      (auto simp: fetch_def cached_key_def decompress_eq store_content_base,
        auto simp: asked_for_def store_content_def rbind_eq_Inr_iff lookup_base_Full intro: chunk_kind.exhaust [of "r_kind rec"])
qed

lemma read_page_fetch:
  assumes "asked_for st pa s rec" "length out = PAGE_SIZE"
  shows "read_page zd st pa s = rbind (fetch zd st rec out) (finish_load st rec)"
  using assms
  by (cases "r_kind rec")
    (auto simp: read_page_def asked_for_def fetch_def finish_load_def [abs_def] page_of_def resolve_uncached_def decompress_eq
      rbind_assoc)

text \<open>A \<open>put\<close> on its way: its writes aim at a way that is free for the key.\<close>

definition storing :: "shared_cache \<Rightarrow> u64 \<Rightarrow> bytes \<Rightarrow> cache_write list \<Rightarrow> bool" where
  "storing c key page ws \<longleftrightarrow>
     (if key = EMPTY_KEY then ws = []
      else \<exists>w. case locate key of (m, s) \<Rightarrow>
        w < WAYS_PER_SET \<and> length page = CACHE_PAGE_SIZE \<and>
        (key \<notin> set (page_ids (sc_sets c m s)) \<or> page_ids (sc_sets c m s) ! w = key) \<and>
        (ws = [CopyPage m s w page, SetId m s w key, TouchWay m s w] \<or>
         ws = [SetId m s w key, TouchWay m s w] \<and> sc_data c (global_slot m s w) = page \<or>
         ws = [TouchWay m s w] \<or> ws = []))"

fun load_phase_ok :: "decoder \<Rightarrow> page_store \<Rightarrow> request \<Rightarrow> load_phase \<Rightarrow> shared_cache \<Rightarrow> bool" where
  "load_phase_ok zd st (cpu, out, pa, s) Asking c \<longleftrightarrow> length out = PAGE_SIZE"
| "load_phase_ok zd st (cpu, out, pa, s) (Wanting rec buf) c \<longleftrightarrow> asked_for st pa s rec \<and> length buf = PAGE_SIZE"
| "load_phase_ok zd st (cpu, out, pa, s) (Fetching rec buf) c \<longleftrightarrow> asked_for st pa s rec \<and> length buf = PAGE_SIZE"
| "load_phase_ok zd st (cpu, out, pa, s) (Putting rec page) c \<longleftrightarrow>
     store_content zd st (cached_key rec) page \<and> read_page zd st pa s = finish_load st rec page"
| "load_phase_ok zd st (cpu, out, pa, s) (Storing rec page ws) c \<longleftrightarrow>
     store_content zd st (cached_key rec) page \<and> read_page zd st pa s = finish_load st rec page \<and> storing c (cached_key rec) page ws"
| "load_phase_ok zd st (cpu, out, pa, s) (Answered r) c \<longleftrightarrow> r = read_page zd st pa s"
| "load_phase_ok zd st req Killed c = True"

text \<open>The key whose page a \<open>put\<close> has overwritten and whose way it has not renamed yet.\<close>

fun torn_key :: "shared_cache \<Rightarrow> load_phase \<Rightarrow> u64 \<Rightarrow> bool" where
  "torn_key c (Storing rec page (SetId m s w k # ws)) key \<longleftrightarrow>
     key \<noteq> EMPTY_KEY \<and> locate key = (m, s) \<and> position key (page_ids (sc_sets c m s)) = Some w"
| "torn_key c p key = False"

text \<open>Only the sets of one metadata page, and their slots, differ.\<close>

definition untouched :: "nat option \<Rightarrow> shared_cache \<Rightarrow> shared_cache \<Rightarrow> bool" where
  "untouched l c c' \<longleftrightarrow> (\<forall>m s. Some m \<noteq> l \<longrightarrow> page_ids (sc_sets c' m s) = page_ids (sc_sets c m s) \<and>
     (\<forall>w. s < SETS_PER_META \<longrightarrow> w < WAYS_PER_SET \<longrightarrow> sc_data c' (global_slot m s w) = sc_data c (global_slot m s w)))"

lemma untouched_refl [simp]: "untouched l c c"
  by (simp add: untouched_def)

lemma untouched_ages: "untouched l c (upd_set c m s ((sc_sets c m s)\<lparr>timestamps := ts\<rparr>))"
  by (simp add: untouched_def)

lemma untouched_get:
  "cache_get cpu c k out = (hit, out', c') \<Longrightarrow> untouched l c c'"
  using cache_get_state [of cpu c k out] by (auto simp: untouched_def)

lemma storing_frame:
  assumes "storing c key page ws" "untouched l c c'" "lock_of key \<noteq> l \<or> key = EMPTY_KEY"
  shows "storing c' key page ws"
proof (cases "key = EMPTY_KEY")
  case False
  obtain m s where ms: "locate key = (m, s)" by fastforce
  have "Some m \<noteq> l" using assms(3) False ms by (auto simp: lock_of_def)
  then have "page_ids (sc_sets c' m s) = page_ids (sc_sets c m s)"
    "w < WAYS_PER_SET \<Longrightarrow> sc_data c' (global_slot m s w) = sc_data c (global_slot m s w)" for w
    using assms(2) locate_bounds(2) [OF ms] by (auto simp: untouched_def)
  with assms(1) False ms show ?thesis unfolding storing_def by auto
qed (use assms in \<open>simp add: storing_def\<close>)

text \<open>A torn way is in the page its \<open>put\<close> has locked.\<close>

lemma torn_lock:
  assumes "torn_key c p key" "load_phase_ok zd st req p c"
  shows "holds p = Some (fst (locate key)) \<and> key \<noteq> EMPTY_KEY"
proof -
  obtain cpu out pa s0 where "req = (cpu, out, pa, s0)" by (cases req)
  with assms show ?thesis
    by (cases "(c, p, key)" rule: torn_key.cases) (auto simp: storing_def lock_of_def split_def split: if_splits)
qed

lemma torn_frame:
  assumes "torn_key c p key" "load_phase_ok zd st req p c" "untouched l c c'" "holds p \<noteq> l"
  shows "torn_key c' p key"
  using assms(1) torn_lock [OF assms(1,2)] assms(3,4)
  by (cases "(c, p, key)" rule: torn_key.cases) (auto simp: untouched_def)

lemma load_phase_frame:
  assumes "load_phase_ok zd st req p c" "untouched l c c'" "holds p = None \<or> holds p \<noteq> l"
  shows "load_phase_ok zd st req p c'"
proof -
  obtain cpu out pa s where "req = (cpu, out, pa, s)" by (cases req)
  with assms show ?thesis
    by (cases p) (auto intro: storing_frame simp: lock_of_def split: if_splits)
qed

section \<open>One reader moves\<close>

text \<open>
  A step of one reader: its phase and the cache stay well formed, only what it has locked
  changes, and a key that is found afterwards has the content of the store, or is torn by this
  reader, or was found before and was not torn by it.
\<close>

definition moves_ok :: "decoder \<Rightarrow> page_store \<Rightarrow> request \<Rightarrow> load_phase \<Rightarrow> shared_cache \<Rightarrow> load_phase \<Rightarrow> shared_cache \<Rightarrow> bool" where
  "moves_ok zd st req p c p' c' \<longleftrightarrow>
     load_phase_ok zd st req p' c' \<and> cache_ok c' \<and> untouched (holds p) c c' \<and>
     (holds p' = None \<or> holds p' = holds p \<or> holds p' = takes p) \<and>
     (\<forall>key q. cache_lookup c' key = Some q \<longrightarrow>
        store_content zd st key q \<or> torn_key c' p' key \<or> cache_lookup c key = Some q \<and> \<not> torn_key c p key)"

lemma store_content_length: "store_content zd st k p \<Longrightarrow> length p = CACHE_PAGE_SIZE"
  using full_page_length by (auto simp: store_content_def CACHE_PAGE_SIZE_eq)

lemma storing_start:
  assumes "cache_ok c" "length page = CACHE_PAGE_SIZE"
  shows "storing c key page (put_writes cpu c key page)"
proof (cases "key = EMPTY_KEY")
  case False
  obtain m s where ms: "locate key = (m, s)" by fastforce
  from put_way_fits(3,4) [OF assms(1) ms refl] False ms assms(2) show ?thesis
    by (auto simp: storing_def put_writes_def Let_def)
qed (simp add: storing_def put_writes_def)

lemma move_write:
  assumes ok: "cache_ok c" and phase: "load_phase_ok zd st req (Storing rec page (w # ws)) c"
  shows "moves_ok zd st req (Storing rec page (w # ws)) c (Storing rec page ws) (exec_write c w)"
proof -
  let ?key = "cached_key rec"
  obtain cpu out pa s0 where req: "req = (cpu, out, pa, s0)" by (cases req)
  have content: "store_content zd st ?key page" "read_page zd st pa s0 = finish_load st rec page"
    and put: "storing c ?key page (w # ws)" using phase req by simp_all
  have key: "?key \<noteq> EMPTY_KEY" using put by (auto simp: storing_def)
  obtain m s where ms: "locate ?key = (m, s)" by fastforce
  note bounds = locate_bounds [OF ms]
  obtain v where v: "v < WAYS_PER_SET" "length page = CACHE_PAGE_SIZE"
    "?key \<notin> set (page_ids (sc_sets c m s)) \<or> page_ids (sc_sets c m s) ! v = ?key"
    "w # ws = [CopyPage m s v page, SetId m s v ?key, TouchWay m s v] \<or>
     w # ws = [SetId m s v ?key, TouchWay m s v] \<and> sc_data c (global_slot m s v) = page \<or>
     w # ws = [TouchWay m s v]"
    using put key ms by (auto simp: storing_def)
  have holds: "holds (Storing rec page vs) = Some m" for vs using key ms by (simp add: lock_of_def)
  have set: "set_ok (sc_sets c m s)" by (rule cache_okD(1) [OF ok ms])
  from v(4) show ?thesis
  proof (elim disjE conjE)
    assume w: "w # ws = [CopyPage m s v page, SetId m s v ?key, TouchWay m s v]"
    then have eqs: "w = CopyPage m s v page" "ws = [SetId m s v ?key, TouchWay m s v]" by simp_all
    have "untouched (Some m) c (exec_write c w)"
      using global_slot_inject bounds(2) v(1) unfolding eqs untouched_def by simp
    moreover have "storing (exec_write c w) ?key page ws" using key ms v(1-3) by (simp add: storing_def eqs)
    moreover have "sc_sets (exec_write c (CopyPage m s v page)) = sc_sets c" by simp
    ultimately show ?thesis
      using write_page [OF ok bounds v(1,2)] content req write_page_lookup [OF ok bounds(2) v(1), of m page]
      unfolding moves_ok_def holds by (simp add: eqs del: exec_write.simps)
  next
    assume w: "w # ws = [SetId m s v ?key, TouchWay m s v]" and data: "sc_data c (global_slot m s v) = page"
    then have eqs: "w = SetId m s v ?key" "ws = [TouchWay m s v]" by simp_all
    have "untouched (Some m) c (exec_write c w)" unfolding eqs untouched_def by simp
    moreover have "v < length (page_ids (sc_sets c m s))" using set v(1) by (simp add: set_ok_def)
    then have "storing (exec_write c w) ?key page ws" using key ms v(1,2) by (simp add: storing_def eqs)
    ultimately show ?thesis
      using write_id [OF ok ms v(1,3)] content req data write_id_lookup [OF set ms v(1) key v(3)]
      unfolding moves_ok_def holds by (simp add: eqs del: exec_write.simps)
  next
    assume w: "w # ws = [TouchWay m s v]"
    then have eqs: "w = TouchWay m s v" "ws = []" by simp_all
    have "untouched (Some m) c (exec_write c w)" unfolding eqs untouched_def by simp
    moreover have "storing (exec_write c w) ?key page ws" using key ms v(1-3) by (auto simp: storing_def eqs intro!: exI [of _ v])
    ultimately show ?thesis
      using cache_ok_touch [OF ok] lookup_touch content req
      unfolding moves_ok_def holds by (simp add: eqs)
  qed
qed

text \<open>A lookup that hits gets the content of the store, if no \<open>put\<close> is under way in its set page.\<close>

lemma move_get:
  assumes store: "store_ok st" and ok: "cache_ok c" and phase: "load_phase_ok zd st req (Wanting rec buf) c"
    and clean: "\<And>q. cache_lookup c (cached_key rec) = Some q \<Longrightarrow> store_content zd st (cached_key rec) q"
    and step: "load_step zd st req (Wanting rec buf) c = (p', c')"
  shows "moves_ok zd st req (Wanting rec buf) c p' c'"
proof -
  obtain cpu out pa s where req: "req = (cpu, out, pa, s)" by (cases req)
  have rec: "asked_for st pa s rec" and buf: "length buf = PAGE_SIZE" using phase req by simp_all
  obtain hit o1 c1 where get: "cache_get cpu c (cached_key rec) buf = (hit, o1, c1)" by (metis prod_cases3)
  have state: "cache_ok c1" "cache_lookup c1 = cache_lookup c" using shm.get_state [OF ok get] by blast+
  have frame: "untouched None c c1" by (rule untouched_get [OF get])
  show ?thesis
  proof (cases hit)
    case True
    with get have "fetch zd st rec buf = Inr o1"
      using clean shm.get_hit [OF ok] fetch_content [OF store rec buf] by simp
    then have "finish_load st rec o1 = read_page zd st pa s" using read_page_fetch [OF rec buf, of zd] by simp
    with True step req get state frame show ?thesis by (auto simp: moves_ok_def)
  next
    case False
    with get have "cache_get cpu c (cached_key rec) buf = (False, o1, c1)" by simp
    then have "o1 = buf" using shm.get_miss [OF ok] by blast
    with False step req get state frame rec buf show ?thesis by (auto simp: moves_ok_def)
  qed
qed

lemma move_step:
  assumes store: "store_ok st" and ok: "cache_ok c" and phase: "load_phase_ok zd st req p c"
    and clean: "\<And>rec buf q. p = Wanting rec buf \<Longrightarrow> cache_lookup c (cached_key rec) = Some q \<Longrightarrow> store_content zd st (cached_key rec) q"
    and step: "load_step zd st req p c = (p', c')"
  shows "moves_ok zd st req p c p' c'"
proof -
  obtain cpu out pa s where req: "req = (cpu, out, pa, s)" by (cases req)
  show ?thesis
  proof (cases p)
    case Asking
    then have same: "c' = c" "length out = PAGE_SIZE" using step phase req by simp_all
    have p': "p' = fst (load_step zd st (cpu, out, pa, s) Asking c)" using step Asking req by (simp del: load_step.simps)
    have asked: "load_phase_ok zd st (cpu, out, pa, s) p' c \<and> holds p' = None \<and> (\<forall>k. \<not> torn_key c p' k)"
    proof (cases "MAX_SNAPSHOT_ID < s")
      case True
      with p' show ?thesis by (simp add: read_page_def)
    next
      case snap: False
      show ?thesis
      proof (cases "store_floor st pa s")
        case (Inl e)
        with p' snap show ?thesis by (simp add: read_page_def)
      next
        case (Inr r)
        show ?thesis
        proof (cases r)
          case None
          with p' snap Inr show ?thesis by (simp add: read_page_def)
        next
          case (Some rec)
          with p' snap Inr same(2) show ?thesis
            by (cases "r_kind rec = Zero") (simp_all add: read_page_def asked_for_def page_of_def resolve_uncached_def not_less)
        qed
      qed
    qed
    from asked have parts: "load_phase_ok zd st (cpu, out, pa, s) p' c" "holds p' = None" "\<And>k. \<not> torn_key c p' k" by blast+
    show ?thesis unfolding moves_ok_def Asking same(1) req
      by (intro conjI allI impI disjI2 untouched_refl parts(1) ok) (simp_all add: parts(2))
  next
    case (Wanting rec buf)
    show ?thesis unfolding Wanting
      by (rule move_get [OF store ok phase [unfolded Wanting] clean [OF Wanting] step [unfolded Wanting]])
  next
    case (Fetching rec buf)
    then have rec: "asked_for st pa s rec" and buf: "length buf = PAGE_SIZE" using phase req by simp_all
    show ?thesis
      using step Fetching req ok read_page_fetch [OF rec buf, of zd] fetch_content [OF store rec buf]
      by (cases "fetch zd st rec buf") (auto simp: moves_ok_def)
  next
    case (Putting rec page)
    with phase req have content: "store_content zd st (cached_key rec) page" by simp
    note start = storing_start [OF ok store_content_length [OF content], of "cached_key rec" cpu]
    have p': "p' = Storing rec page (put_writes cpu c (cached_key rec) page)" "c' = c" using step Putting req by auto
    have "\<not> torn_key c p' k" for k by (simp add: p' put_writes_def Let_def split: prod.split)
    with p' start Putting phase req ok show ?thesis by (simp add: moves_ok_def)
  next
    case (Storing rec page ws)
    show ?thesis
    proof (cases ws)
      case Nil
      with Storing step phase req ok show ?thesis by (auto simp: moves_ok_def)
    next
      case (Cons w ws')
      with Storing step req have "p' = Storing rec page ws'" "c' = exec_write c w" by simp_all
      with move_write [OF ok] phase Storing Cons show ?thesis by simp
    qed
  qed (use step phase req ok in \<open>auto simp: moves_ok_def\<close>)
qed

lemma move_killed:
  assumes ok: "cache_ok c" and phase: "load_phase_ok zd st req p c" and kill: "killed_in False p c c'"
  shows "moves_ok zd st req p c Killed c'"
proof -
  have ages: "moves_ok zd st req p c Killed c'" if "cut_short (TouchWay m s w) c c'" "\<And>k. \<not> torn_key c p k" for m s w
    using cut_short_same(2,3) [OF that(1)] ok that untouched_ages
    by (cases req) (auto simp: moves_ok_def elim!: cut_shortE)
  from kill show ?thesis
  proof cases
    case quiet
    have "\<not> torn_key c p k" for k using quiet(2) by (cases "(c, p, k)" rule: torn_key.cases) auto
    with ok quiet(1) show ?thesis by (cases req) (simp add: moves_ok_def)
  qed (use ages in auto)
qed

section \<open>All readers\<close>

definition readers_inv :: "decoder \<Rightarrow> page_store \<Rightarrow> request list \<Rightarrow> shared_cache \<Rightarrow> (nat \<Rightarrow> load_phase) \<Rightarrow> bool" where
  "readers_inv zd st reqs c ph \<longleftrightarrow> cache_ok c \<and> (\<forall>i < length reqs. load_phase_ok zd st (reqs ! i) (ph i) c) \<and>
     (\<forall>i < length reqs. \<forall>j < length reqs. holds (ph i) \<noteq> None \<longrightarrow> holds (ph i) = holds (ph j) \<longrightarrow> i = j) \<and>
     (\<forall>key q. cache_lookup c key = Some q \<longrightarrow> store_content zd st key q \<or> (\<exists>i < length reqs. torn_key c (ph i) key))"

text \<open>A move of one reader keeps the invariant of all.\<close>

lemma readers_inv_move:
  assumes inv: "readers_inv zd st reqs c ph" and i: "i < length reqs"
    and move: "moves_ok zd st (reqs ! i) (ph i) c p c'"
    and lock: "\<forall>j < length reqs. takes (ph i) \<noteq> None \<longrightarrow> holds p = takes (ph i) \<longrightarrow> holds (ph j) \<noteq> takes (ph i)"
  shows "readers_inv zd st reqs c' (ph(i := p))"
proof -
  let ?n = "length reqs"
  have phases: "\<forall>j < ?n. load_phase_ok zd st (reqs ! j) (ph j) c"
    and mutex: "\<And>j k. j < ?n \<Longrightarrow> k < ?n \<Longrightarrow> holds (ph j) \<noteq> None \<Longrightarrow> holds (ph j) = holds (ph k) \<Longrightarrow> j = k"
    and content: "\<And>key q. cache_lookup c key = Some q \<Longrightarrow> store_content zd st key q \<or> (\<exists>j < ?n. torn_key c (ph j) key)"
    using inv unfolding readers_inv_def by blast+
  have other: "holds (ph j) = None \<or> holds (ph j) \<noteq> holds (ph i)" if "j < ?n" "j \<noteq> i" for j
    using mutex [OF that(1) i] that by blast
  have frame: "untouched (holds (ph i)) c c'" using move by (simp add: moves_ok_def)
  have a: "load_phase_ok zd st (reqs ! j) ((ph(i := p)) j) c'" if "j < ?n" for j
  proof (cases "j = i")
    case True
    with move show ?thesis by (simp add: moves_ok_def)
  next
    case False
    with load_phase_frame [OF _ frame other] phases that show ?thesis by simp
  qed
  have b: "j = k" if "j < ?n" "k < ?n" "holds ((ph(i := p)) j) \<noteq> None" "holds ((ph(i := p)) j) = holds ((ph(i := p)) k)" for j k
  proof -
    have new: "k' = i" if "k' < ?n" "holds p \<noteq> None" "holds p = holds (ph k')" for k'
    proof (cases "holds p = holds (ph i)")
      case True
      with mutex [OF i that(1)] that(2,3) show ?thesis by metis
    next
      case False
      with move that(2) have "holds p = takes (ph i)" unfolding moves_ok_def by blast
      with lock that show ?thesis by metis
    qed
    show ?thesis
    proof (cases "j = i \<or> k = i")
      case True
      with that new [of j] new [of k] show ?thesis by (metis fun_upd_apply)
    next
      case False
      with that mutex [of j k] show ?thesis by simp
    qed
  qed
  have d: "store_content zd st key q \<or> (\<exists>j < ?n. torn_key c' ((ph(i := p)) j) key)" if "cache_lookup c' key = Some q" for key q
  proof -
    from move that consider "store_content zd st key q" | "torn_key c' p key"
      | "cache_lookup c key = Some q" "\<not> torn_key c (ph i) key" unfolding moves_ok_def by blast
    then show ?thesis
    proof cases
      case 2
      with i show ?thesis by auto
    next
      case 3
      from content [OF 3(1)] show ?thesis
      proof
        assume "\<exists>j < ?n. torn_key c (ph j) key"
        then obtain j where j: "j < ?n" "torn_key c (ph j) key" by blast
        then have "j \<noteq> i" using 3(2) by blast
        moreover have phase: "load_phase_ok zd st (reqs ! j) (ph j) c" using phases j(1) by simp
        ultimately have "holds (ph j) \<noteq> holds (ph i)" using other [OF j(1)] torn_lock [OF j(2) phase] by force
        then have "torn_key c' (ph j) key" by (rule torn_frame [OF j(2) phase frame])
        with j(1) \<open>j \<noteq> i\<close> show ?thesis by (intro disjI2 exI [of _ j]) simp
      qed blast
    qed blast
  qed
  have "cache_ok c'" using move by (simp add: moves_ok_def)
  then show ?thesis unfolding readers_inv_def
    by (intro conjI allI impI) (assumption, erule a, rule b, assumption+, erule d)
qed

lemma readers_inv_step:
  assumes store: "store_ok st" and step: "readers_step False zd st reqs (c, ph) (c', ph')" and inv: "readers_inv zd st reqs c ph"
  shows "readers_inv zd st reqs c' ph'"
  using step
proof cases
  case (go i p)
  have ok: "cache_ok c" and phases: "\<forall>j < length reqs. load_phase_ok zd st (reqs ! j) (ph j) c" using inv by (simp_all add: readers_inv_def)
  have "store_content zd st (cached_key rec) q" if want: "ph i = Wanting rec buf" and found: "cache_lookup c (cached_key rec) = Some q" for rec buf q
  proof (rule ccontr)
    assume "\<not> store_content zd st (cached_key rec) q"
    then obtain j where j: "j < length reqs" "torn_key c (ph j) (cached_key rec)"
      using inv found unfolding readers_inv_def by blast
    with torn_lock phases have "holds (ph j) = Some (fst (locate (cached_key rec)))" "cached_key rec \<noteq> EMPTY_KEY" by blast+
    with go(3) j(1) want show False by (auto simp: can_go_def lock_of_def)
  qed
  then have move: "moves_ok zd st (reqs ! i) (ph i) c p c'"
    using phases go(2) by (intro move_step [OF store ok _ _ go(4)]) simp_all
  have "\<forall>j < length reqs. takes (ph i) \<noteq> None \<longrightarrow> holds p = takes (ph i) \<longrightarrow> holds (ph j) \<noteq> takes (ph i)"
    using go(3) by (auto simp: can_go_def)
  from readers_inv_move [OF inv go(2) move this] go(1) show ?thesis by simp
next
  case (die i)
  have "moves_ok zd st (reqs ! i) (ph i) c Killed c'"
    using inv die(2) by (intro move_killed [OF _ _ die(4)]) (simp_all add: readers_inv_def)
  then show ?thesis unfolding die(1) by (rule readers_inv_move [OF inv die(2)]) (metis holds.simps(7))
qed

lemma readers_inv_run:
  assumes store: "store_ok st" and inv: "readers_inv zd st reqs c ph"
    and run: "(readers_step False zd st reqs ^^ n) (c, ph) (c', ph')"
  shows "readers_inv zd st reqs c' ph'"
  using run
proof (induction n arbitrary: c' ph')
  case (Suc n)
  then obtain d qh where "(readers_step False zd st reqs ^^ n) (c, ph) (d, qh)" "readers_step False zd st reqs (d, qh) (c', ph')"
    by (auto elim: relpowp_Suc_E)
  with Suc.IH readers_inv_step [OF store] show ?case by blast
qed (use inv in simp)

section \<open>No reader waits for ever\<close>

text \<open>The steps a load has at most before it.\<close>

fun steps_left :: "load_phase \<Rightarrow> nat" where
  "steps_left Asking = 8"
| "steps_left (Wanting rec buf) = 7"
| "steps_left (Fetching rec buf) = 6"
| "steps_left (Putting rec page) = 5"
| "steps_left (Storing rec page ws) = length ws + 1"
| "steps_left p = 0"

lemma steps_left_go: "load_step zd st req p c = (p', c') \<Longrightarrow> \<not> load_ended p \<Longrightarrow> steps_left p' < steps_left p"
  by (cases "(zd, st, req, p, c)" rule: load_step.cases)
    (auto simp: put_writes_def Let_def split: if_splits sum.splits option.splits prod.splits)

lemma steps_left_step:
  assumes "readers_step window zd st reqs (c, ph) (c', ph')"
  shows "(\<Sum>i < length reqs. steps_left (ph' i)) < (\<Sum>i < length reqs. steps_left (ph i))"
proof -
  have "\<exists>i < length reqs. \<exists>p. ph' = ph(i := p) \<and> steps_left p < steps_left (ph i)"
    using assms
  proof cases
    case (go i p)
    then have "steps_left p < steps_left (ph i)" by (intro steps_left_go) (simp_all add: can_go_def)
    with go(1,2) show ?thesis by blast
  next
    case (die i)
    then have "0 < steps_left (ph i)" by (cases "ph i") simp_all
    with die(1,2) show ?thesis by (intro exI [of _ i]) auto
  qed
  then obtain i p where i: "i < length reqs" "ph' = ph(i := p)" "steps_left p < steps_left (ph i)" by blast
  show ?thesis by (rule sum_strict_mono_ex1) (use i in auto)
qed

lemma steps_left_run:
  assumes "(readers_step window zd st reqs ^^ n) (c, ph) (c', ph')"
  shows "n + (\<Sum>i < length reqs. steps_left (ph' i)) \<le> (\<Sum>i < length reqs. steps_left (ph i))"
  using assms
proof (induction n arbitrary: c' ph')
  case (Suc n)
  then obtain d qh where "(readers_step window zd st reqs ^^ n) (c, ph) (d, qh)" "readers_step window zd st reqs (d, qh) (c', ph')"
    by (auto elim: relpowp_Suc_E)
  with Suc.IH steps_left_step show ?case by fastforce
qed simp

text \<open>A reader that waits for a lock waits for one that does not wait.\<close>

lemma some_reader_goes:
  assumes "i < n" "\<not> load_ended (ph i)"
  shows "\<exists>j < n. can_go n ph j"
proof (cases "can_go n ph i")
  case False
  then obtain j where j: "j < n" "holds (ph j) \<noteq> None" using assms(2) by (auto simp: can_go_def)
  then have "takes (ph j) = None \<and> \<not> load_ended (ph j)" by (cases "ph j") simp_all
  with j(1) show ?thesis by (auto simp: can_go_def)
qed (use assms in blast)

text \<open>C12: readers of any number of processes and threads, on any processors, share one
  cache, which at the start holds nothing but pages of the store, and any of them may be killed at any moment, save between the start of the copy of a
  page into the cache and the renaming of its way (what happens there is another property). In
  every interleaving of their steps, of which those of a put are its single writes, each load
  that ends gives the answer of a database without a cache; whenever no process holds a lock,
  whatever a lookup then finds is the page of the store; the loads
  together take at most eight steps each, and until all have ended one of them can go on,
  whatever locks the others, alive or dead, have taken.\<close>

theorem readers_share_cache:
  assumes "store_ok st" "cache_fits zd st (Some c)" "\<forall>(cpu, out, pa, s) \<in> set reqs. length out = PAGE_SIZE"
    and "(readers_step False zd st reqs ^^ n) (c, \<lambda>_. Asking) (c', ph)"
  shows "n \<le> 8 * length reqs \<and>
    (\<forall>i < length reqs. case reqs ! i of (cpu, out, pa, s) \<Rightarrow> \<forall>r. ph i = Answered r \<longrightarrow>
       r = fst (load_page cpu zd \<lparr>bd_store = st, bd_cache = None\<rparr> out pa s)) \<and>
    ((\<forall>i < length reqs. holds (ph i) = None) \<longrightarrow> cache_fits zd st (Some c')) \<and>
    ((\<forall>i < length reqs. load_ended (ph i)) \<or> (\<exists>i < length reqs. can_go (length reqs) ph i))"
proof (intro conjI allI impI)
  have fit: "cache_ok c \<and> (\<forall>k q. cache_lookup c k = Some q \<longrightarrow> store_content zd st k q)"
    using assms(2) by (simp add: cache_fits_def opt_cache.coherent_def opt_ok_def opt_held_def)
  have buffers: "load_phase_ok zd st (reqs ! i) Asking c" if "i < length reqs" for i
    using assms(3) that by (cases "reqs ! i") (auto dest!: nth_mem)
  from fit buffers have "readers_inv zd st reqs c (\<lambda>_. Asking)" by (simp add: readers_inv_def)
  from readers_inv_run [OF assms(1) this assms(4)] have inv: "readers_inv zd st reqs c' ph" .
  show "n \<le> 8 * length reqs" using steps_left_run [OF assms(4)] by simp
  show "cache_fits zd st (Some c')" if free: "\<forall>i < length reqs. holds (ph i) = None"
  proof -
    have "\<forall>i < length reqs. \<forall>k. \<not> torn_key c' (ph i) k"
    proof (intro allI impI notI)
      fix i k
      assume i: "i < length reqs" and torn: "torn_key c' (ph i) k"
      have "load_phase_ok zd st (reqs ! i) (ph i) c'" using inv i by (simp add: readers_inv_def)
      from torn_lock [OF torn this] free i show False by simp
    qed
    with inv have "cache_ok c'" "\<And>k q. cache_lookup c' k = Some q \<Longrightarrow> store_content zd st k q"
      unfolding readers_inv_def by blast+
    then show ?thesis by (simp add: cache_fits_def opt_cache.coherent_def opt_ok_def opt_held_def)
  qed
  show "(\<forall>i < length reqs. load_ended (ph i)) \<or> (\<exists>i < length reqs. can_go (length reqs) ph i)"
    using some_reader_goes by blast
  fix i
  assume i: "i < length reqs"
  obtain cpu out pa s where req: "reqs ! i = (cpu, out, pa, s)" by (cases "reqs ! i")
  have "length out = PAGE_SIZE" using buffers [OF i] req by simp
  moreover have "cache_fits zd st None" by (simp add: cache_fits_def opt_cache.coherent_def opt_ok_def opt_held_def)
  ultimately have "fst (load_page cpu zd \<lparr>bd_store = st, bd_cache = None\<rparr> out pa s) = read_page zd st pa s"
    using load_page_eq [of "\<lparr>bd_store = st, bd_cache = None\<rparr>" zd out cpu pa s] assms(1)
    by (cases "load_page cpu zd \<lparr>bd_store = st, bd_cache = None\<rparr> out pa s") simp
  moreover have "load_phase_ok zd st (reqs ! i) (ph i) c'" using inv i by (simp add: readers_inv_def)
  ultimately show "case reqs ! i of (cpu, out, pa, s) \<Rightarrow> \<forall>r. ph i = Answered r \<longrightarrow>
      r = fst (load_page cpu zd \<lparr>bd_store = st, bd_cache = None\<rparr> out pa s)"
    by (auto simp: req)
qed

text \<open>
  Two readers of one page, on different processors, that both miss; one is killed when it has
  locked the set and copied nothing yet, and the other stores the page and answers.
\<close>

definition one_page_store :: page_store where
  "one_page_store =
     \<lparr>ps_source = BTreeSource (index_file 1 [new_full (encode_key 3 1) 0 0 4096]) 1,
      ps_blobs = [0 \<mapsto> replicate PAGE_SIZE 7], ps_mode = BTree\<rparr>"

definition two_readers :: "request list" where
  "two_readers = [(Portable, replicate PAGE_SIZE 1, 3, 5), (AArch64, replicate PAGE_SIZE 2, 3, 4)]"

lemma one_page_ok: "store_ok one_page_store"
  unfolding store_ok_def one_page_store_def index_ok_def
  by (simp, intro exI [of _ 1] exI [of _ "[new_full (encode_key 3 1) 0 0 4096]"]) simp

lemma one_page_floor:
  assumes "s = 4 \<or> s = 5"
  shows "store_floor one_page_store 3 s = Inr (Some (new_full (encode_key 3 1) 0 0 4096))" "\<not> MAX_SNAPSHOT_ID < s"
proof -
  have "floor_answer [new_full (encode_key 3 1) 0 0 4096] (encode_key 3 s) 3 = Some (new_full (encode_key 3 1) 0 0 4096)"
    using assms by (auto simp: floor_answer_def floor_by_def new_full_def encode_key_def pa_of_def SNAPSHOT_BITS_def SNAPSHOT_MASK_def)
  then show "store_floor one_page_store 3 s = Inr (Some (new_full (encode_key 3 1) 0 0 4096))"
    using conjunct1 [OF store_query [OF one_page_ok, of 3 s]] by (simp add: store_records_def one_page_store_def)
  show "\<not> MAX_SNAPSHOT_ID < s" using assms by (auto simp: MAX_SNAPSHOT_ID_def SNAPSHOT_BITS_def)
qed

lemma one_page_fetch:
  "length buf = PAGE_SIZE \<Longrightarrow> fetch Some one_page_store (new_full k 0 0 4096) buf = Inr (replicate PAGE_SIZE 7)"
  by (simp add: fetch_def new_full_def decompress_blob_into_def decompress_to_buffer_def one_page_store_def
      PAGE_SIZE_def rslice_def copy_at_def)


lemma relpowp_one: "R x y \<Longrightarrow> (R ^^ Suc 0) x y" for R :: "'a \<Rightarrow> 'a \<Rightarrow> bool"
  by (metis One_nat_def relpowp_1)

lemma storing_run:
  assumes "i < length reqs" "ph i = Storing rec page ws"
  shows "(readers_step window zd st reqs ^^ Suc (length ws)) (c, ph)
    (foldl exec_write c ws, ph(i := Answered (finish_load st rec page)))"
  using assms(2)
proof (induction ws arbitrary: c ph)
  case Nil
  have "readers_step window zd st reqs (c, ph) (c, ph(i := Answered (finish_load st rec page)))"
    by (rule readers_step.go) (use assms(1) Nil in \<open>cases "reqs ! i"; simp add: can_go_def\<close>)+
  then show ?case unfolding list.size(3) foldl_Nil by (rule relpowp_one)
next
  case (Cons w ws)
  have "readers_step window zd st reqs (c, ph) (exec_write c w, ph(i := Storing rec page ws))"
    by (rule readers_step.go) (use assms(1) Cons.prems in \<open>cases "reqs ! i"; simp add: can_go_def\<close>)+
  from relpowp_Suc_I2 [OF this Cons.IH [OF fun_upd_same]] show ?case
    by (simp only: length_Cons foldl_Cons fun_upd_upd)
qed

theorem readers_share_cache_witness:
  "\<exists>c' ph. (readers_step False Some one_page_store two_readers ^^ 13) (init_metadata zero_cache [], \<lambda>_. Asking) (c', ph) \<and>
     cache_fits Some one_page_store (Some c') \<and> ph 0 = Answered (Inr (Some (replicate PAGE_SIZE 7))) \<and> ph 1 = Killed \<and>
     fst (load_page Portable Some \<lparr>bd_store = one_page_store, bd_cache = None\<rparr> (replicate PAGE_SIZE 1) 3 5) =
       Inr (Some (replicate PAGE_SIZE 7))"
proof -
  let ?c = "init_metadata zero_cache []" and ?key = "encode_key 3 1" and ?rec = "new_full (encode_key 3 1) 0 0 4096"
  let ?page = "replicate PAGE_SIZE 7 :: bytes" and ?a = "replicate PAGE_SIZE 1 :: bytes" and ?b = "replicate PAGE_SIZE 2 :: bytes"
  let ?step = "readers_step False Some one_page_store two_readers" and ?done = "Answered (Inr (Some ?page))"
  have fresh: "cache_ok ?c" "cache_lookup ?c k = None" for k
    using cache_ok_init [of zero_cache "[]"] by (simp_all add: zero_cache_def)
  have key: "cached_key ?rec = ?key" "r_kind ?rec = Full" "?key \<noteq> EMPTY_KEY"
    by (simp_all add: cached_key_def new_full_def encode_key_def SNAPSHOT_BITS_def SNAPSHOT_MASK_def EMPTY_KEY_def)
  have miss: "cache_get cpu ?c ?key buf = (False, buf, ?c)" for cpu buf using cache_get_eq [OF fresh(1)] fresh(2) by simp
  have writes: "\<exists>w ws. put_writes cpu ?c ?key ?page = w # ws \<and> length ws = 2 \<and> (\<nexists>m s v k. w = SetId m s v k)" for cpu
    using key(3) by (simp add: put_writes_def Let_def split: prod.split)
  then obtain w ws where w: "put_writes AArch64 ?c ?key ?page = w # ws" "\<nexists>m s v k. w = SetId m s v k" by metis
  let ?ws = "put_writes Portable ?c ?key ?page"
  have reqs: "two_readers ! 0 = (Portable, ?a, 3, 5)" "two_readers ! Suc 0 = (AArch64, ?b, 3, 4)" "length two_readers = 2"
    by (simp_all add: two_readers_def)
  define p1 :: "nat \<Rightarrow> load_phase" where "p1 = (\<lambda>_. Asking)(0 := Wanting ?rec ?a)"
  define p2 where "p2 = p1(1 := Wanting ?rec ?b)"
  define p3 where "p3 = p2(0 := Fetching ?rec ?a)"
  define p4 where "p4 = p3(1 := Fetching ?rec ?b)"
  define p5 where "p5 = p4(1 := Putting ?rec ?page)"
  define p6 where "p6 = p5(1 := Storing ?rec ?page (w # ws))"
  define p7 where "p7 = p6(1 := Killed)"
  define p8 where "p8 = p7(0 := Putting ?rec ?page)"
  define p9 where "p9 = p8(0 := Storing ?rec ?page ?ws)"
  note phases = p1_def p2_def p3_def p4_def p5_def p6_def p7_def p8_def p9_def
  note facts = reqs key miss fresh one_page_floor [of 4] one_page_floor [of 5] one_page_fetch can_go_def lock_of_def less_2_cases_iff w
  have move: "?step (d, ph) (d', ph')"
    if "i < 2" "can_go 2 ph i" "load_step Some one_page_store (two_readers ! i) (ph i) d = (p, d')" "ph' = ph(i := p)"
    for d ph d' ph' i p
    using that reqs(3) by (auto intro: readers_step.go)
  have "?step (?c, \<lambda>_. Asking) (?c, p1)" by (rule move [of 0]) (simp_all add: facts phases)
  then have "(?step ^^ Suc 0) (?c, \<lambda>_. Asking) (?c, p1)" by (rule relpowp_one)
  then have "(?step ^^ Suc (Suc 0)) (?c, \<lambda>_. Asking) (?c, p2)"
    by (rule relpowp_Suc_I) (rule move [of 1], simp_all add: facts phases)
  then have "(?step ^^ Suc (Suc (Suc 0))) (?c, \<lambda>_. Asking) (?c, p3)"
    by (rule relpowp_Suc_I) (rule move [of 0], simp_all add: facts phases)
  then have "(?step ^^ Suc (Suc (Suc (Suc 0)))) (?c, \<lambda>_. Asking) (?c, p4)"
    by (rule relpowp_Suc_I) (rule move [of 1], simp_all add: facts phases)
  then have "(?step ^^ Suc (Suc (Suc (Suc (Suc 0))))) (?c, \<lambda>_. Asking) (?c, p5)"
    by (rule relpowp_Suc_I) (rule move [of 1], simp_all add: facts phases)
  then have "(?step ^^ Suc (Suc (Suc (Suc (Suc (Suc 0)))))) (?c, \<lambda>_. Asking) (?c, p6)"
    by (rule relpowp_Suc_I) (rule move [of 1], simp_all add: facts phases)
  moreover have "?step (?c, p6) (?c, p7)"
    unfolding p7_def by (rule readers_step.die [OF _ _ killed_in.quiet]) (use w(2) in \<open>simp_all add: reqs p6_def\<close>)
  ultimately have "(?step ^^ Suc (Suc (Suc (Suc (Suc (Suc (Suc 0))))))) (?c, \<lambda>_. Asking) (?c, p7)" by (rule relpowp_Suc_I)
  then have "(?step ^^ Suc (Suc (Suc (Suc (Suc (Suc (Suc (Suc 0)))))))) (?c, \<lambda>_. Asking) (?c, p8)"
    by (rule relpowp_Suc_I) (rule move [of 0], simp_all add: facts phases)
  then have nine: "(?step ^^ Suc (Suc (Suc (Suc (Suc (Suc (Suc (Suc (Suc 0))))))))) (?c, \<lambda>_. Asking) (?c, p9)"
    by (rule relpowp_Suc_I) (rule move [of 0], simp_all add: facts phases)
  have "length ?ws = 3" using writes [of Portable] by auto
  then have "(?step ^^ 4) (?c, p9) (foldl exec_write ?c ?ws, p9(0 := ?done))"
    using storing_run [of 0 two_readers p9 ?rec ?page ?ws] by (simp add: reqs p9_def finish_load_def key numeral_eq_Suc)
  with nine have run: "(?step ^^ 13) (?c, \<lambda>_. Asking) (foldl exec_write ?c ?ws, p9(0 := ?done))"
    using relpowp_trans [of 9 ?step _ _ 4] by (simp add: numeral_eq_Suc)
  have bufs: "\<forall>(cpu, out, pa, s) \<in> set two_readers. length out = PAGE_SIZE" by (simp add: two_readers_def)
  have "cache_fits Some one_page_store (Some ?c)"
    using fresh by (simp add: cache_fits_def opt_cache.coherent_def opt_ok_def opt_held_def)
  note all = readers_share_cache [OF one_page_ok this bufs run]
  have ends: "\<forall>i < 2. holds ((p9(0 := ?done)) i) = None" by (simp add: phases less_2_cases_iff)
  from all have "case two_readers ! 0 of (cpu, out, pa, s) \<Rightarrow> \<forall>r. (p9(0 := ?done)) 0 = Answered r \<longrightarrow>
      r = fst (load_page cpu Some \<lparr>bd_store = one_page_store, bd_cache = None\<rparr> out pa s)"
    by (elim conjE allE [of _ 0]) (simp add: two_readers_def)
  then have "Inr (Some ?page) = fst (load_page Portable Some \<lparr>bd_store = one_page_store, bd_cache = None\<rparr> ?a 3 5)"
    by (simp add: two_readers_def)
  with all run ends show ?thesis
    by (intro exI [of _ "foldl exec_write ?c ?ws"] exI [of _ "p9(0 := ?done)"]) (simp add: reqs phases)
qed

end
