(* ===== verification/Spec2Isabelle.thy ===== *)
theory Spec2Isabelle
  imports Failures Names Cli Browse Race Report Torn Interrupt Threads Workers Readers
begin

text \<open>
  bxdb: a store of snapshots of a virtual machine's memory, 4096-byte pages keyed by page
  address and snapshot number. A writer appends chunk records to \<open>chunks.log\<close> and page data
  to \<open>blobs/worker_<i>.blob\<close>; a page is stored in full (compressed by zstd), as an XOR patch
  against an earlier full page, or as a mark for a page of zeros. A reader finds the newest
  record of a page at or below a snapshot, through the log or through the sorted file
  \<open>index.bxdb\<close> made from it, and decodes it, with a page cache in shared memory. Tools
  convert, purge, check, export and display a database. This development models the Rust code
  under \<open>src/bxdb-core\<close>, \<open>src/bxdb-util\<close> and \<open>src/bxdb-inspect\<close>.

  The theories, in the order they build on each other:

  \<^item> \<open>Prelude\<close>: bytes and words, the result type \<open>fault + 'a\<close> (an \<open>io::ErrorKind\<close>, or a
    panic), little-endian coding, slices, \<open>read_exact\<close>, stable sorting and \<open>dedup_by_key\<close>.
  \<^item> \<open>Chunk\<close> (\<open>chunk.rs\<close>): keys, records, both encodings, XOR patches. The locale
    \<open>record_stream\<close> is what the decode loops rely on, interpreted for the log and the index.
  \<^item> \<open>Format\<close> (\<open>format.rs\<close>): file headers, and log and index files as byte lists.
  \<^item> \<open>Index\<close> (\<open>btree.rs\<close>): binary search in the mapped index, and the in-memory index of the
    log. The locale \<open>key_index\<close> says what a floor and an exact query return.
  \<^item> \<open>Cache\<close> (\<open>cache.rs\<close>): layout of the shared region, lookup on three processors, replacement,
    identity, and \<open>put\<close> as the sequence of its writes to the shared memory. The locale \<open>page_cache\<close> is its contract.
  \<^item> \<open>Store\<close> (\<open>btree.rs\<close>): \<open>db_dir\<close> is a database directory (two files and the blobs),
    \<open>page_store\<close> and \<open>btree_db\<close> are \<open>PageStore\<close> and \<open>BtreeDb\<close>; \<open>load_page\<close> with and without cache.
  \<^item> \<open>Timing\<close>, \<open>Report\<close>, \<open>Race\<close> (\<open>timing.rs\<close>): the reader with its counters and clock readings,
    the report written at exit, and additions of concurrent threads as a step relation.
  \<^item> \<open>Writer\<close>: \<open>BufWriter\<close> over a file (locale \<open>byte_sink\<close>). \<open>Shadow\<close>, \<open>Bitmap\<close>, \<open>Append\<close>,
    \<open>Load\<close> (\<open>append_only.rs\<close>): the table of base pages (locale \<open>base_table\<close>), the plan of a
    sparse save, opening, saving and flushing (\<open>append_db\<close>), and the two bulk loaders.
  \<^item> \<open>Versions\<close>, \<open>Saves\<close>: the abstract database, a history of saves (newest first, each a map
    from pages to contents), the invariants \<open>db_inv\<close> of a writer and \<open>dir_inv\<close> of a directory
    that implement a history, and whole sessions (\<open>write_session\<close>, \<open>read_session\<close>).
  \<^item> \<open>Convert\<close>, \<open>Purge\<close>, \<open>Check\<close>, \<open>Names\<close> (\<open>convert.rs\<close>, \<open>purge.rs\<close>, \<open>check.rs\<close> and the listing of
    \<open>blobs/\<close>); \<open>Failures\<close>, \<open>Torn\<close>, \<open>Interrupt\<close>: refused saves, data not flushed, a log cut inside
    a record, and the states between the changes of a purge.
  \<^item> \<open>Pool\<close>: tasks over a shared state in any interleaving, and why their runs end (locale
    \<open>pool\<close>). \<open>Threads\<close> (a save on the threads of its pool, each page task in the steps its locks
    make) and \<open>Workers\<close> (the threads of a bulk load) interpret it. \<open>Readers\<close>: page loads of several
    processes on one shared cache, with its mutexes, the writes of \<open>put\<close> and processes that die.
  \<^item> \<open>Text\<close>: parsing and formatting of numbers and text as the standard library does it.
    \<open>Raw\<close>, \<open>Export\<close> (\<open>bin/convert_to_raw.rs\<close>), \<open>CApi\<close> (\<open>c_api.rs\<close>), \<open>Cli\<close> (\<open>bin/bxdb.rs\<close>).
  \<^item> \<open>Inspect\<close>, \<open>Screen\<close>, \<open>Browse\<close> (\<open>bxdb-inspect/src/main.rs\<close>): the state \<open>app\<close> with its keys,
    what it shows and its event loop, and the invariant over all its runs.

  What is shown. Codecs and headers: round trips and exact acceptance. Queries: both indexes
  answer with the newest version of a page; on any bytes the searches of the mapped index end
  within as many steps as the count has bits and read inside the file. The cache: the vectorised
  lookups agree with the scalar one, a hit returns the last put, eviction takes the least
  recent, a cached reader answers as an uncached one in any interleaving with others, some of
  which are killed; only a process that dies inside \<open>put\<close>, between the start of the copy of the
  page and the renaming of its way, makes later answers wrong, and in which way is stated. The writer: every save is a step of the
  history and every reader of the flushed directory returns what the history says, for every
  schedule of the worker threads, every shadow setting and delta threshold; older snapshots
  never change, sparse saves overlay, sessions only append. Bulk loads equal page loads,
  conversions keep answers, a purge forgets exactly what it should (and, from a stale index,
  more), a clean check means every read succeeds. Threads: saves, bulk loads and cached loads
  end in every interleaving of their steps as when they run one after the other, while additions
  to the timing counters may be lost. The exporter, the C functions, the statistics and the
  inspector are proved against the same history. Errors: refused arguments, unflushed data, torn
  logs, aborts.

  Termination and bounds. There is no fuel in the model of the program: every loop is a total
  function with a measure (remaining input, remaining work, or the width of the search range).
  The JSON reader used to state what the report says takes fuel, the length of the text, which
  is proved enough. Sizes and offsets read from files are 64- and 32-bit words; the writer's
  theorems ask that the blob files stay below 2 ^ 64 bytes (\<open>dir_room\<close>).

  Assumptions. zstd is a pair of parameters with \<open>zstd_ok\<close>: compressing a page succeeds, fits
  the buffer of the code, and decodes to the page; the streaming decoder of the inspector and the
  one-shot decoder of the reader are the same parameter. A failed page task ends the tasks of
  its save at once, where the thread pool may let others run on before the error is returned.
  Most theorems run the tasks of a save whole,
  in any order that is a permutation (\<open>schedule_ok\<close>); \<open>Threads\<close> shows that this is no
  assumption, since every interleaving of their steps ends as such an order does. What is done
  under a lock is one step, save for \<open>put\<close> in \<open>Readers\<close>, whose writes are steps of their own. \<open>canonicalize\<close>, the path hash, \<open>Debug\<close> of a path, the clock, the
  environment, the processor and the failures of file creation are parameters.
  \<open>partition_point\<close>, \<open>binary_search\<close> and the sorts of the standard library stand for their
  documented results.

  Not modelled: \<open>mmap\<close>, \<open>munmap\<close>, \<open>madvise\<close> and the pthread calls themselves (a mapping is the
  file's bytes; a mutex of the cache is a lock that its next owner gets when its owner died); errors of the operating
  system other than missing files, and the temporary files of a conversion; the texts of the
  check report, of errors, and standard error; the percentages and scaled sizes in the
  inspector's header, which are floating point; its colours, layout and terminal library; the
  parsing of the command line by clap; the overflow of sums of worker and page counts near 2^64 in
  the bulk loaders; memory orders weaker than an interleaving of single reads and writes.
\<close>

section \<open>Sample data\<close>

text \<open>An empty directory, and two saves of two pages: all of them, then the second page.\<close>

definition fresh_dir :: db_dir where
  "fresh_dir = \<lparr>dd_index = None, dd_log = None, dd_blobs = (\<lambda>_. None)\<rparr>"

definition demo_full :: save_op where
  "demo_full = SaveAll (replicate (2 * PAGE_SIZE) 1) 2 0"

definition demo_sparse :: save_op where
  "demo_sparse = SaveDirty (replicate (2 * PAGE_SIZE) 2) [2] 2 5"

definition demo_ops :: "(scheduler \<times> save_op) list" where
  "demo_ops = [(rev, demo_full), (id, demo_sparse)]"

lemma fresh_holds: "dir_holds zd [] fresh_dir"
  by (simp add: dir_holds_def fresh_dir_def)

lemma fresh_simps [simp]: "dd_index fresh_dir = None" "dir_last fresh_dir = None" "dir_records fresh_dir = []"
  by (simp_all add: fresh_dir_def dir_last_def dir_records_def)

lemma fresh_room: "k * COMPRESS_CAP < 2 ^ 64 \<Longrightarrow> dir_room k fresh_dir"
  by (simp add: dir_room_def fresh_dir_def)

lemma zstd_stored: "zstd_ok Some Some"
  by (simp add: zstd_ok_def COMPRESS_CAP_def PAGE_SIZE_def)

lemma schedules_ok: "schedule_ok rev" "schedule_ok id"
  by (simp_all add: schedule_ok_def)

lemma demo_pages: "op_pages demo_full = [0, 1]" "op_pages demo_sparse = [1]"
  by (simp_all add: demo_full_def demo_sparse_def dirty_pages_def upt_rec)

lemma demo_fits: "op_fits demo_full" "op_fits demo_sparse" "op_snapshot demo_full = 0" "op_snapshot demo_sparse = 5"
  using demo_pages by (simp_all add: demo_full_def demo_sparse_def snapshot_le_max_unat)

lemma demo_saves: "saves_fit None demo_ops" "pages_saved demo_ops = 3"
  by (simp_all add: demo_ops_def schedules_ok demo_fits demo_pages pages_saved_def)

lemma demo_room: "dir_room (pages_saved demo_ops) fresh_dir"
  by (rule fresh_room) (simp add: demo_saves COMPRESS_CAP_def)

lemma page_at_replicate:
  "unat pa * PAGE_SIZE + PAGE_SIZE \<le> n \<Longrightarrow> page_at (replicate n b) pa = replicate PAGE_SIZE b"
  by (simp add: page_at_def rslice_def)

lemma demo_history:
  "abs_read (abs_saves demo_ops []) 0 5 = Some (replicate PAGE_SIZE 1)"
  "abs_read (abs_saves demo_ops []) 1 5 = Some (replicate PAGE_SIZE 2)"
  "abs_read (abs_saves demo_ops []) 1 4 = Some (replicate PAGE_SIZE 1)"
  unfolding demo_ops_def
  by (simp_all add: demo_pages demo_fits save_map_def)
    (simp_all add: demo_full_def demo_sparse_def page_at_replicate)

text \<open>A log with a zero page at snapshot 0 and another at snapshot 3, and its history.\<close>

definition zero_recs :: "chunk_record list" where
  "zero_recs = [new_zero (encode_key 0 0), new_zero (encode_key 1 3)]"

definition zero_dir :: db_dir where
  "zero_dir = \<lparr>dd_index = None, dd_log = Some (log_file 3 zero_recs), dd_blobs = (\<lambda>_. None)\<rparr>"

definition zero_history :: history where
  "zero_history = [(3, [1 \<mapsto> replicate PAGE_SIZE 0]), (0, [0 \<mapsto> replicate PAGE_SIZE 0])]"

lemma zero_recs_keys: "r_key ` set zero_recs = {0, 524291}" "sorted_wrt (<) (map r_key zero_recs)"
  "\<forall>r \<in> set zero_recs. r_kind r = Zero \<and> log_record_ok r"
  by (simp_all add: zero_recs_def new_zero_def log_record_ok_def encode_key_def SNAPSHOT_BITS_def SNAPSHOT_MASK_def)

lemma zero_dir_simps [simp]: "dd_index zero_dir = None" "dir_last zero_dir = Some 3"
  by (simp_all add: zero_dir_def dir_last_def log_file_def)

lemma zero_room: "k * COMPRESS_CAP < 2 ^ 64 \<Longrightarrow> dir_room k zero_dir"
  by (simp add: dir_room_def zero_dir_def)

lemma zero_history_ok: "history_ok zero_history"
proof -
  have "(0 :: u32) \<le> MAX_SNAPSHOT_ID" "3 \<le> MAX_SNAPSHOT_ID" by (simp_all add: snapshot_le_max_unat)
  then show ?thesis by (auto simp: zero_history_def)
qed

lemma zero_hist_match: "hist_match zd bl zero_recs zero_history"
proof -
  have "distinct (map r_key zero_recs)" using zero_recs_keys(2) by (simp add: strict_sorted_iff)
  moreover have "rec_ok zd bl R s pa (replicate PAGE_SIZE 0) (new_zero (encode_key pa s))" for R s pa
    by (simp add: rec_ok_def chunk_at_def new_zero_def log_record_ok_def based_def is_all_zero_iff)
  ultimately show ?thesis unfolding hist_match_def by (auto simp: zero_recs_def zero_history_def)
qed

lemma zero_dir_inv: "dir_inv zd zero_history zero_dir"
  using zero_history_ok zero_hist_match by (auto simp: dir_inv_def zero_dir_def zero_history_def)

section \<open>Saving and reading\<close>

text \<open>C1: the whole database, refined by its history. Open a new directory or a log database
  (no \<open>index.bxdb\<close>) holding a history, with 1 to 255 workers and any threshold, make any saves
  with increasing snapshots that fit their buffers (full or sparse, each in any order of its
  page tasks) and flush: while the blob files have room every save succeeds, the directory then holds the extended history, and a process that opens it reads for every page
  and snapshot exactly the newest version saved up to that snapshot. It can be reopened and
  extended in turn.\<close>

theorem saves_then_read:
  assumes "dir_holds zd h dir" "dd_index dir = None" "0 < n" "n \<le> 255" "zstd_ok zc zd"
    and "saves_fit (dir_last dir) ops" "dir_room (pages_saved ops) dir"
  shows "\<exists>dir'. write_session zc n thr use_shadow ops dir = Inr dir' \<and>
    dir_holds zd (abs_saves ops h) dir' \<and> dd_index dir' = None \<and>
    (\<forall>cpu out pa s. s \<le> MAX_SNAPSHOT_ID \<longrightarrow> length out = PAGE_SIZE \<longrightarrow>
       read_session cpu zd dir' out pa s = Inr (abs_read (abs_saves ops h) pa s))"
proof -
  from write_session_spec [OF assms(1,3,4,5,6,7), of thr use_shadow] obtain dir' where dir':
    "write_session zc n thr use_shadow ops dir = Inr dir'" "dir_inv zd (abs_saves ops h) dir'"
    "dd_index dir' = dd_index dir" by blast
  with read_session_history [OF dir'(2)] assms(2) show ?thesis by (simp add: dir_holds_def)
qed

theorem saves_then_read_witness:
  "\<exists>dir'. write_session Some 3 0 True demo_ops fresh_dir = Inr dir' \<and>
     read_session Portable Some dir' (replicate PAGE_SIZE 9) 0 5 = Inr (Some (replicate PAGE_SIZE 1)) \<and>
     read_session Portable Some dir' (replicate PAGE_SIZE 9) 1 5 = Inr (Some (replicate PAGE_SIZE 2)) \<and>
     read_session Portable Some dir' (replicate PAGE_SIZE 9) 1 4 = Inr (Some (replicate PAGE_SIZE 1))"
proof -
  have s: "5 \<le> MAX_SNAPSHOT_ID" "4 \<le> MAX_SNAPSHOT_ID" by (simp_all add: snapshot_le_max_unat)
  have n: "(0 :: nat) < 3" "(3 :: nat) \<le> 255" by simp_all
  have ops: "saves_fit (dir_last fresh_dir) demo_ops" by (simp add: demo_saves)
  from saves_then_read [OF fresh_holds fresh_simps(1) n zstd_stored ops demo_room, of 0 True] s demo_history
  show ?thesis by fastforce
qed

lemma saves_fit_snoc:
  "saves_fit l (ops @ [(sched, op)]) \<Longrightarrow> op_fits op"
  by (induction l ops rule: saves_fit.induct) auto

lemma page_slot: "slot_at i mem = page_at mem (of_nat i)" if "i < unat (n :: u64)"
proof -
  have "unat (of_nat i :: u64) = i"
    using that unsigned_less [of n, where ?'a = nat] by (simp add: unat_of_nat take_bit_nat_eq_self_iff)
  then show ?thesis by (simp add: slot_at_def page_at_def rslice_def)
qed

text \<open>C2: the round trip of a full snapshot, stated on bytes alone: save guest memory, flush, load
  all its pages in bulk at that snapshot with any number of threads, and the buffer is
  byte for byte the memory that was saved, every page present, whatever was saved before. (On
  a log database: no \<open>index.bxdb\<close>.)\<close>

theorem full_snapshot_roundtrip:
  assumes "dir_holds zd h dir" "dd_index dir = None" "0 < n" "n \<le> 255" "zstd_ok zc zd"
    and ops: "saves_fit (dir_last dir) (ops @ [(sched, SaveAll mem k s)])"
    and room: "dir_room (pages_saved (ops @ [(sched, SaveAll mem k s)])) dir"
    and out: "length out = length mem" "length (discard out) = length out"
  shows "\<exists>dir'. write_session zc n thr use_shadow (ops @ [(sched, SaveAll mem k s)]) dir = Inr dir' \<and>
    load_all_pages zd discard dir' out True 0 k s workers = Inr (mem, True)"
proof -
  let ?ops = "ops @ [(sched, SaveAll mem k s)]" and ?h = "abs_saves (ops @ [(sched, SaveAll mem k s)]) h"
  have fits: "s \<le> MAX_SNAPSHOT_ID" "length mem = unat k * PAGE_SIZE" "unat k \<le> 2 ^ 45"
    using saves_fit_snoc [OF ops] by simp_all
  obtain dir' where dir': "write_session zc n thr use_shadow ?ops dir = Inr dir'" "dir_inv zd ?h dir'" "dd_index dir' = None"
    using write_session_spec [OF assms(1,3,4,5) ops room, of thr use_shadow] assms(2) by auto
  have u: "unat (of_nat i :: u64) = i" if "i < unat k" for i
    using that unsigned_less [of k, where ?'a = nat] by (simp add: unat_of_nat take_bit_nat_eq_self_iff)
  have read: "abs_read ?h (of_nat i) s = Some (page_at mem (of_nat i))" if i: "i < unat k" for i
    using i by (auto simp: abs_saves_append save_map_def)
  have len: "length out = unat k * PAGE_SIZE" using out(1) fits(2) by simp
  have range: "unat (0 :: u64) + unat k < 2 ^ 64" using fits(3) by simp
  obtain out' where out': "load_all_pages zd discard dir' out True 0 k s workers =
      Inr (out', \<forall>i < unat k. abs_read ?h (0 + of_nat i) s \<noteq> None)" "length out' = length out"
    "\<forall>i < unat k. slot_at i out' = (case abs_read ?h (0 + of_nat i) s of Some p \<Rightarrow> p | None \<Rightarrow> slot_at i (discard out))"
    using load_all_history [where discard = discard and workers = workers, OF dir'(2,3) fits(1) len out(2) range] by blast
  have "out' = mem"
    by (rule slots_eq [of _ "unat k"]) (use out' out(1) fits(2) read in \<open>auto simp: page_slot [of _ k]\<close>)
  with dir'(1) out'(1) read show ?thesis by simp
qed

theorem full_snapshot_roundtrip_witness:
  "\<exists>dir'. write_session Some 3 0 True ([] @ [(rev, demo_full)]) fresh_dir = Inr dir' \<and>
     load_all_pages Some id dir' (replicate (2 * PAGE_SIZE) 7) True 0 2 0 4 = Inr (replicate (2 * PAGE_SIZE) 1, True)"
proof -
  have n: "(0 :: nat) < 3" "(3 :: nat) \<le> 255" by simp_all
  have ops: "saves_fit (dir_last fresh_dir) ([] @ [(rev, SaveAll (replicate (2 * PAGE_SIZE) 1) 2 0)])"
    using demo_fits(1) by (simp add: schedules_ok demo_full_def)
  have "dir_room (pages_saved ([] @ [(rev, SaveAll (replicate (2 * PAGE_SIZE) 1) 2 0)])) fresh_dir"
    by (rule fresh_room) (simp add: pages_saved_def COMPRESS_CAP_def)
  from full_snapshot_roundtrip [OF fresh_holds fresh_simps(1) n zstd_stored ops this, of "replicate (2 * PAGE_SIZE) 7" id 0 True 4]
  show ?thesis by (simp add: demo_full_def)
qed

text \<open>C4: a sparse save changes exactly the dirty pages: at its snapshot a page marked in the
  bitmap reads as the memory just saved, every other page as it did before the save. (On a log
  database: no \<open>index.bxdb\<close>.)\<close>

theorem sparse_save_overlays:
  assumes "dir_inv zd h dir" "dd_index dir = None" "0 < n" "n \<le> 255" "zstd_ok zc zd"
    and ops: "saves_fit (dir_last dir) [(sched, SaveDirty mem bm k s)]"
    and room: "dir_room (length (dirty_pages bm k)) dir" and out: "length out = PAGE_SIZE"
  shows "\<exists>dir'. write_session zc n thr use_shadow [(sched, SaveDirty mem bm k s)] dir = Inr dir' \<and>
    read_session cpu zd dir' out pa s =
      (if pa < k \<and> bit (bm ! (unat pa div 64)) (unat pa mod 64)
       then Inr (Some (rslice (unat pa * PAGE_SIZE) (unat pa * PAGE_SIZE + PAGE_SIZE) mem))
       else read_session cpu zd dir out pa s)"
proof -
  let ?op = "SaveDirty mem bm k s"
  have s: "s \<le> MAX_SNAPSHOT_ID" using ops by simp
  have room': "dir_room (pages_saved [(sched, ?op)]) dir" using room by (simp add: pages_saved_def)
  have holds: "dir_holds zd h dir" using assms(1) by (simp add: dir_holds_def)
  obtain dir' where dir': "write_session zc n thr use_shadow [(sched, ?op)] dir = Inr dir'"
    "dir_inv zd (abs_save ?op h) dir'" "dd_index dir' = None"
    using write_session_spec [OF holds assms(3,4,5) ops room', of thr use_shadow] assms(2) by auto
  have dirty: "pa \<in> set (dirty_pages bm k) \<longleftrightarrow> pa < k \<and> bit (bm ! (unat pa div 64)) (unat pa mod 64)"
    by (rule mem_dirty_pages)
  have "abs_read (abs_save ?op h) pa s =
      (if pa \<in> set (dirty_pages bm k) then Some (page_at mem pa) else abs_read h pa s)"
    by (auto simp: save_map_def)
  with dir'(1) read_session_history [OF dir'(2,3) s out, of cpu pa] read_session_history [OF assms(1,2) s out, of cpu pa]
  show ?thesis by (simp add: dirty page_at_def)
qed

theorem sparse_save_overlays_witness:
  "\<exists>dir'. write_session Some 3 0 True [(id, demo_sparse)] zero_dir = Inr dir' \<and>
     read_session Portable Some dir' (replicate PAGE_SIZE 9) 1 5 = Inr (Some (replicate PAGE_SIZE 2)) \<and>
     (\<exists>dir''. write_session Some 3 0 True [(id, demo_sparse)] zero_dir = Inr dir'' \<and>
       read_session Portable Some dir'' (replicate PAGE_SIZE 9) 0 5 = read_session Portable Some zero_dir (replicate PAGE_SIZE 9) 0 5)"
proof -
  have n: "(0 :: nat) < 3" "(3 :: nat) \<le> 255" by simp_all
  have ops: "saves_fit (dir_last zero_dir) [(id, SaveDirty (replicate (2 * PAGE_SIZE) 2) [2] 2 5)]"
    using demo_fits(2) by (simp add: schedules_ok demo_sparse_def)
  have room: "dir_room (length (dirty_pages [2] 2)) zero_dir"
    using demo_pages(2) by (intro zero_room) (simp add: demo_sparse_def COMPRESS_CAP_def)
  have out: "length (replicate PAGE_SIZE (9 :: byte)) = PAGE_SIZE" by simp
  note save = sparse_save_overlays [OF zero_dir_inv zero_dir_simps(1) n zstd_stored ops room out, of 0 True Portable]
  from save [of 1] save [of 0] show ?thesis
    by (simp add: demo_sparse_def) (simp add: rslice_def PAGE_SIZE_def)
qed

text \<open>C3: the past is immutable: a session changes no answer for a snapshot older than all its
  saves. (On a log database: no \<open>index.bxdb\<close>, which a session would leave stale.)\<close>

theorem older_snapshots_unchanged:
  assumes "dir_inv zd h dir" "dd_index dir = None" "0 < n" "n \<le> 255" "zstd_ok zc zd"
    and "saves_fit (dir_last dir) ops" "dir_room (pages_saved ops) dir"
    and s: "s \<le> MAX_SNAPSHOT_ID" "\<forall>(sched, op) \<in> set ops. s < op_snapshot op" and out: "length out = PAGE_SIZE"
  shows "\<exists>dir'. write_session zc n thr use_shadow ops dir = Inr dir' \<and>
    read_session cpu zd dir' out pa s = read_session cpu zd dir out pa s"
proof -
  have old: "abs_read (abs_saves ops h) pa s = abs_read h pa s" for h
    using s(2) by (induction ops h rule: abs_saves.induct) (auto simp: not_le)
  have holds: "dir_holds zd h dir" using assms(1) by (simp add: dir_holds_def)
  obtain dir' where dir': "write_session zc n thr use_shadow ops dir = Inr dir'"
    "dir_inv zd (abs_saves ops h) dir'" "dd_index dir' = None"
    using write_session_spec [OF holds assms(3-7), of thr use_shadow] assms(2) by auto
  with read_session_history [OF dir'(2,3) s(1) out, of cpu pa] read_session_history [OF assms(1,2) s(1) out, of cpu pa]
  show ?thesis by (simp add: old)
qed

theorem older_snapshots_unchanged_witness:
  "\<exists>dir'. write_session Some 3 0 True [(id, demo_sparse)] zero_dir = Inr dir' \<and>
     read_session Portable Some dir' (replicate PAGE_SIZE 9) 1 4 = read_session Portable Some zero_dir (replicate PAGE_SIZE 9) 1 4"
proof -
  have n: "(0 :: nat) < 3" "(3 :: nat) \<le> 255" "4 \<le> MAX_SNAPSHOT_ID" by (simp_all add: snapshot_le_max_unat)
  have ops: "saves_fit (dir_last zero_dir) [(id, demo_sparse)]" "\<forall>(sched, op) \<in> set [(id :: scheduler, demo_sparse)]. 4 < op_snapshot op"
    using demo_fits by (simp_all add: schedules_ok)
  have room: "dir_room (pages_saved [(id, demo_sparse)]) zero_dir"
    by (rule zero_room) (simp add: pages_saved_def demo_pages COMPRESS_CAP_def)
  have out: "length (replicate PAGE_SIZE (9 :: byte)) = PAGE_SIZE" by simp
  from older_snapshots_unchanged [OF zero_dir_inv zero_dir_simps(1) n(1,2) zstd_stored ops(1) room n(3) ops(2) out, of 0 True Portable 1]
  show ?thesis .
qed

text \<open>C30: files only grow: a session appends to the log one record for each page of each save, in
  the order of the saves and by page, and bytes to the blob files; every byte and record that
  was there stays where it was, a log in snapshot and page order stays in that order, and
  \<open>index.bxdb\<close> is not touched.\<close>

theorem sessions_append_only:
  assumes "dir_holds zd h dir" "0 < n" "n \<le> 255" "zstd_ok zc zd"
    and "saves_fit (dir_last dir) ops" "dir_room (pages_saved ops) dir"
  shows "\<exists>dir' recs. write_session zc n thr use_shadow ops dir = Inr dir' \<and>
    dir_records dir' = dir_records dir @ recs \<and> map r_key recs = session_keys ops \<and>
    (sorted_wrt before (dir_records dir) \<longrightarrow> sorted_wrt before (dir_records dir')) \<and> dd_index dir' = dd_index dir \<and>
    (\<forall>w f. dd_blobs dir w = Some f \<longrightarrow> (\<exists>g. dd_blobs dir' w = Some (f @ g)))"
proof -
  obtain dir' recs where dir': "write_session zc n thr use_shadow ops dir = Inr dir'"
    "dir_records dir' = dir_records dir @ recs" "map r_key recs = session_keys ops" "dd_index dir' = dd_index dir"
    "blobs_grow (dd_blobs dir) (dd_blobs dir')"
    using write_session_spec [OF assms, of thr use_shadow] by blast
  with session_keeps_order [OF assms(1,5) _ dir'(2,3)] show ?thesis unfolding blobs_grow_def by blast
qed

theorem sessions_append_only_witness:
  "\<exists>dir' recs. write_session Some 3 0 True [(id, demo_sparse)] zero_dir = Inr dir' \<and> dir_records dir' = zero_recs @ recs"
proof -
  have n: "(0 :: nat) < 3" "(3 :: nat) \<le> 255" by simp_all
  have ops: "saves_fit (dir_last zero_dir) [(id, demo_sparse)]"
    using demo_fits by (simp add: schedules_ok)
  have room: "dir_room (pages_saved [(id, demo_sparse)]) zero_dir"
    by (rule zero_room) (simp add: pages_saved_def demo_pages COMPRESS_CAP_def)
  have "dir_holds Some zero_history zero_dir" by (simp add: dir_holds_def zero_dir_inv)
  moreover have "dir_records zero_dir = zero_recs"
    using zero_recs_keys(3) by (simp add: dir_records_def zero_dir_def log_records_def)
  ultimately show ?thesis using sessions_append_only [OF _ n zstd_stored ops room, of zero_history 0 True] by auto
qed

section \<open>Bulk loads\<close>

text \<open>C5: on a log database (no \<open>index.bxdb\<close>) a bulk load of any window of pages agrees with the single-page reader: with any number
  of threads every slot of the buffer holds the page the reader returns, or what
  \<open>madvise\<close> left there when there is none, and the result says whether all pages exist.\<close>

theorem bulk_load_is_pointwise:
  assumes "dir_inv zd h dir" "dd_index dir = None" "s \<le> MAX_SNAPSHOT_ID"
    and "length out = unat n * PAGE_SIZE" "length (discard out) = length out"
    and "unat off + unat n < 2 ^ 64" and page: "length page = PAGE_SIZE"
  shows "\<exists>out'. load_all_pages zd discard dir out True off n s workers =
      Inr (out', \<forall>i < unat n. read_session cpu zd dir page (off + of_nat i) s \<noteq> Inr None) \<and>
    length out' = length out \<and>
    (\<forall>i < unat n. slot_at i out' =
      (case read_session cpu zd dir page (off + of_nat i) s of Inr (Some p) \<Rightarrow> p | _ \<Rightarrow> slot_at i (discard out)))"
proof -
  have rd: "read_session cpu zd dir page pa s = Inr (abs_read h pa s)" for pa
    by (rule read_session_history [OF assms(1-3) page])
  from load_all_history [where discard = discard and workers = workers, OF assms(1-6)] show ?thesis
    by (simp add: rd)
qed

theorem bulk_load_is_pointwise_witness:
  "\<exists>out'. load_all_pages Some id zero_dir (replicate (2 * PAGE_SIZE) 7) True 0 2 2 4 = Inr (out', False) \<and>
     slot_at 0 out' = replicate PAGE_SIZE 0 \<and> slot_at 1 out' = replicate PAGE_SIZE 7"
proof -
  let ?out = "replicate (2 * PAGE_SIZE) (7 :: byte)" and ?page = "replicate PAGE_SIZE (9 :: byte)"
  have s: "2 \<le> MAX_SNAPSHOT_ID" by (simp add: snapshot_le_max_unat)
  have len: "length ?out = unat (2 :: u64) * PAGE_SIZE" "length (id ?out) = length ?out" "unat (0 :: u64) + unat (2 :: u64) < 2 ^ 64"
    "length ?page = PAGE_SIZE" by simp_all
  have rd: "read_session Portable Some zero_dir ?page pa 2 = Inr (abs_read zero_history pa 2)" for pa
    by (rule read_session_history [OF zero_dir_inv zero_dir_simps(1) s len(4)])
  have all: "(\<forall>i < unat (2 :: u64). P i) \<longleftrightarrow> P 0 \<and> P 1" for P :: "nat \<Rightarrow> bool"
    by (auto simp: less_2_cases_iff)
  have slot: "slot_at 1 (id ?out) = replicate PAGE_SIZE 7" by (simp add: slot_at_def)
  have reads: "abs_read zero_history 0 2 = Some (replicate PAGE_SIZE 0)" "abs_read zero_history 1 2 = None"
    by (simp_all add: zero_history_def)
  from bulk_load_is_pointwise [where discard = id and workers = 4 and cpu = Portable and zd = Some,
      OF zero_dir_inv zero_dir_simps(1) s len]
  show ?thesis unfolding rd all slot by (simp add: reads) blast
qed

section \<open>Conversions\<close>

text \<open>C6: converting a log to an index preserves every answer: for any log that decodes, with
  duplicate keys or out of order, the converted directory opens in B-tree mode and reads for
  every page and snapshot, errors included, what the log did; log and blob files are left as
  they are.\<close>

theorem to_btree_preserves_reads:
  assumes "dd_index dir = None" "dd_log dir = Some log" "read_log_records log = Inr rs" "length out = PAGE_SIZE"
  shows "\<exists>dir'. to_btree dir = Inr dir' \<and> dd_log dir' = dd_log dir \<and> dd_blobs dir' = dd_blobs dir \<and>
    detect_mode dir' = Inr BTree \<and>
    (\<forall>pa s. read_session cpu zd dir' out pa s = read_session cpu zd dir out pa s)"
proof -
  obtain st where st: "page_store_open dir = Inr st" "store_ok st" "store_records st = canon r_key rs"
    "ps_blobs st = dd_blobs dir"
    by (rule open_log_any [OF assms(1-3)])
  obtain dir' st' where dir': "to_btree dir = Inr dir'" "dd_log dir' = dd_log dir" "dd_blobs dir' = dd_blobs dir"
    "page_store_open dir' = Inr st'" "store_ok st'" "store_records st' = canon r_key rs" "ps_blobs st' = dd_blobs dir"
    "dd_index dir' = Some (index_file (max_snapshot (canon r_key rs)) (canon r_key rs))"
    by (rule to_btree_opens [OF assms(2,3)])
  have "read_page zd st' pa s = read_page zd st pa s" for pa s
    by (rule same_answers [OF st(2) dir'(5)]) (simp_all add: st(3,4) dir'(6,7))
  moreover have "detect_mode dir' = Inr BTree"
    by (simp add: detect_mode_def dir'(8) peek_magic_def read_exact_def index_file_def write_index_header_def write_header_eq)
  ultimately show ?thesis
    using dir'(1,2,3) read_session_eq [OF st(1,2) assms(4)] read_session_eq [OF dir'(4,5) assms(4)] by auto
qed

theorem to_btree_preserves_reads_witness:
  "\<exists>dir'. to_btree zero_dir = Inr dir' \<and>
     read_session Portable Some dir' (replicate PAGE_SIZE 9) 1 5 = Inr (Some (replicate PAGE_SIZE 0))"
proof -
  have log: "dd_log zero_dir = Some (log_file 3 zero_recs)" by (simp add: zero_dir_def)
  have rs: "read_log_records (log_file 3 zero_recs) = Inr zero_recs" using zero_recs_keys(3) by simp
  have s: "5 \<le> MAX_SNAPSHOT_ID" by (simp add: snapshot_le_max_unat)
  have out: "length (replicate PAGE_SIZE (9 :: byte)) = PAGE_SIZE" by simp
  have "read_session Portable Some zero_dir (replicate PAGE_SIZE 9) 1 5 = Inr (Some (replicate PAGE_SIZE 0))"
    unfolding read_session_history [OF zero_dir_inv zero_dir_simps(1) s out] by (simp add: zero_history_def)
  with to_btree_preserves_reads [OF zero_dir_simps(1) log rs out, of Portable Some] show ?thesis by auto
qed

text \<open>The two bulk loaders compute the same: filling the buffer from one pass over the log, or
  from floor queries on the converted index, gives for any number of workers the same bytes,
  the same completeness flag, and when a page cannot be read the same error.\<close>

theorem bulk_load_same_in_both_modes:
  assumes "dd_index dir = None" "dd_log dir = Some log" "read_log_records log = Inr rs"
    and "s \<le> MAX_SNAPSHOT_ID" "length out = unat n * PAGE_SIZE" "length (discard out) = length out"
    and "unat off + unat n < 2 ^ 64"
  shows "\<exists>dir'. to_btree dir = Inr dir' \<and>
    load_all_pages zd discard dir' out True off n s workers = load_all_pages zd discard dir out True off n s workers"
proof -
  obtain st where st: "page_store_open dir = Inr st" "store_ok st" "store_records st = canon r_key rs"
    "ps_blobs st = dd_blobs dir"
    by (rule open_log_any [OF assms(1-3)])
  obtain dir' st' where dir': "to_btree dir = Inr dir'" "dd_log dir' = dd_log dir" "dd_blobs dir' = dd_blobs dir"
    "page_store_open dir' = Inr st'" "store_ok st'" "store_records st' = canon r_key rs" "ps_blobs st' = dd_blobs dir"
    by (rule to_btree_opens [OF assms(2,3)])
  have "read_page zd st' pa s = read_page zd st pa s" for pa s
    by (rule same_answers [OF st(2) dir'(5)]) (simp_all add: st(3,4) dir'(6,7))
  then have "spec_slot zd st' off s = spec_slot zd st off s" by (simp add: fun_eq_iff spec_slot_def)
  with dir'(1) load_all_pages_eq [where discard = discard, OF st(1,2) assms(4-7), of zd workers]
    load_all_pages_eq [where discard = discard, OF dir'(4,5) assms(4-7), of zd workers]
  show ?thesis by simp
qed

theorem bulk_load_same_in_both_modes_witness:
  "\<exists>dir'. to_btree zero_dir = Inr dir' \<and>
    load_all_pages Some id dir' (replicate PAGE_SIZE 7) True 1 1 5 2 =
    load_all_pages Some id zero_dir (replicate PAGE_SIZE 7) True 1 1 5 2"
proof -
  have log: "dd_log zero_dir = Some (log_file 3 zero_recs)" by (simp add: zero_dir_def)
  have rs: "read_log_records (log_file 3 zero_recs) = Inr zero_recs" using zero_recs_keys(3) by simp
  have s: "5 \<le> MAX_SNAPSHOT_ID" by (simp add: snapshot_le_max_unat)
  have out: "length (replicate PAGE_SIZE (7 :: byte)) = unat (1 :: u64) * PAGE_SIZE"
    "length (id (replicate PAGE_SIZE (7 :: byte))) = length (replicate PAGE_SIZE (7 :: byte))"
    "unat (1 :: u64) + unat (1 :: u64) < 2 ^ 64" by simp_all
  from bulk_load_same_in_both_modes [where discard = id, OF zero_dir_simps(1) log rs s out, of Some 2] show ?thesis .
qed

text \<open>C32: converting an index to a log and back: the log, read without the index, answers every
  query as the index did, and converting it again gives an index file with the same records
  in the same order.\<close>

theorem to_log_roundtrip:
  assumes "dd_index dir = Some (index_file m rs)" "sorted_wrt (<) (map r_key rs)" "\<forall>r \<in> set rs. log_record_ok r"
    and "length out = PAGE_SIZE"
  shows "\<exists>dir'. to_log dir = Inr dir' \<and> dd_index dir' = dd_index dir \<and> dd_blobs dir' = dd_blobs dir \<and>
    (\<forall>pa s. read_session cpu zd (dir'\<lparr>dd_index := None\<rparr>) out pa s = read_session cpu zd dir out pa s) \<and>
    to_btree dir' = Inr (dir'\<lparr>dd_index := Some (index_file (max_snapshot rs) rs)\<rparr>)"
proof -
  obtain st where st: "page_store_open dir = Inr st" "store_ok st" "store_records st = rs" "ps_blobs st = dd_blobs dir"
    by (rule open_index_store [OF assms(1,2)])
  obtain dir' st' where dir': "to_log dir = Inr dir'" "dd_index dir' = dd_index dir" "dd_blobs dir' = dd_blobs dir"
    "page_store_open (dir'\<lparr>dd_index := None\<rparr>) = Inr st'" "store_ok st'" "store_records st' = rs" "ps_blobs st' = dd_blobs dir"
    by (rule to_log_opens [OF assms(1-3)])
  have "read_page zd st' pa s = read_page zd st pa s" for pa s
    by (rule same_answers [OF st(2) dir'(5)]) (simp_all add: st(3,4) dir'(6,7))
  then have reads: "\<forall>pa s. read_session cpu zd (dir'\<lparr>dd_index := None\<rparr>) out pa s = read_session cpu zd dir out pa s"
    using read_session_eq [OF st(1,2) assms(4)] read_session_eq [OF dir'(4,5) assms(4)] by simp
  obtain log ys where log: "dd_log dir' = Some log" "read_log_records log = Inr ys" "canon r_key ys = rs"
    using dir'(1) to_log_records [OF assms(1-3)] by auto
  then have "to_btree dir' = Inr (dir'\<lparr>dd_index := Some (index_file (max_snapshot rs) rs)\<rparr>)"
    by (simp add: to_btree_def Let_def flip: canon_def)
  with dir'(1-3) reads show ?thesis by blast
qed

theorem to_log_roundtrip_witness:
  "\<exists>dir'. to_log (zero_dir\<lparr>dd_index := Some (index_file 3 zero_recs)\<rparr>) = Inr dir' \<and>
     to_btree dir' = Inr (dir'\<lparr>dd_index := Some (index_file (max_snapshot zero_recs) zero_recs)\<rparr>)"
proof -
  let ?dir = "zero_dir\<lparr>dd_index := Some (index_file 3 zero_recs)\<rparr>"
  have idx: "dd_index ?dir = Some (index_file 3 zero_recs)" by simp
  have ok: "\<forall>r \<in> set zero_recs. log_record_ok r" using zero_recs_keys(3) by blast
  have out: "length (replicate PAGE_SIZE (9 :: byte)) = PAGE_SIZE" by simp
  from to_log_roundtrip [OF idx zero_recs_keys(2) ok out, of Portable Some] show ?thesis by blast
qed

section \<open>Purging\<close>

text \<open>C7: purging a log database forgets exactly the snapshots above the threshold: it succeeds,
  removes as many records as lie above, and afterwards every page reads at a snapshot as it
  did before at that snapshot or at the threshold, whichever is older, although the blob files
  were cut and unused ones removed.\<close>

theorem purge_log_reads:
  assumes "dir_inv zd h dir" "dd_index dir = None" "s \<le> MAX_SNAPSHOT_ID" "length out = PAGE_SIZE"
  shows "\<exists>dir'. purge dir t = Inr (length (filter (\<lambda>r. t < snapshot_of (r_key r)) (dir_records dir)), dir') \<and>
    dir_inv zd (filter (\<lambda>(s, m). s \<le> t) h) dir' \<and>
    read_session cpu zd dir' out pa s = read_session cpu zd dir out pa (min s t)"
proof -
  obtain n dir' where dir': "purge dir t = Inr (n, dir')" "dir_inv zd (filter (\<lambda>(s, m). s \<le> t) h) dir'"
    "dd_index dir' = None" "n = length (filter (\<lambda>r. t < snapshot_of (r_key r)) (log_records (the (dd_log dir))))"
    using purge_log_inv [OF assms(1,2)] by blast
  have "dir_records dir = log_records (the (dd_log dir))"
    using assms(1) by (auto simp: dir_inv_def dir_records_def)
  moreover have "min s t \<le> MAX_SNAPSHOT_ID" using assms(3) by (simp add: min.coboundedI1)
  ultimately show ?thesis
    using dir' read_session_history [OF dir'(2,3) assms(3,4), of cpu pa]
      read_session_history [OF assms(1,2) _ assms(4), of "min s t" cpu pa] by (simp add: abs_read_purged)
qed

theorem purge_log_reads_witness:
  "\<exists>dir'. purge zero_dir 2 = Inr (1, dir') \<and>
     read_session Portable Some dir' (replicate PAGE_SIZE 9) 1 5 = read_session Portable Some zero_dir (replicate PAGE_SIZE 9) 1 2"
proof -
  have s: "5 \<le> MAX_SNAPSHOT_ID" "0 \<le> MAX_SNAPSHOT_ID" "3 \<le> MAX_SNAPSHOT_ID" by (simp_all add: snapshot_le_max_unat)
  have out: "length (replicate PAGE_SIZE (9 :: byte)) = PAGE_SIZE" by simp
  have "dir_records zero_dir = zero_recs"
    using zero_recs_keys(3) by (simp add: dir_records_def zero_dir_def log_records_def)
  then have "length (filter (\<lambda>r. 2 < snapshot_of (r_key r)) (dir_records zero_dir)) = 1"
    using s by (simp add: zero_recs_def new_zero_def)
  with purge_log_reads [OF zero_dir_inv zero_dir_simps(1) s(1) out, of 2 Some Portable 1] show ?thesis by (auto simp: min_def)
qed

text \<open>C8: purging an index database: when the index holds the records of a history in key order,
  the purge succeeds and returns the number of its records above the threshold; the index file
  then holds exactly the records up to the threshold, in order, with the newest of their
  snapshots in the header (the file is left as it is when none is above), the blob files still
  hold their pages, and every answer is the one of the older snapshot.\<close>

theorem purge_index_reads:
  assumes "dd_index dir = Some (index_file m rs)" "sorted_wrt (<) (map r_key rs)"
    and "history_ok h" "hist_match zd (dd_blobs dir) rs h" "s \<le> MAX_SNAPSHOT_ID" "length out = PAGE_SIZE"
  shows "let kept = filter (\<lambda>r. snapshot_of (r_key r) \<le> t) rs
    in \<exists>dir'. purge dir t = Inr (length (filter (\<lambda>r. t < snapshot_of (r_key r)) rs), dir') \<and>
      dd_index dir' = Some (index_file (if kept = rs then m else max_snapshot kept) kept) \<and>
      hist_match zd (dd_blobs dir') kept (filter (\<lambda>(s, m). s \<le> t) h) \<and>
      read_session cpu zd dir' out pa s = read_session cpu zd dir out pa (min s t)"
proof -
  have read: "read_session cpu zd d out pa u = Inr (abs_read h' pa u)"
    if d: "dd_index d = Some (index_file m' rs')" "sorted_wrt (<) (map r_key rs')" "history_ok h'"
      "hist_match zd (dd_blobs d) rs' h'" "u \<le> MAX_SNAPSHOT_ID" for d m' rs' h' u
  proof -
    obtain st where st: "page_store_open d = Inr st" "store_ok st" "store_records st = rs'" "ps_blobs st = dd_blobs d"
      by (rule open_index_store [OF d(1,2)])
    have "set (store_records st) = set rs'" "hist_match zd (ps_blobs st) rs' h'" using st d by simp_all
    from read_page_history [OF st(2) this(1) d(3) this(2) d(5)] read_session_eq [OF st(1,2) assms(6)]
    show ?thesis by simp
  qed
  let ?kept = "filter (\<lambda>r. snapshot_of (r_key r) \<le> t) rs" and ?h = "filter (\<lambda>(s, m). s \<le> t) h"
  obtain dir' where dir': "purge dir t = Inr (length (filter (\<lambda>r. t < snapshot_of (r_key r)) rs), dir')"
    "dd_index dir' = Some (index_file (if ?kept = rs then m else max_snapshot ?kept) ?kept)"
    "sorted_wrt (<) (map r_key ?kept)" "history_ok ?h" "hist_match zd (dd_blobs dir') ?kept ?h"
    using purge_index_inv [OF assms(1-4)] by blast
  have "min s t \<le> MAX_SNAPSHOT_ID" using assms(5) by (simp add: min.coboundedI1)
  from read [OF dir'(2-5) assms(5)] read [OF assms(1-4) this]
  have "read_session cpu zd dir' out pa s = read_session cpu zd dir out pa (min s t)" by (simp add: abs_read_purged)
  with dir'(1,2,5) show ?thesis unfolding Let_def by blast
qed

theorem purge_index_reads_witness:
  "\<exists>dir'. purge (zero_dir\<lparr>dd_index := Some (index_file 3 zero_recs)\<rparr>) 2 = Inr (1, dir') \<and>
     read_session Portable Some dir' (replicate PAGE_SIZE 9) 1 5 =
     read_session Portable Some (zero_dir\<lparr>dd_index := Some (index_file 3 zero_recs)\<rparr>) (replicate PAGE_SIZE 9) 1 2"
proof -
  let ?dir = "zero_dir\<lparr>dd_index := Some (index_file 3 zero_recs)\<rparr>"
  have s: "5 \<le> MAX_SNAPSHOT_ID" by (simp add: snapshot_le_max_unat)
  have out: "length (replicate PAGE_SIZE (9 :: byte)) = PAGE_SIZE" by simp
  have idx: "dd_index ?dir = Some (index_file 3 zero_recs)" by simp
  have h: "history_ok zero_history" "hist_match Some (dd_blobs ?dir) zero_recs zero_history"
    by (rule zero_history_ok, simp add: zero_hist_match)
  have "length (filter (\<lambda>r. 2 < snapshot_of (r_key r)) zero_recs) = 1"
    using snapshot_le_max_unat by (simp add: zero_recs_def new_zero_def)
  with purge_index_reads [OF idx zero_recs_keys(2) h s out, of 2 Portable 1] show ?thesis
    unfolding Let_def by (auto simp: min_def)
qed

text \<open>C34: with both an index and a log present, \<open>purge\<close> decides by the index alone. It returns
  the number of index records above the threshold. If there is none it changes nothing; if
  there is one, it rewrites the log from the index: whatever the log held beyond the index,
  saves made after the last conversion included, is gone even when it lies below the
  threshold. (Assumed of the directory: the index records are ones a log can hold, and the blob
  file of each of them that has a blob is present.)\<close>

theorem purge_forgets_unindexed_saves:
  assumes "dd_index dir = Some (index_file m rs)" "dd_log dir = Some log" "\<forall>r \<in> set rs. log_record_ok r"
    and "\<forall>r \<in> set rs. r_kind r \<noteq> Zero \<longrightarrow> dd_blobs dir (r_worker_id r) \<noteq> None"
  shows "\<exists>dir'. purge dir t = Inr (length (filter (\<lambda>r. t < snapshot_of (r_key r)) rs), dir') \<and>
    (if \<exists>r \<in> set rs. t < snapshot_of (r_key r)
     then set (dir_records dir') = {r \<in> set rs. snapshot_of (r_key r) \<le> t}
     else dir' = dir)"
proof -
  let ?ks = "filter (\<lambda>r. snapshot_of (r_key r) \<le> t) rs"
  have some: "(\<exists>r \<in> set rs. t < snapshot_of (r_key r)) \<longleftrightarrow> ?ks \<noteq> rs" by (auto simp: filter_id_conv not_le)
  have "\<forall>r \<in> set ?ks. log_record_ok r" using assms(3) by simp
  then obtain hdr recs where log: "write_log_file ?ks (max_snapshot ?ks) = log_file hdr recs" "set recs = set ?ks"
    "read_log_records (log_file hdr recs) = Inr recs" using kept_log by blast
  show ?thesis
    unfolding some using purge_index_eq [OF assms(1), of t] assms(2,4) log by (auto simp: dir_records_def log_records_def)
qed

theorem purge_forgets_unindexed_saves_witness:
  "\<exists>dir'. purge \<lparr>dd_index = Some (index_file 3 zero_recs), dd_log = Some (log_file 4 (zero_recs @ [new_zero (encode_key 7 1)])),
       dd_blobs = (\<lambda>_. None)\<rparr> 2 = Inr (1, dir') \<and> new_zero (encode_key 7 1) \<notin> set (dir_records dir')"
proof -
  let ?dir = "\<lparr>dd_index = Some (index_file 3 zero_recs), dd_log = Some (log_file 4 (zero_recs @ [new_zero (encode_key 7 1)])),
       dd_blobs = (\<lambda>_. None)\<rparr>"
  have s: "3 \<le> MAX_SNAPSHOT_ID" by (simp add: snapshot_le_max_unat)
  have some: "\<exists>r \<in> set zero_recs. 2 < snapshot_of (r_key r)"
    using s by (auto simp: zero_recs_def new_zero_def)
  have ok: "\<forall>r \<in> set zero_recs. log_record_ok r" "\<forall>r \<in> set zero_recs. r_kind r \<noteq> Zero \<longrightarrow> dd_blobs ?dir (r_worker_id r) \<noteq> None"
    using zero_recs_keys(3) by auto
  have "new_zero (encode_key 7 1) \<notin> set zero_recs"
    by (simp add: zero_recs_def new_zero_def encode_key_def SNAPSHOT_BITS_def SNAPSHOT_MASK_def)
  moreover have "length (filter (\<lambda>r. 2 < snapshot_of (r_key r)) zero_recs) = 1"
    using s by (simp add: zero_recs_def new_zero_def)
  moreover have "\<exists>dir'. purge ?dir 2 = Inr (length (filter (\<lambda>r. 2 < snapshot_of (r_key r)) zero_recs), dir') \<and>
      (if \<exists>r \<in> set zero_recs. 2 < snapshot_of (r_key r)
       then set (dir_records dir') = {r \<in> set zero_recs. snapshot_of (r_key r) \<le> 2} else dir' = ?dir)"
    by (rule purge_forgets_unindexed_saves [OF _ _ ok]) simp_all
  ultimately show ?thesis unfolding if_P [OF some] by auto
qed

section \<open>The C interface\<close>

text \<open>C21: a session through the C interface: open for appending, save, close, open for reading.
  The name is valid UTF-8, the directory it names is new or holds the log of a history (no \<open>index.bxdb\<close>), the
  worker count is between 1 and 255, every save fits its bitmap and buffers and has a higher
  snapshot than the one before, and the blob files have room for the pages. Then no call aborts
  the process, and \<open>bxdb_load_page\<close> at an encodable snapshot returns true and fills the page
  buffer with the newest version of the page at the snapshot, or returns false and leaves the
  buffer as it was when there is none. (A save with a refused snapshot aborts,
  and so does opening with 256 workers: lemma \<open>capi_aborts\<close>.)\<close>

theorem capi_roundtrip:
  assumes "dir_holds zd h (fs name)" "dd_index (fs name) = None" "0 < n" "n \<le> 255" "zstd_ok zc zd"
    and ops: "saves_fit (dir_last (fs name)) ops" and room: "dir_room (pages_saved ops) (fs name)"
    and "utf8_valid name" "s \<le> MAX_SNAPSHOT_ID" "length page = PAGE_SIZE"
  shows "\<exists>w w' dir' r. bxdb_open_for_append_only fs (Some name) n thr use_shadow = Inr w \<and>
    capi_saves zc ops w = (Inr (), w') \<and> bxdb_close w' = Some dir' \<and>
    bxdb_open_for_btree (fs(name := dir')) shm (Some name) = Inr r \<and>
    fst (bxdb_load_page cpu zd r (Some page) pa s) =
      Inr (case abs_read (abs_saves ops h) pa s of None \<Rightarrow> (False, Some page) | Some p \<Rightarrow> (True, Some p))"
proof -
  have n: "0 < nat n" "nat n \<le> 255" using assms(3,4) by simp_all
  obtain dir' where dir': "write_session zc (nat n) thr use_shadow ops (fs name) = Inr dir'"
    "dir_inv zd (abs_saves ops h) dir'" "dd_index dir' = None"
    using write_session_spec [OF assms(1) n assms(5) ops room, of thr use_shadow] assms(2) by auto
  obtain w w' where w: "bxdb_open_for_append_only fs (Some name) n thr use_shadow = Inr w"
    "capi_saves zc ops w = (Inr (), w')" "bxdb_close w' = Some dir'"
    using capi_session [where fs = fs and name = name, OF assms(8,3) dir'(1) ops] by blast
  obtain r where "bxdb_open_for_btree (fs(name := dir')) shm (Some name) = Inr r"
    "fst (bxdb_load_page cpu zd r (Some page) pa s) =
      Inr (case abs_read (abs_saves ops h) pa s of None \<Rightarrow> (False, Some page) | Some p \<Rightarrow> (True, Some p))"
    using capi_read [where fs = "fs(name := dir')" and shm = shm, OF assms(8) fun_upd_same read_session_history [OF dir'(2,3) assms(9,10)]] by blast
  with w show ?thesis by blast
qed

theorem capi_roundtrip_witness:
  "\<exists>w w' dir' r. bxdb_open_for_append_only (\<lambda>_. fresh_dir) (Some [0x64, 0x62]) 3 0 True = Inr w \<and>
     capi_saves Some demo_ops w = (Inr (), w') \<and> bxdb_close w' = Some dir' \<and>
     bxdb_open_for_btree ((\<lambda>_. fresh_dir)([0x64, 0x62] := dir')) (\<lambda>_. (None, [])) (Some [0x64, 0x62]) = Inr r \<and>
     fst (bxdb_load_page Portable Some r (Some (replicate PAGE_SIZE 9)) 1 5) = Inr (True, Some (replicate PAGE_SIZE 2))"
proof -
  let ?fs = "\<lambda>_ :: bytes. fresh_dir" and ?name = "[0x64, 0x62] :: bytes"
  have n: "(0 :: int) < 3" "(3 :: int) \<le> 255" "5 \<le> MAX_SNAPSHOT_ID" by (simp_all add: snapshot_le_max_unat)
  have fresh: "dir_holds Some [] (?fs ?name)" "dd_index (?fs ?name) = None" by (simp_all add: fresh_holds)
  have ops: "saves_fit (dir_last (?fs ?name)) demo_ops" "dir_room (pages_saved demo_ops) (?fs ?name)"
    using demo_saves demo_room by simp_all
  have name: "utf8_valid ?name" by (rule utf8_ascii) simp
  have out: "length (replicate PAGE_SIZE (9 :: byte)) = PAGE_SIZE" by simp
  from capi_roundtrip [OF fresh n(1,2) zstd_stored ops name n(3) out, of 0 True "\<lambda>_. (None, [])" Portable 1]
  show ?thesis by (simp add: demo_history)
qed

section \<open>Raw export and statistics\<close>

text \<open>C10: exporting a database gives its history: write a session to a log database (no
  \<open>index.bxdb\<close>) whose log is in order and run \<open>convert-to-raw\<close> into an empty output directory: it succeeds, names the newest
  snapshot in the metadata, and restoring any page at any snapshot from the exported chain
  (the newest file up to the snapshot that holds the page) gives what the database's reader
  returns, with zeros for a page never saved. This holds for every snapshot up to the newest
  and a memory size, given as argument, that covers all pages of the log.\<close>

theorem export_reads_history:
  assumes "dir_holds zd h dir" "dd_index dir = None" "0 < k" "k \<le> 255" "zstd_ok zc zd"
    and "saves_fit (dir_last dir) ops" "dir_room (pages_saved ops) dir" "sorted_wrt before (dir_records dir)"
    and args: "length args = 4" "parse_word 10 (args ! 3) = Some (msize :: u64)" "unat msize = n * PAGE_SIZE" "0 < n"
    and fits: "\<forall>key \<in> r_key ` set (dir_records dir) \<union> set (session_keys ops). unat (pa_of key) < n"
    and page: "length page = PAGE_SIZE"
  shows "\<exists>dir' chain m. write_session zc k thr use_shadow ops dir = Inr dir' \<and>
    raw_main zd dir' (\<lambda>_. None) args =
      Inr (Inr \<lparr>ro_chain = chain, ro_meta = ''current_snap_id='' @ show_dec (unat m) @ [CHR 0x0A]\<rparr>) \<and>
    m = (if dir_records dir' = [] then 0 else snapshot_of (r_key (last (dir_records dir')))) \<and>
    (\<forall>s pa. s \<le> m \<longrightarrow> unat pa < n \<longrightarrow> chain_page chain pa (unat s) =
       (case read_session cpu zd dir' page pa s of Inr (Some p) \<Rightarrow> p | _ \<Rightarrow> replicate PAGE_SIZE 0))"
proof -
  obtain dir' recs where dir': "write_session zc k thr use_shadow ops dir = Inr dir'"
    "dir_inv zd (abs_saves ops h) dir'" "dd_index dir' = None"
    "dir_records dir' = dir_records dir @ recs" "map r_key recs = session_keys ops"
    using write_session_spec [OF assms(1,3-7), of thr use_shadow] assms(2) by auto
  have sorted: "sorted_wrt before (dir_records dir')"
    by (rule session_keeps_order [OF assms(1,6,8) dir'(4,5)])
  have "r_key ` set recs = set (session_keys ops)" using arg_cong [OF dir'(5), of set] by simp
  then have "\<forall>r \<in> set (dir_records dir'). unat (pa_of (r_key r)) < n" using fits dir'(4) by auto
  then obtain chain m where out: "raw_main zd dir' (\<lambda>_. None) args =
      Inr (Inr \<lparr>ro_chain = chain, ro_meta = ''current_snap_id='' @ show_dec (unat m) @ [CHR 0x0A]\<rparr>)"
    "m = (if dir_records dir' = [] then 0 else snapshot_of (r_key (last (dir_records dir'))))"
    "\<forall>s pa. s \<le> m \<longrightarrow> unat pa < n \<longrightarrow> chain_page chain pa (unat s) =
       (case abs_read (abs_saves ops h) pa s of None \<Rightarrow> replicate PAGE_SIZE 0 | Some p \<Rightarrow> p)"
    using export_history [OF dir'(2,3) sorted args] by blast
  have "m \<le> MAX_SNAPSHOT_ID" using out(2) snapshot_of_bound by simp
  then have "read_session cpu zd dir' page pa s = Inr (abs_read (abs_saves ops h) pa s)" if "s \<le> m" for pa s
    using read_session_history [OF dir'(2,3) order_trans [OF that] page] by blast
  with dir'(1) out show ?thesis by (auto split: option.splits)
qed

theorem export_reads_history_witness:
  "\<exists>dir' chain m. write_session Some 3 0 True demo_ops fresh_dir = Inr dir' \<and>
     raw_main Some dir' (\<lambda>_. None) [''raw'', ''db'', ''out'', ''8192''] =
       Inr (Inr \<lparr>ro_chain = chain, ro_meta = ''current_snap_id='' @ show_dec (unat (m :: u32)) @ [CHR 0x0A]\<rparr>)"
proof -
  let ?args = "[''raw'', ''db'', ''out'', ''8192'']" and ?page = "replicate PAGE_SIZE (9 :: byte)"
  have k: "(0 :: nat) < 3" "(3 :: nat) \<le> 255" by simp_all
  have ops: "saves_fit (dir_last fresh_dir) demo_ops" "sorted_wrt before (dir_records fresh_dir)"
    by (simp add: demo_saves) simp
  have "show_dec (unat (8192 :: u64)) = ''8192''" by (simp add: show_base.simps digit_char_def) code_simp
  with parse_word_show [of 10 "8192 :: u64"] have "parse_word 10 ''8192'' = Some (8192 :: u64)" by simp
  then have args: "length ?args = 4" "parse_word 10 (?args ! 3) = Some (8192 :: u64)" "unat (8192 :: u64) = 2 * PAGE_SIZE" "(0 :: nat) < 2"
    by (simp_all add: PAGE_SIZE_def)
  have "unat (pa_of key) < 2" if "key \<in> set (session_keys demo_ops)" for key
    using that op_keys_parts(2) [OF demo_fits(1)] op_keys_parts(2) [OF demo_fits(2)]
    by (fastforce simp: session_keys_def demo_ops_def demo_pages)
  then have fits: "\<forall>key \<in> r_key ` set (dir_records fresh_dir) \<union> set (session_keys demo_ops). unat (pa_of key) < 2" by simp
  have page: "length ?page = PAGE_SIZE" by simp
  from export_reads_history [OF fresh_holds fresh_simps(1) k zstd_stored ops(1) demo_room ops(2) args fits page, of 0 True Portable]
  show ?thesis by blast
qed

text \<open>C37: \<open>bxdb stats\<close> for the snapshot of the last save of a session prints the number of pages
  that save held and how many of them are not all zero, whatever was saved before.\<close>

theorem stats_of_session:
  assumes "dir_holds zd h dir" "0 < n" "n \<le> 255" "zstd_ok zc zd"
    and "saves_fit (dir_last dir) (ops @ [(sched, op)])" "dir_room (pages_saved (ops @ [(sched, op)])) dir"
  shows "\<exists>dir'. write_session zc n thr use_shadow (ops @ [(sched, op)]) dir = Inr dir' \<and>
    cmd_stats dir' (Some (op_snapshot op)) = Inr
      [''snapshot       : '' @ show_dec (unat (op_snapshot op)),
       ''total pages    : '' @ show_dec (length (op_pages op)),
       ''non-zero pages : '' @ show_dec (length (filter (\<lambda>pa. \<not> is_all_zero (page_at (op_mem op) pa)) (op_pages op)))]"
  by (rule stats_after_session [OF assms])

theorem stats_of_session_witness:
  "\<exists>dir'. write_session Some 3 0 True ([(rev, demo_full)] @ [(id, demo_sparse)]) fresh_dir = Inr dir' \<and>
     cmd_stats dir' (Some 5) = Inr [''snapshot       : 5'', ''total pages    : 1'', ''non-zero pages : 1'']"
proof -
  have k: "(0 :: nat) < 3" "(3 :: nat) \<le> 255" by simp_all
  have ops: "saves_fit (dir_last fresh_dir) ([(rev, demo_full)] @ [(id, demo_sparse)])"
    "dir_room (pages_saved ([(rev, demo_full)] @ [(id, demo_sparse)])) fresh_dir"
    using demo_saves demo_room by (simp_all add: demo_ops_def)
  have decimal: "show_dec 5 = ''5''" "show_dec (Suc 0) = ''1''" by code_simp+
  have "page_at (op_mem demo_sparse) 1 = replicate PAGE_SIZE 2"
    by (simp add: demo_sparse_def page_at_replicate)
  then have "\<not> is_all_zero (page_at (op_mem demo_sparse) 1)" by (simp add: is_all_zero_iff PAGE_SIZE_def)
  with stats_of_session [OF fresh_holds k zstd_stored ops, of 0 True] show ?thesis
    by (simp add: demo_pages demo_fits decimal)
qed

section \<open>The inspector on a saved database\<close>

text \<open>C23: what the inspector exports is a page of the history. On a database written by
  the library, when a file name has been typed into the export prompt and Enter is pressed,
  the file then holds the content of the selected page at its snapshot, byte for byte, and the
  status line says so; nothing else on disk changes.\<close>

theorem export_writes_saved_page:
  assumes "dir_inv zd h dir" "dd_index dir = None" "\<forall>w f. dd_blobs dir w = Some f \<longrightarrow> length f < 2 ^ 63"
    and "insp_open dir cli_snap cli_pa = Inr app0" "browsing zd fail path (app0, files0) (app, files)"
    and "ap_export_input app = Some name" "name \<noteq> []" "fail name = None"
  shows "\<exists>app' i page. event_loop zd fail path [(height, Press KEnter m)] (app, files) =
      Inr (Waiting app' (files(name \<mapsto> page))) \<and>
    ap_selected app = Some i \<and>
    abs_read h (pa_of (r_key (active_records app ! i))) (snapshot_of (r_key (active_records app ! i))) = Some page \<and>
    ap_export_status app' = Some (Exported PAGE_SIZE name)"
proof -
  obtain hdr rs where log: "dd_log dir = Some (log_file hdr rs)" and hm: "hist_match zd (dd_blobs dir) rs h"
    and hok: "history_ok h" using assms(1) by (auto simp: dir_inv_def)
  have rok: "\<forall>r \<in> set rs. log_record_ok r" using hist_match_log_ok [OF hm] by blast
  have ok0: "app_ok zd (fst (app0, files0))" using insp_open_ok [OF assms(4)] by simp
  have ok: "app_ok zd app" using browsing_ok [OF assms(5) ok0] by simp
  have frame: "ap_dir app = dir" "set (ap_records app) = set rs"
    using browsing_frame [OF assms(5) ok0] insp_open_log [OF assms(2) log rok assms(4)] by simp_all
  have list: "list_ok app" using ok by (simp add: app_ok_def)
  obtain i where i: "ap_selected app = Some i" "r_kind (active_records app ! i) = Full"
    using ok assms(6) by (auto simp: app_ok_def prompts_ok_def)
  have idle: "ap_filter_input app = None" using ok assms(6) by (auto simp: app_ok_def prompts_ok_def)
  let ?r = "active_records app ! i"
  have "?r \<in> set rs" using active_in_records [OF list selected_in_range [OF list i(1)]] frame(2) by simp
  then obtain s hm' pa page where p: "(s, hm') \<in> set h" "hm' pa = Some page" "rec_ok zd (dd_blobs dir) (set rs) s pa page ?r"
    by (rule hist_match_recE [OF hm])
  have key: "pa_of (r_key ?r) = pa" "snapshot_of (r_key ?r) = s"
  proof -
    have "unat pa < 2 ^ 45" using hok p(1,2) by (induction h) auto
    moreover have "s \<le> MAX_SNAPSHOT_ID" by (rule history_snapshot_le [OF hok p(1)])
    ultimately show "pa_of (r_key ?r) = pa" "snapshot_of (r_key ?r) = s"
      using p(3) by (simp_all add: rec_ok_def pa_of_encode_key_small)
  qed
  have full: "full_at zd (dd_blobs dir) ?r page" using p(3) i(2) by (simp add: rec_ok_def chunk_at_def)
  then have len: "length page = PAGE_SIZE" by (simp add: full_at_def)
  obtain d b where t: "turn zd fail path (height, Press KEnter m) (app, files) =
      handle_input fail (Press KEnter m) (app\<lparr>ap_detail := d, ap_blob_files := b\<rparr>, files)"
    "d = Some (i, DFull page)"
    using turn_eq [OF ok, of fail path height "Press KEnter m" files] i(1) frame(1) stored_full [OF full assms(3)] by auto
  let ?app' = "app\<lparr>ap_detail := d, ap_blob_files := b, ap_export_input := None, ap_export_status := Some (Exported PAGE_SIZE name)\<rparr>"
  have "event_loop zd fail path [(height, Press KEnter m)] (app, files) = Inr (Waiting ?app' (files(name \<mapsto> page)))"
    using t assms(6-8) idle len by (simp add: handle_input_def export_key_def export_detail_def)
  moreover have "abs_read h (pa_of (r_key ?r)) (snapshot_of (r_key ?r)) = Some page"
    unfolding key by (rule abs_read_at [OF hok p(1,2)])
  ultimately show ?thesis using i(1) by (intro exI [of _ ?app'] exI [of _ i] exI [of _ page]) simp
qed

text \<open>A database with one stored page, and the inspector with its export prompt open on it.\<close>

definition full_rec :: chunk_record where
  "full_rec = new_full (encode_key 0 0) 0 0 4096"

definition full_dir :: db_dir where
  "full_dir = \<lparr>dd_index = None, dd_log = Some (log_file 0 [full_rec]), dd_blobs = [0 \<mapsto> replicate PAGE_SIZE 1]\<rparr>"

definition full_history :: history where
  "full_history = [(0, [0 \<mapsto> replicate PAGE_SIZE 1])]"

lemma full_rec_simps [simp]:
  "r_kind full_rec = Full" "r_key full_rec = encode_key 0 0" "log_record_ok full_rec"
  by (simp_all add: full_rec_def new_full_def log_record_ok_def)

lemma full_dir_inv: "dir_inv Some full_history full_dir"
proof -
  have "(0 :: u32) \<le> MAX_SNAPSHOT_ID" by (simp add: snapshot_le_max_unat)
  then have "history_ok full_history" by (auto simp: full_history_def)
  moreover have "\<not> is_all_zero (replicate PAGE_SIZE 1)" by (simp add: is_all_zero_iff PAGE_SIZE_def)
  then have "rec_ok Some (dd_blobs full_dir) R 0 0 (replicate PAGE_SIZE 1) full_rec" for R
    by (simp add: rec_ok_def chunk_at_def full_at_def blob_range_def full_dir_def based_def)
      (simp add: full_rec_def new_full_def get_range_def rslice_def PAGE_SIZE_def)
  then have "hist_match Some (dd_blobs full_dir) [full_rec] full_history"
    by (auto simp: hist_match_def full_history_def)
  ultimately show ?thesis by (auto simp: dir_inv_def full_dir_def full_history_def)
qed

lemma full_dir_prompt:
  "\<exists>app0 app. insp_open full_dir None None = Inr app0 \<and>
     browsing Some (\<lambda>_. None) [] (app0, \<lambda>_. None) (app, \<lambda>_. None) \<and> ap_export_input app = Some [120]"
proof -
  let ?press = "\<lambda>c. (10, Press (KLetter c) {})"
  have "load_records full_dir = Inr (AppendOnly, [full_rec], 0)"
    by (simp add: full_dir_def load_records_def log_file_def read_records_encode_log)
  then obtain app0 where app0: "insp_open full_dir None None = Inr app0" "app0 = app_new full_dir AppendOnly [full_rec] (stats_of [full_rec]) 0"
    by (simp add: insp_open_def)
  have idle: "ap_filter_input app0 = None" "ap_export_input app0 = None" "ap_selected app0 = Some 0"
    "active_records app0 = [full_rec]" by (simp_all add: app0(2) app_new_def active_records_def)
  have ok0: "app_ok Some app0" by (rule insp_open_ok [OF app0(1)])
  obtain d b where t: "turn Some (\<lambda>_. None) [] (?press CHR ''e'') (app0, \<lambda>_. None) =
      handle_input (\<lambda>_. None) (Press (KLetter CHR ''e'') {}) (app0\<lparr>ap_detail := d, ap_blob_files := b\<rparr>, \<lambda>_. None)"
    "app_ok Some (app0\<lparr>ap_detail := d, ap_blob_files := b\<rparr>)"
    using turn_eq [OF ok0] by blast
  let ?app1 = "app0\<lparr>ap_detail := d, ap_blob_files := b, ap_export_status := None, ap_export_input := Some []\<rparr>"
  have "list_ok (app0\<lparr>ap_detail := d, ap_blob_files := b, ap_export_status := None\<rparr>)" using ok0 by (simp add: app_ok_def)
  from record_at_ok [OF this, of 0] idle(4)
  have "record_at (app0\<lparr>ap_detail := d, ap_blob_files := b, ap_export_status := None\<rparr>) 0 = Inr full_rec" by simp
  with t(1) idle have step1: "turn Some (\<lambda>_. None) [] (?press CHR ''e'') (app0, \<lambda>_. None) = Inr (Some (?app1, \<lambda>_. None))"
    by (simp add: handle_input_def view_key_def letter_key_def)
  have ok1: "app_ok Some ?app1" using browsing_ok [OF browsing.turn [OF browsing.start step1]] ok0 by simp
  obtain d b where t: "turn Some (\<lambda>_. None) [] (?press CHR ''x'') (?app1, \<lambda>_. None) =
      handle_input (\<lambda>_. None) (Press (KLetter CHR ''x'') {}) (?app1\<lparr>ap_detail := d, ap_blob_files := b\<rparr>, \<lambda>_. None)"
    using turn_eq [OF ok1] by blast
  then have step2: "turn Some (\<lambda>_. None) [] (?press CHR ''x'') (?app1, \<lambda>_. None) =
      Inr (Some (?app1\<lparr>ap_detail := d, ap_blob_files := b, ap_export_input := Some [120]\<rparr>, \<lambda>_. None))"
    using idle by (simp add: handle_input_def export_key_def is_control_def utf8_len_def)
  from browsing.turn [OF browsing.turn [OF browsing.start step1] step2] app0(1) show ?thesis by fastforce
qed

theorem export_writes_saved_page_witness:
  "\<exists>app0 app app' page. insp_open full_dir None None = Inr app0 \<and>
     event_loop Some (\<lambda>_. None) [] [(10, Press KEnter {})] (app, \<lambda>_. None) = Inr (Waiting app' [[120] \<mapsto> page])"
proof -
  obtain app0 app where app: "insp_open full_dir None None = Inr app0"
    "browsing Some (\<lambda>_. None) [] (app0, \<lambda>_. None) (app, \<lambda>_. None)" "ap_export_input app = Some [120]"
    using full_dir_prompt by blast
  have dir: "dd_index full_dir = None" "\<forall>w f. dd_blobs full_dir w = Some f \<longrightarrow> length f < 2 ^ 63"
    by (auto simp: full_dir_def PAGE_SIZE_def)
  have name: "[120 :: nat] \<noteq> []" "(\<lambda>_ :: ustring. None :: bytes option option) [120] = None" by simp_all
  from export_writes_saved_page [OF full_dir_inv dir app name, of 10 "{}"] app(1) show ?thesis by blast
qed

section \<open>The counters of the reader\<close>

text \<open>C27: Over a database whose log holds a history, the counters are the requests. Whatever
  the clock says, every sequence of requests is answered with the pages of the history, and
  starting from zero the counters then balance: one total call for each page found, each of
  them a full, a zero or a delta call, and one blob read, with one decompression, for each of
  the full and delta calls.\<close>

theorem load_counters_balance:
  assumes "dir_inv zd h dir" "dd_index dir = None"
    and "\<forall>(cpu, out, pa, s) \<in> set reqs. length out = PAGE_SIZE \<and> s \<le> MAX_SNAPSHOT_ID"
  shows "\<exists>db c i. btree_db_open dir cache_file identity = Inr db \<and>
    load_pages_timed el zd db reqs (timing_new, 0) = (map (\<lambda>(cpu, out, pa, s). Inr (abs_read h pa s)) reqs, (c, i)) \<and>
    c TotalCalls = of_nat (length (filter (\<lambda>(cpu, out, pa, s). abs_read h pa s \<noteq> None) reqs)) \<and>
    c TotalCalls = c FullCalls + c ZeroCalls + c DeltaCalls \<and>
    c BlobReadCalls = c FullCalls + c DeltaCalls \<and> c ZstdDecompressCalls = c BlobReadCalls"
proof -
  obtain st where st: "page_store_open dir = Inr st" "store_ok st"
    "\<And>pa s. s \<le> MAX_SNAPSHOT_ID \<Longrightarrow> read_page zd st pa s = Inr (abs_read h pa s)"
    by (rule dir_inv_read [OF assms(1,2)]) (use that in blast)
  let ?db = "\<lparr>bd_store = st, bd_cache = None\<rparr>" and ?pages = "map (\<lambda>(cpu, out, pa, s). abs_read h pa s) reqs"
  have db: "btree_db_open dir cache_file identity = Inr ?db"
    by (simp add: btree_db_open_def st(1) DISABLE_SHARED_CACHE_def)
  have "cache_fits zd st None" by (simp add: cache_fits_def opt_cache.coherent_def opt_ok_def opt_held_def)
  moreover have "\<forall>(cpu, out, pa, s) \<in> set reqs. length out = PAGE_SIZE" using assms(3) by auto
  ultimately have "load_pages zd ?db reqs = map (\<lambda>(cpu, out, pa, s). read_page zd st pa s) reqs"
    by (rule load_pages_eq [OF st(2)])
  also have "\<dots> = map Inr ?pages" using assms(3) st(3) by auto
  finally obtain c i where t: "load_pages_timed el zd ?db reqs (timing_new, 0) = (map Inr ?pages, (c, i))"
    using load_pages_timed_result [of el zd ?db reqs "(timing_new, 0)"] by (metis prod.collapse)
  obtain f z d where "counted (timing_new, 0) (c, i) (of_nat (length (filter (\<lambda>p. p \<noteq> None) ?pages))) f z d (f + d)"
    "f + z + d = of_nat (length (filter (\<lambda>p. p \<noteq> None) ?pages))"
    using loads_counted [OF t] by auto
  moreover have "length (filter (\<lambda>p. p \<noteq> None) ?pages) = length (filter (\<lambda>(cpu, out, pa, s). abs_read h pa s \<noteq> None) reqs)"
    by (simp add: filter_map comp_def case_prod_unfold)
  moreover have "map Inr ?pages = map (\<lambda>(cpu, out, pa, s). Inr (abs_read h pa s)) reqs" by auto
  ultimately show ?thesis using db t
    by (intro exI [of _ ?db] exI [of _ c] exI [of _ i]) (simp add: counted_def timing_new_def)
qed

theorem load_counters_balance_witness:
  "\<exists>db c i. btree_db_open full_dir None [] = Inr db \<and>
     load_pages_timed (\<lambda>i. of_nat (7 * i)) Some db [(Portable, replicate PAGE_SIZE 9, 0, 4), (X86_sse41, replicate PAGE_SIZE 8, 1, 4)] (timing_new, 0) =
       ([Inr (Some (replicate PAGE_SIZE 1)), Inr None], (c, i)) \<and>
     c TotalCalls = 1 \<and> c BlobReadCalls = c FullCalls + c DeltaCalls"
proof -
  let ?reqs = "[(Portable, replicate PAGE_SIZE 9, 0, 4), (X86_sse41, replicate PAGE_SIZE 8, 1, 4)]"
  have "dd_index full_dir = None" by (simp add: full_dir_def)
  moreover have "\<forall>(cpu, out, pa, s) \<in> set ?reqs. length out = PAGE_SIZE \<and> s \<le> MAX_SNAPSHOT_ID"
    by (simp add: snapshot_le_max_unat)
  moreover have "abs_read full_history 0 4 = Some (replicate PAGE_SIZE 1)" "abs_read full_history 1 4 = None"
    by (simp_all add: full_history_def)
  ultimately show ?thesis using load_counters_balance [OF full_dir_inv, of ?reqs None "[]" "\<lambda>i. of_nat (7 * i)"] by auto
qed

section \<open>A torn log\<close>

text \<open>C24: A process killed while it appends a record leaves a fragment of it at the end of the
  log. If less than the fixed part of the record arrived, the database reads as if the record
  had not been written at all; if only a part of the base key of a delta is missing, no page
  of any snapshot can be read any more and the conversion fails too, although every record
  before it is whole. A writer opens the directory in both cases.\<close>

theorem torn_log_reads:
  assumes "dir_inv zd h dir" "dd_index dir = None" "dd_log dir = Some log" "j < encoded_len r"
    and "s \<le> MAX_SNAPSHOT_ID" "length out = PAGE_SIZE" "0 < n" "n \<le> 255"
  shows "let torn = dir\<lparr>dd_log := Some (log @ take j (write_to r))\<rparr>
    in read_session cpu zd torn out pa s =
         (if j < LOG_RECORD_BASE_SIZE then Inr (abs_read h pa s) else Inl (IoErr UnexpectedEof)) \<and>
       (LOG_RECORD_BASE_SIZE \<le> j \<longrightarrow> r_kind r = Delta \<and> to_btree torn = Inl (IoErr UnexpectedEof)) \<and>
       (\<exists>db. append_open torn n thr use_shadow = Inr db)"
proof -
  obtain m xs where log: "log = log_file m xs" and ok: "\<forall>x \<in> set xs. log_record_ok x"
    using assms(1,3) hist_match_log_ok by (fastforce simp: dir_inv_def)
  let ?s = "take j (write_to r)"
  let ?torn = "dir\<lparr>dd_log := Some (log @ ?s)\<rparr>"
  have torn: "dd_index ?torn = None" "dd_log ?torn = Some (log_file m xs @ ?s)" using assms(2) log by simp_all
  note recs = read_torn_log [OF ok assms(4), of m]
  have "read_session cpu zd ?torn out pa s =
      (if j < LOG_RECORD_BASE_SIZE then Inr (abs_read h pa s) else Inl (IoErr UnexpectedEof))"
  proof (cases "j < LOG_RECORD_BASE_SIZE")
    case True
    then have "read_log_records (log_file m xs @ ?s) = read_log_records (log_file m xs @ [])" using recs ok by simp
    from same_records_session [OF torn this] have "read_session cpu zd ?torn out pa s = read_session cpu zd (dir\<lparr>dd_log := Some log\<rparr>) out pa s"
      by (simp add: log)
    also have "dir\<lparr>dd_log := Some log\<rparr> = dir" using assms(3) by (cases dir) simp
    finally show ?thesis using True read_session_history [OF assms(1,2,5,6)] by simp
  next
    case False
    with recs undecodable_session [OF torn _ assms(5)] show ?thesis by simp
  qed
  moreover have "LOG_RECORD_BASE_SIZE \<le> j \<longrightarrow> r_kind r = Delta \<and> to_btree ?torn = Inl (IoErr UnexpectedEof)"
    using recs long_fragment(2) [OF _ assms(4)] by (simp add: to_btree_def log)
  moreover have "read_and_verify_header (log @ ?s) MAGIC_LOG = Inr (m, encode_log xs @ ?s)"
    unfolding log log_file_def append_assoc by (rule read_log_header)
  then have "\<exists>db. append_open ?torn n thr use_shadow = Inr db"
    using assms(7,8) by (simp add: append_open_def Let_def)
  ultimately show ?thesis unfolding Let_def by blast
qed

theorem torn_log_reads_witness:
  "read_session Portable Some (zero_dir\<lparr>dd_log := Some (log_file 3 zero_recs @ take 21 (write_to (new_zero (encode_key 1 4))))\<rparr>)
       (replicate PAGE_SIZE 9) 1 5 = Inr (Some (replicate PAGE_SIZE 0)) \<and>
     read_session Portable Some (zero_dir\<lparr>dd_log := Some (log_file 3 zero_recs @ take 29 (write_to (new_delta (encode_key 1 4) 0 0 10 0)))\<rparr>)
       (replicate PAGE_SIZE 9) 1 5 = Inl (IoErr UnexpectedEof)"
proof -
  have log: "dd_log zero_dir = Some (log_file 3 zero_recs)" by (simp add: zero_dir_def)
  have short: "(21 :: nat) < encoded_len (new_zero (encode_key 1 4))" "29 < encoded_len (new_delta (encode_key 1 4) 0 0 10 0)"
    by (simp_all add: encoded_len_cases new_zero_def new_delta_def)
  have s: "(5 :: u32) \<le> MAX_SNAPSHOT_ID" "length (replicate PAGE_SIZE (9 :: byte)) = PAGE_SIZE" "(0 :: nat) < 2" "(2 :: nat) \<le> 255"
    by (simp_all add: snapshot_le_max_unat)
  have "abs_read zero_history 1 5 = Some (replicate PAGE_SIZE 0)" by (simp add: zero_history_def)
  with torn_log_reads [OF zero_dir_inv zero_dir_simps(1) log short(1) s, of Portable Some 1 0 True]
    torn_log_reads [OF zero_dir_inv zero_dir_simps(1) log short(2) s, of Portable Some 1 0 True]
  show ?thesis by (simp add: LOG_RECORD_BASE_SIZE_def Let_def)
qed

section \<open>An interrupted purge\<close>

text \<open>C26: A purge that is killed can be repeated. The purge of a log database is a sequence of
  changes of single files, in any order of its hash map and of the directory listing; after any
  number of them every page of every snapshot up to the threshold reads as before, and purging
  again ends in exactly the directory the uninterrupted purge ends in.\<close>

theorem purge_interrupted:
  assumes "dir_inv zd h dir" "dd_index dir = None" "schedule_ok map_order" "schedule_ok dir_order"
    and "purge_ops map_order dir_order dir t = Inr (removed, os)"
  shows "\<exists>dir'. purge dir t = Inr (removed, dir') \<and> exec_ops os dir = (Inr (), dir') \<and>
    (let mid = snd (exec_ops (take k os) dir)
     in (\<exists>n. purge mid t = Inr (n, dir')) \<and>
        (\<forall>cpu out pa s. s \<le> t \<longrightarrow> s \<le> MAX_SNAPSHOT_ID \<longrightarrow> length out = PAGE_SIZE \<longrightarrow>
           read_session cpu zd mid out pa s = Inr (abs_read h pa s)))"
  by (rule purge_prefix [OF assms])

theorem purge_interrupted_witness:
  "\<exists>removed os dir'. purge_ops rev id zero_dir 2 = Inr (removed, os) \<and> exec_ops os zero_dir = (Inr (), dir') \<and>
     purge zero_dir 2 = Inr (removed, dir') \<and> (\<exists>n. purge (snd (exec_ops (take 0 os) zero_dir)) 2 = Inr (n, dir'))"
proof -
  have sched: "schedule_ok (rev :: byte list \<Rightarrow> byte list)" "schedule_ok (id :: byte list \<Rightarrow> byte list)"
    by (simp_all add: schedule_ok_def)
  obtain n dir' where "purge zero_dir 2 = Inr (n, dir')" using purge_log_inv [OF zero_dir_inv zero_dir_simps(1)] by blast
  then obtain removed os where ops: "purge_ops rev id zero_dir 2 = Inr (removed, os)"
    using steps_are_purge [OF sched, of zero_dir 2] by (cases "purge_ops rev id zero_dir 2") auto
  from purge_interrupted [OF zero_dir_inv zero_dir_simps(1) sched ops, of 0] ops show ?thesis
    unfolding Let_def by blast
qed

end
